(* ===== verification/Otter_Prelude.thy ===== *)
theory Otter_Prelude
  imports Main "HOL-Library.Word" "HOL-Library.AList"
begin

text \<open>
  The prelude of the development: the machine types of the sources, the little-endian byte
  codec and the byte-buffer operations that the write-ahead log, the data-chunk codec and the
  disk hash table share, the standard-library containers the sources use (an ordered set, a
  hash map, binary search), and the lemma collections that carry the component proofs.

  An unsigned C++ integer is a natural number. Where the source can leave its range the
  wrap-around is written out (\<open>wrap64\<close>, \<open>wrap32\<close>, \<open>wrap16\<close>); a store of \<open>k\<close> bytes keeps
  the low \<open>k\<close> bytes (\<open>le k n\<close>), as \<open>memcpy\<close> of a \<open>k\<close>-byte integer does on a little-endian
  machine.
\<close>

named_theorems buf_simps \<open>reading and writing byte buffers\<close>
named_theorems visible_simps \<open>visibility of a version stamp\<close>

section \<open>Machine integers\<close>

type_synonym byte = "8 word"

abbreviation UINT16_MAX :: nat where "UINT16_MAX \<equiv> 65535"
abbreviation UINT32_MAX :: nat where "UINT32_MAX \<equiv> 4294967295"
abbreviation UINT64_MAX :: nat where "UINT64_MAX \<equiv> 18446744073709551615"

definition wrap16 :: "nat \<Rightarrow> nat" where "wrap16 n = n mod 65536"
definition wrap32 :: "nat \<Rightarrow> nat" where "wrap32 n = n mod 4294967296"
definition wrap64 :: "nat \<Rightarrow> nat" where "wrap64 n = n mod 18446744073709551616"

lemma wrap16_id [simp]: "n \<le> UINT16_MAX \<Longrightarrow> wrap16 n = n"
  by (simp add: wrap16_def)

lemma wrap32_id [simp]: "n \<le> UINT32_MAX \<Longrightarrow> wrap32 n = n"
  by (simp add: wrap32_def)

lemma wrap64_id [simp]: "n \<le> UINT64_MAX \<Longrightarrow> wrap64 n = n"
  by (simp add: wrap64_def)

lemma wrap64_le: "wrap64 n \<le> UINT64_MAX"
proof -
  have "n mod 18446744073709551616 < 18446744073709551616" by simp
  then show ?thesis by (simp add: wrap64_def)
qed

text \<open>Unsigned 64-bit subtraction wraps below zero.\<close>

definition sub64 :: "nat \<Rightarrow> nat \<Rightarrow> nat" where
  "sub64 a b = wrap64 (a + 18446744073709551616 - b)"

lemma sub64_id [simp]: "b \<le> a \<Longrightarrow> a \<le> UINT64_MAX \<Longrightarrow> sub64 a b = a - b"
proof -
  assume ba: "b \<le> a" and a: "a \<le> UINT64_MAX"
  have "a + 18446744073709551616 - b = a - b + 18446744073709551616"
    using ba by linarith
  moreover have "(a - b + 18446744073709551616) mod 18446744073709551616 = (a - b) mod 18446744073709551616"
    by (rule mod_add_self2)
  moreover have "a - b < 18446744073709551616" using a by linarith
  ultimately show ?thesis by (simp only: sub64_def wrap64_def mod_less)
qed

section \<open>The little-endian codec\<close>

primrec le :: "nat \<Rightarrow> nat \<Rightarrow> byte list" where
  "le 0 n = []"
| "le (Suc k) n = word_of_nat n # le k (n div 256)"

primrec unle :: "byte list \<Rightarrow> nat" where
  "unle [] = 0"
| "unle (b # bs) = unat b + 256 * unle bs"

lemma length_le [simp]: "length (le k n) = k"
  by (induction k arbitrary: n) simp_all

lemma unat_byte_less: "unat (b :: byte) < 256"
  using unsigned_less [of b, where 'a = nat] by simp

lemma unle_less: "unle bs < 256 ^ length bs"
proof (induction bs)
  case Nil
  then show ?case by simp
next
  case (Cons b bs)
  with unat_byte_less [of b] show ?case by simp
qed

lemma unle_le [simp]: "unle (le k n) = n mod 256 ^ k"
proof (induction k arbitrary: n)
  case 0
  then show ?case by simp
next
  case (Suc k)
  have "unat (word_of_nat n :: byte) = n mod 256"
    by (simp add: unat_of_nat)
  with Suc show ?case
    by (simp add: mod_mult2_eq)
qed

lemma le_unle: "length bs = k \<Longrightarrow> le k (unle bs) = bs"
proof (induction k arbitrary: bs)
  case 0
  then show ?case by simp
next
  case (Suc k)
  then obtain b cs where bs: "bs = b # cs" and len: "length cs = k"
    by (cases bs) auto
  have b: "unat b < 256" by (rule unat_byte_less)
  have "word_of_nat (256 * unle cs) = (0 :: byte)"
    by (simp only: word_of_nat_eq_0_iff) simp
  then have "word_of_nat (unat b + 256 * unle cs) = b"
    by (simp only: of_nat_add) simp
  moreover have "(unat b + 256 * unle cs) div 256 = unle cs"
    using b by simp
  ultimately show ?case using Suc.IH [OF len] bs by simp
qed

section \<open>Reading and writing a byte buffer\<close>

text \<open>
  \<open>bslice off n bs\<close> is the \<open>n\<close> bytes at \<open>off\<close>; \<open>rd k off bs\<close> reads a \<open>k\<close>-byte little-endian
  integer there; \<open>bsplice off new bs\<close> is \<open>memcpy(bs + off, new, size(new))\<close>.
\<close>

definition bslice :: "nat \<Rightarrow> nat \<Rightarrow> 'a list \<Rightarrow> 'a list" where
  "bslice off n bs = take n (drop off bs)"

definition rd :: "nat \<Rightarrow> nat \<Rightarrow> byte list \<Rightarrow> nat" where
  "rd k off bs = unle (bslice off k bs)"

definition bsplice :: "nat \<Rightarrow> 'a list \<Rightarrow> 'a list \<Rightarrow> 'a list" where
  "bsplice off new bs = take off bs @ new @ drop (off + length new) bs"

lemma length_bslice [simp]: "length (bslice off n bs) = min n (length bs - off)"
  by (simp add: bslice_def)

lemma bslice_append1 [buf_simps]: "off + n \<le> length as \<Longrightarrow> bslice off n (as @ bs) = bslice off n as"
  by (simp add: bslice_def)

lemma bslice_append2 [buf_simps]:
  "length as \<le> off \<Longrightarrow> bslice off n (as @ bs) = bslice (off - length as) n bs"
  by (simp add: bslice_def)

lemma bslice_0_all [buf_simps]: "length as = n \<Longrightarrow> bslice 0 n as = as"
  by (simp add: bslice_def)

lemma bslice_0_append [buf_simps]: "length as = n \<Longrightarrow> bslice 0 n (as @ bs) = as"
  by (simp add: bslice_def)

lemma length_bsplice [simp]:
  "off + length new \<le> length bs \<Longrightarrow> length (bsplice off new bs) = length bs"
  by (simp add: bsplice_def)

lemma bslice_bsplice_same [buf_simps]:
  "off \<le> length bs \<Longrightarrow> n = length new \<Longrightarrow> bslice off n (bsplice off new bs) = new"
  by (simp add: bsplice_def bslice_def)

lemma bslice_bsplice_before [buf_simps]:
  "o1 + n \<le> off \<Longrightarrow> off \<le> length bs \<Longrightarrow> bslice o1 n (bsplice off new bs) = bslice o1 n bs"
  by (simp add: bsplice_def bslice_def drop_take)

lemma bslice_bsplice_after [buf_simps]:
  assumes "off + length new \<le> o1" and "off + length new \<le> length bs"
  shows "bslice o1 n (bsplice off new bs) = bslice o1 n bs"
proof -
  have "drop o1 (bsplice off new bs) = drop (o1 - (off + length new)) (drop (off + length new) bs)"
    using assms by (simp add: bsplice_def)
  also have "\<dots> = drop o1 bs" using assms by simp
  finally show ?thesis by (simp add: bslice_def)
qed

lemma rd_less: "rd k off bs < 256 ^ k"
proof -
  have "unle (bslice off k bs) < 256 ^ length (bslice off k bs)" by (rule unle_less)
  also have "\<dots> \<le> 256 ^ k" by (rule power_increasing) simp_all
  finally show ?thesis by (simp add: rd_def)
qed

lemma rd_bsplice_same [buf_simps]:
  "off \<le> length bs \<Longrightarrow> rd k off (bsplice off (le k n) bs) = n mod 256 ^ k"
  by (simp add: rd_def bslice_bsplice_same)

section \<open>Outcomes of a parser\<close>

text \<open>
  What a call on untrusted bytes ends in: a value, a rejection the code reports, an exception, or
  undefined behaviour (a read or a write outside a buffer, a null or wrong-type dereference).
\<close>

datatype 'a outcome = Done 'a | Rejected | Thrown | Undefined

primrec then_do :: "'a outcome \<Rightarrow> ('a \<Rightarrow> 'b outcome) \<Rightarrow> 'b outcome" where
  "then_do (Done x) f = f x"
| "then_do Rejected f = Rejected"
| "then_do Thrown f = Thrown"
| "then_do Undefined f = Undefined"

text \<open>A read pointer is the list of the bytes from it to the end of the buffer.\<close>

definition rdp :: "nat \<Rightarrow> byte list \<Rightarrow> nat" where
  "rdp k bs = unle (take k bs)"

lemma rdp_le [simp]: "rdp k (le k n @ rest) = n mod 256 ^ k"
  by (simp add: rdp_def)

lemma drop_le [simp]: "drop k (le k n @ rest) = rest"
  by simp

lemma byte_roundtrip [simp]: "n < 256 \<Longrightarrow> unat (word_of_nat n :: byte) = n"
  by (simp add: unat_of_nat)

section \<open>Standard containers\<close>

text \<open>
  A \<open>std::set<uint64_t>\<close> is the strictly ascending list of its elements, in the order its
  iterators visit them: \<open>set_insert\<close> and \<open>set_erase\<close> are \<open>insert\<close> and \<open>erase\<close>, and
  \<open>*s.begin()\<close> is \<open>hd\<close>.
\<close>

definition set_insert :: "nat \<Rightarrow> nat list \<Rightarrow> nat list" where
  "set_insert x s = insort_insert x s"

definition set_erase :: "nat \<Rightarrow> nat list \<Rightarrow> nat list" where
  "set_erase x s = filter (\<lambda>y. y \<noteq> x) s"

lemma set_set_insert [simp]: "set (set_insert x s) = insert x (set s)"
  by (simp add: set_insert_def set_insort_insert)

lemma set_set_erase [simp]: "set (set_erase x s) = set s - {x}"
  by (auto simp: set_erase_def)

lemma sorted_set_insert [simp]: "sorted s \<Longrightarrow> sorted (set_insert x s)"
  by (simp add: set_insert_def sorted_insort_insert)

lemma distinct_set_insert [simp]: "distinct s \<Longrightarrow> distinct (set_insert x s)"
  by (simp add: set_insert_def distinct_insort_insert)

lemma sorted_set_erase [simp]: "sorted s \<Longrightarrow> sorted (set_erase x s)"
  using sorted_filter [of id s "\<lambda>y. y \<noteq> x"] by (simp add: set_erase_def)

lemma distinct_set_erase [simp]: "distinct s \<Longrightarrow> distinct (set_erase x s)"
  by (simp add: set_erase_def)

lemma sorted_hd_le: "sorted (s :: nat list) \<Longrightarrow> x \<in> set s \<Longrightarrow> hd s \<le> x"
  by (cases s) auto

text \<open>
  \<open>std::binary_search\<close>, as the standard library computes it: \<open>std::lower_bound\<close> halves the
  range until it is empty, and the element found is compared once more.
\<close>

function lower_bound :: "nat list \<Rightarrow> nat \<Rightarrow> nat \<Rightarrow> nat \<Rightarrow> nat" where
  "lower_bound xs x first len =
     (if len = 0 then first
      else let half = len div 2; mid = first + half in
        if xs ! mid < x then lower_bound xs x (mid + 1) (len - half - 1)
        else lower_bound xs x first half)"
  by pat_completeness auto
termination
  by (relation "measure (\<lambda>(xs, x, first, len). len)") auto

declare lower_bound.simps [simp del]

definition binary_search :: "nat list \<Rightarrow> nat \<Rightarrow> bool" where
  "binary_search xs x =
     (let i = lower_bound xs x 0 (length xs) in i < length xs \<and> \<not> x < xs ! i)"

lemma lower_bound_partition:
  assumes "sorted xs" and "first + len \<le> length xs"
    and "\<forall>j < first. xs ! j < x" and "\<forall>j. first + len \<le> j \<and> j < length xs \<longrightarrow> x \<le> xs ! j"
  shows "(\<forall>j < lower_bound xs x first len. xs ! j < x) \<and>
    (\<forall>j. lower_bound xs x first len \<le> j \<and> j < length xs \<longrightarrow> x \<le> xs ! j)"
  using assms
proof (induction xs x first len rule: lower_bound.induct)
  case (1 xs x first len)
  show ?case
  proof (cases "len = 0")
    case True
    with "1.prems" show ?thesis by (simp add: lower_bound.simps)
  next
    case ne: False
    let ?m = "first + len div 2"
    have m: "?m < length xs" using ne "1.prems"(2) by auto
    show ?thesis
    proof (cases "xs ! ?m < x")
      case True
      have "\<forall>j < ?m + 1. xs ! j < x"
      proof (intro allI impI)
        fix j assume "j < ?m + 1"
        then have "xs ! j \<le> xs ! ?m" using "1.prems"(1) m by (simp add: sorted_nth_mono)
        with True show "xs ! j < x" by simp
      qed
      with "1.IH"(1) [OF ne refl refl True] "1.prems" ne True show ?thesis
        by (subst (1 2) lower_bound.simps) (simp add: Let_def)
    next
      case False
      have "\<forall>j. first + len div 2 \<le> j \<and> j < length xs \<longrightarrow> x \<le> xs ! j"
      proof (intro allI impI)
        fix j assume j: "first + len div 2 \<le> j \<and> j < length xs"
        then have "xs ! ?m \<le> xs ! j" using "1.prems"(1) by (simp add: sorted_nth_mono)
        with False show "x \<le> xs ! j" by simp
      qed
      with "1.IH"(2) [OF ne refl refl False] "1.prems" ne False show ?thesis
        by (subst (1 2) lower_bound.simps) (simp add: Let_def)
    qed
  qed
qed

lemma binary_search_iff: "sorted xs \<Longrightarrow> binary_search xs x \<longleftrightarrow> x \<in> set xs"
proof
  assume "binary_search xs x" and s: "sorted xs"
  then obtain i where i: "i = lower_bound xs x 0 (length xs)" "i < length xs" "xs ! i \<le> x"
    by (auto simp: binary_search_def Let_def)
  have "x \<le> xs ! i" using lower_bound_partition [OF s, of 0 "length xs" x] i by auto
  with i show "x \<in> set xs" by (metis le_antisym nth_mem)
next
  assume "x \<in> set xs" and s: "sorted xs"
  then obtain j where j: "j < length xs" "xs ! j = x" by (auto simp: in_set_conv_nth)
  let ?i = "lower_bound xs x 0 (length xs)"
  have p: "\<forall>j < ?i. xs ! j < x"
    using lower_bound_partition [OF s, of 0 "length xs" x] by auto
  have "?i \<le> j" using p j by (metis leI less_irrefl)
  then have "?i < length xs" and "xs ! ?i \<le> xs ! j"
    using j s by (auto simp: sorted_nth_mono)
  with j show "binary_search xs x" by (simp add: binary_search_def Let_def)
qed

end
