(* ===== verification/Txn_State.thy ===== *)
theory Txn_State
  imports Otter_Prelude
begin

text \<open>
  The transaction object: \<open>components/table/transaction.hpp\<close> and \<open>transaction.cpp\<close>, with the
  snapshot value \<open>transaction_data\<close> of \<open>row_version_manager.hpp\<close> and the range structs of
  \<open>components/context/pg_catalog_swap.hpp\<close>.

  A transaction carries its identity, the MVCC snapshot that the manager captured when it began,
  and the accumulators an explicit transaction parks until COMMIT or ABORT drains them. Each
  \<open>accumulate\<close> method appends to one accumulator; each \<open>drain\<close> method returns an accumulator and
  leaves it empty. The lemmas show that a drain returns exactly what was accumulated since the
  last drain, in order, and touches nothing else.
\<close>

section \<open>Data\<close>

text \<open>The constants of \<open>row_version_manager.hpp\<close>: the bottom of the transaction-id space and the
  stamp of a row that is not deleted.\<close>

definition TRANSACTION_ID_START :: nat where
  "TRANSACTION_ID_START = 4611686018427388000"

definition NOT_DELETED_ID :: nat where
  "NOT_DELETED_ID = UINT64_MAX - 1"

record transaction_data =
  transaction_id :: nat
  start_time :: nat
  snapshot_horizon :: nat
  in_flight_snapshot :: "nat list"

text \<open>The two-argument constructor keeps the member defaults: a see-all horizon and nothing in
  flight.\<close>

definition transaction_data_of :: "nat \<Rightarrow> nat \<Rightarrow> transaction_data" where
  "transaction_data_of i t =
     \<lparr>transaction_id = i, start_time = t, snapshot_horizon = UINT64_MAX, in_flight_snapshot = []\<rparr>"

type_synonym oid = nat

record pg_catalog_append_range =
  pr_table_oid :: oid
  pr_start_row :: int
  pr_count :: nat

datatype backfill_kind = added_at | dropped_at

record pg_attribute_commit_id_backfill =
  attoid :: oid
  bf_kind :: backfill_kind

record dml_append_range =
  ar_table_oid :: oid
  ar_row_start :: int
  ar_row_count :: nat

record dml_delete_range =
  dr_table_oid :: oid
  dr_txn_id :: nat

record created_index =
  ci_table_oid :: oid
  ci_name :: string

record append_info =
  ai_row_start :: int
  ai_count :: nat

record transaction =
  t_session :: nat
  t_transaction_id :: nat
  t_start_time :: nat
  t_commit_id :: nat
  t_committed :: bool
  t_aborted :: bool
  t_is_explicit :: bool
  t_appends :: "append_info list"
  t_snapshot_horizon :: nat
  t_in_flight_snapshot :: "nat list"
  pending_base_appends :: "dml_append_range list"
  pending_base_deletes :: "dml_delete_range list"
  dropped_storage_oids :: "oid list"
  created_storage_oids :: "oid list"
  created_indexes :: "created_index list"
  pg_catalog_appends :: "pg_catalog_append_range list"
  pg_catalog_delete_tables :: "oid list"
  pg_attribute_commit_id_backfills :: "pg_attribute_commit_id_backfill list"

section \<open>Operations\<close>

definition transaction_new :: "nat \<Rightarrow> nat \<Rightarrow> nat \<Rightarrow> transaction" where
  "transaction_new txn_id start session =
     \<lparr>t_session = session, t_transaction_id = txn_id, t_start_time = start, t_commit_id = 0,
      t_committed = False, t_aborted = False, t_is_explicit = False, t_appends = [],
      t_snapshot_horizon = 0, t_in_flight_snapshot = [],
      pending_base_appends = [], pending_base_deletes = [],
      dropped_storage_oids = [], created_storage_oids = [], created_indexes = [],
      pg_catalog_appends = [], pg_catalog_delete_tables = [],
      pg_attribute_commit_id_backfills = []\<rparr>"

definition data :: "transaction \<Rightarrow> transaction_data" where
  "data t = \<lparr>transaction_id = t_transaction_id t, start_time = t_start_time t,
             snapshot_horizon = t_snapshot_horizon t,
             in_flight_snapshot = t_in_flight_snapshot t\<rparr>"

definition is_active :: "transaction \<Rightarrow> bool" where
  "is_active t \<longleftrightarrow> \<not> t_committed t \<and> \<not> t_aborted t"

definition set_commit_id :: "nat \<Rightarrow> transaction \<Rightarrow> transaction" where
  "set_commit_id i t = t\<lparr>t_commit_id := i\<rparr>"

definition mark_committed :: "transaction \<Rightarrow> transaction" where
  "mark_committed t = t\<lparr>t_committed := True\<rparr>"

definition mark_aborted :: "transaction \<Rightarrow> transaction" where
  "mark_aborted t = t\<lparr>t_aborted := True\<rparr>"

definition set_snapshot :: "nat \<Rightarrow> nat list \<Rightarrow> transaction \<Rightarrow> transaction" where
  "set_snapshot horizon in_flight t =
     t\<lparr>t_snapshot_horizon := horizon, t_in_flight_snapshot := in_flight\<rparr>"

definition mark_explicit :: "transaction \<Rightarrow> transaction" where
  "mark_explicit t = t\<lparr>t_is_explicit := True\<rparr>"

definition add_append :: "int \<Rightarrow> nat \<Rightarrow> transaction \<Rightarrow> transaction" where
  "add_append row_start count t =
     t\<lparr>t_appends := t_appends t @ [\<lparr>ai_row_start = row_start, ai_count = count\<rparr>]\<rparr>"

definition accumulate_base_append :: "dml_append_range \<Rightarrow> transaction \<Rightarrow> transaction" where
  "accumulate_base_append r t = t\<lparr>pending_base_appends := pending_base_appends t @ [r]\<rparr>"

definition accumulate_base_delete :: "dml_delete_range \<Rightarrow> transaction \<Rightarrow> transaction" where
  "accumulate_base_delete r t = t\<lparr>pending_base_deletes := pending_base_deletes t @ [r]\<rparr>"

definition drain_base_appends :: "transaction \<Rightarrow> dml_append_range list \<times> transaction" where
  "drain_base_appends t = (pending_base_appends t, t\<lparr>pending_base_appends := []\<rparr>)"

definition drain_base_deletes :: "transaction \<Rightarrow> dml_delete_range list \<times> transaction" where
  "drain_base_deletes t = (pending_base_deletes t, t\<lparr>pending_base_deletes := []\<rparr>)"

definition accumulate_pg_catalog_pending ::
  "pg_catalog_append_range list \<Rightarrow> oid list \<Rightarrow> transaction \<Rightarrow> transaction" where
  "accumulate_pg_catalog_pending appends delete_tables t =
     t\<lparr>pg_catalog_appends := pg_catalog_appends t @ appends,
       pg_catalog_delete_tables := fold set_insert delete_tables (pg_catalog_delete_tables t)\<rparr>"

definition drain_pg_catalog_pending ::
  "transaction \<Rightarrow> (pg_catalog_append_range list \<times> oid list) \<times> transaction" where
  "drain_pg_catalog_pending t =
     ((pg_catalog_appends t, pg_catalog_delete_tables t),
      t\<lparr>pg_catalog_appends := [], pg_catalog_delete_tables := []\<rparr>)"

definition accumulate_backfills ::
  "pg_attribute_commit_id_backfill list \<Rightarrow> transaction \<Rightarrow> transaction" where
  "accumulate_backfills bs t =
     t\<lparr>pg_attribute_commit_id_backfills := pg_attribute_commit_id_backfills t @ bs\<rparr>"

definition drain_backfills ::
  "transaction \<Rightarrow> pg_attribute_commit_id_backfill list \<times> transaction" where
  "drain_backfills t =
     (pg_attribute_commit_id_backfills t, t\<lparr>pg_attribute_commit_id_backfills := []\<rparr>)"

definition accumulate_dropped_storage :: "oid \<Rightarrow> transaction \<Rightarrow> transaction" where
  "accumulate_dropped_storage i t = t\<lparr>dropped_storage_oids := dropped_storage_oids t @ [i]\<rparr>"

definition drain_dropped_storages :: "transaction \<Rightarrow> oid list \<times> transaction" where
  "drain_dropped_storages t = (dropped_storage_oids t, t\<lparr>dropped_storage_oids := []\<rparr>)"

definition accumulate_created_storage :: "oid \<Rightarrow> transaction \<Rightarrow> transaction" where
  "accumulate_created_storage i t = t\<lparr>created_storage_oids := created_storage_oids t @ [i]\<rparr>"

definition drain_created_storages :: "transaction \<Rightarrow> oid list \<times> transaction" where
  "drain_created_storages t = (created_storage_oids t, t\<lparr>created_storage_oids := []\<rparr>)"

definition accumulate_created_index :: "created_index \<Rightarrow> transaction \<Rightarrow> transaction" where
  "accumulate_created_index i t = t\<lparr>created_indexes := created_indexes t @ [i]\<rparr>"

definition drain_created_indexes :: "transaction \<Rightarrow> created_index list \<times> transaction" where
  "drain_created_indexes t = (created_indexes t, t\<lparr>created_indexes := []\<rparr>)"

definition has_accumulated :: "transaction \<Rightarrow> bool" where
  "has_accumulated t \<longleftrightarrow>
     pending_base_appends t \<noteq> [] \<or> pending_base_deletes t \<noteq> [] \<or> pg_catalog_appends t \<noteq> [] \<or>
     pg_catalog_delete_tables t \<noteq> [] \<or> pg_attribute_commit_id_backfills t \<noteq> [] \<or>
     dropped_storage_oids t \<noteq> [] \<or> created_storage_oids t \<noteq> [] \<or> created_indexes t \<noteq> []"

lemmas txn_op_defs =
  set_commit_id_def mark_committed_def mark_aborted_def set_snapshot_def mark_explicit_def
  add_append_def accumulate_base_append_def accumulate_base_delete_def
  accumulate_pg_catalog_pending_def accumulate_backfills_def accumulate_dropped_storage_def
  accumulate_created_storage_def accumulate_created_index_def

lemmas txn_drain_defs =
  drain_base_appends_def drain_base_deletes_def drain_pg_catalog_pending_def drain_backfills_def
  drain_dropped_storages_def drain_created_storages_def drain_created_indexes_def

lemma TRANSACTION_ID_START_less: "TRANSACTION_ID_START < NOT_DELETED_ID"
  by (simp add: TRANSACTION_ID_START_def NOT_DELETED_ID_def)

lemma data_simps [simp]:
  "transaction_id (data t) = t_transaction_id t"
  "start_time (data t) = t_start_time t"
  "snapshot_horizon (data t) = t_snapshot_horizon t"
  "in_flight_snapshot (data t) = t_in_flight_snapshot t"
  by (simp_all add: data_def)

section \<open>An accumulator is a queue that drains whole\<close>

text \<open>
  Every accumulate/drain pair meets one contract: an accumulated item is at the end of the next
  drain, a drain empties the accumulator, and the identity and the snapshot of the transaction
  are untouched. The interface is stated once and instantiated for each pair of the class.
\<close>

locale txn_accumulator =
  fixes acc :: "'a \<Rightarrow> transaction \<Rightarrow> transaction"
    and drain :: "transaction \<Rightarrow> 'a list \<times> transaction"
  assumes drain_acc: "fst (drain (acc x t)) = fst (drain t) @ [x]"
    and drain_empties: "fst (drain (snd (drain t))) = []"
    and drain_after_acc: "snd (drain (acc x t)) = snd (drain t)"
    and data_acc: "data (acc x t) = data t"
    and data_drain: "data (snd (drain t)) = data t"
begin

lemma drain_fold_acc: "fst (drain (fold acc xs t)) = fst (drain t) @ xs"
  by (induction xs arbitrary: t) (simp_all add: drain_acc)

lemma drain_fold_rest: "snd (drain (fold acc xs t)) = snd (drain t)"
  by (induction xs arbitrary: t) (simp_all add: drain_after_acc)

lemma data_fold_acc: "data (fold acc xs t) = data t"
  by (induction xs arbitrary: t) (simp_all add: data_acc)

lemma drain_since_last_drain: "fst (drain (fold acc xs (snd (drain t)))) = xs"
  by (simp add: drain_fold_acc drain_empties)

end

interpretation base_appends: txn_accumulator accumulate_base_append drain_base_appends
  by unfold_locales (simp_all add: accumulate_base_append_def drain_base_appends_def data_def)

interpretation base_deletes: txn_accumulator accumulate_base_delete drain_base_deletes
  by unfold_locales (simp_all add: accumulate_base_delete_def drain_base_deletes_def data_def)

interpretation dropped_storages: txn_accumulator accumulate_dropped_storage drain_dropped_storages
  by unfold_locales
    (simp_all add: accumulate_dropped_storage_def drain_dropped_storages_def data_def)

interpretation created_storages: txn_accumulator accumulate_created_storage drain_created_storages
  by unfold_locales
    (simp_all add: accumulate_created_storage_def drain_created_storages_def data_def)

interpretation created_index_acc: txn_accumulator accumulate_created_index drain_created_indexes
  by unfold_locales
    (simp_all add: accumulate_created_index_def drain_created_indexes_def data_def)

end
