(* ===== verification/Txn_Manager.thy ===== *)
theory Txn_Manager
  imports Txn_State
begin

text \<open>
  The transaction manager: \<open>components/table/transaction_manager.hpp\<close> and \<open>.cpp\<close>.

  The manager owns the commit clock (\<open>current_timestamp\<close>, the source of start times and commit
  ids, and \<open>published_horizon\<close>), the active transactions by session, and the commit ids that are
  allocated but not yet published. Every method holds one lock, so each is one atomic step; the
  step relation \<open>mgr_step\<close> interleaves them in any order. \<open>mgr_inv\<close> is the invariant of the
  clock and of the snapshots, with the set of commit ids ever allocated and the set of those
  published as ghost state; every reachable state satisfies it.
\<close>

section \<open>State and operations\<close>

record txn_manager =
  next_transaction_id :: nat
  current_timestamp :: nat
  active :: "(nat \<times> transaction) list"
  active_start_times :: "nat list"
  in_flight_commits :: "nat list"
  published_horizon :: nat

definition manager_init :: txn_manager where
  "manager_init = \<lparr>next_transaction_id = TRANSACTION_ID_START, current_timestamp = 1,
     active = [], active_start_times = [], in_flight_commits = [], published_horizon = 0\<rparr>"

definition begin_transaction :: "nat \<Rightarrow> txn_manager \<Rightarrow> transaction \<times> txn_manager" where
  "begin_transaction session m =
     (case map_of (active m) session of
        Some t \<Rightarrow> (t, m)
      | None \<Rightarrow>
         (let txn_id = next_transaction_id m;
              start = current_timestamp m;
              txn = transaction_new txn_id start session;
              txn = set_snapshot (published_horizon m) (in_flight_commits m) txn
          in (txn, m\<lparr>next_transaction_id := wrap64 (txn_id + 1),
                    current_timestamp := wrap64 (start + 1),
                    active := AList.update session txn (active m),
                    active_start_times := set_insert start (active_start_times m)\<rparr>)))"

definition commit :: "nat \<Rightarrow> txn_manager \<Rightarrow> nat \<times> txn_manager" where
  "commit session m =
     (case map_of (active m) session of
        None \<Rightarrow> (0, m)
      | Some t \<Rightarrow>
         (let commit_id = current_timestamp m;
              t = mark_committed (set_commit_id commit_id t)
          in (commit_id, m\<lparr>current_timestamp := wrap64 (commit_id + 1),
                          active_start_times := set_erase (t_start_time t) (active_start_times m),
                          active := AList.delete session (active m),
                          in_flight_commits := set_insert commit_id (in_flight_commits m)\<rparr>)))"

definition restore_commit_clock :: "nat \<Rightarrow> txn_manager \<Rightarrow> txn_manager" where
  "restore_commit_clock frontier m =
     (let m1 = (if wrap64 (frontier + 1) > current_timestamp m
                then m\<lparr>current_timestamp := wrap64 (frontier + 1)\<rparr> else m)
      in if frontier > published_horizon m1 then m1\<lparr>published_horizon := frontier\<rparr> else m1)"

text \<open>The compare-exchange loop runs under the lock: it stores the larger value.\<close>

definition publish :: "nat \<Rightarrow> txn_manager \<Rightarrow> txn_manager" where
  "publish commit_id m =
     (let m1 = m\<lparr>in_flight_commits := set_erase commit_id (in_flight_commits m)\<rparr>
      in if commit_id > published_horizon m1 then m1\<lparr>published_horizon := commit_id\<rparr> else m1)"

definition take_snapshot :: "txn_manager \<Rightarrow> nat \<times> nat list" where
  "take_snapshot m = (published_horizon m, in_flight_commits m)"

definition abort_txn :: "nat \<Rightarrow> txn_manager \<Rightarrow> txn_manager" where
  "abort_txn session m =
     (case map_of (active m) session of
        None \<Rightarrow> m
      | Some t \<Rightarrow>
         (let t = mark_aborted t
          in m\<lparr>active_start_times := set_erase (t_start_time t) (active_start_times m),
               active := AList.delete session (active m)\<rparr>))"

definition find_transaction :: "nat \<Rightarrow> txn_manager \<Rightarrow> transaction option" where
  "find_transaction session m = map_of (active m) session"

definition has_active_transaction :: "nat \<Rightarrow> txn_manager \<Rightarrow> bool" where
  "has_active_transaction session m \<longleftrightarrow> map_of (active m) session \<noteq> None"

definition lowest_active_start_time :: "txn_manager \<Rightarrow> nat" where
  "lowest_active_start_time m =
     (if active_start_times m = [] then current_timestamp m else hd (active_start_times m))"

definition has_active_transactions :: "txn_manager \<Rightarrow> bool" where
  "has_active_transactions m \<longleftrightarrow> active m \<noteq> []"

definition lowest_active_snapshot_horizon :: "txn_manager \<Rightarrow> nat" where
  "lowest_active_snapshot_horizon m =
     (if active m = [] then published_horizon m
      else foldl (\<lambda>lowest (key, txn). let h = snapshot_horizon (data txn) in
                    if h < lowest then h else lowest) UINT64_MAX (active m))"

text \<open>The body of the loop over the active transactions, and the loop.\<close>

definition compact_watermark_txn :: "nat \<Rightarrow> transaction \<Rightarrow> nat" where
  "compact_watermark_txn watermark txn =
     (let d = data txn; watermark = min watermark (snapshot_horizon d)
      in if in_flight_snapshot d \<noteq> []
         then min watermark (sub64 (hd (in_flight_snapshot d)) 1) else watermark)"

definition compact_watermark :: "txn_manager \<Rightarrow> nat" where
  "compact_watermark m =
     (let watermark = published_horizon m;
          watermark = (if in_flight_commits m \<noteq> []
                       then min watermark (sub64 (hd (in_flight_commits m)) 1) else watermark)
      in foldl (\<lambda>watermark (key, txn). compact_watermark_txn watermark txn) watermark (active m))"

text \<open>A caller that holds the pointer \<open>find_transaction\<close> returned mutates the body in place.\<close>

definition set_transaction :: "nat \<Rightarrow> transaction \<Rightarrow> txn_manager \<Rightarrow> txn_manager" where
  "set_transaction session t m = m\<lparr>active := AList.update session t (active m)\<rparr>"

section \<open>Interleavings\<close>

text \<open>
  One step of the manager, with the ghost sets of allocated (\<open>A\<close>) and published (\<open>P\<close>) commit
  ids. A commit id is published once, after \<open>commit\<close> returned it; a body mutation keeps identity
  and snapshot, which no method but the constructor and \<open>set_snapshot\<close> writes. The clock is
  assumed not to run into the transaction-id space: commit ids start at 1 and grow by one.
\<close>

definition clock_room :: "txn_manager \<Rightarrow> bool" where
  "clock_room m \<longleftrightarrow> current_timestamp m + 1 < TRANSACTION_ID_START \<and>
     next_transaction_id m + 1 < NOT_DELETED_ID"

inductive mgr_step ::
  "txn_manager \<times> nat set \<times> nat set \<Rightarrow> txn_manager \<times> nat set \<times> nat set \<Rightarrow> bool" where
  step_begin: "clock_room m \<Longrightarrow>
     mgr_step (m, A, P) (snd (begin_transaction s m), A, P)"
| step_commit: "clock_room m \<Longrightarrow> map_of (active m) s = Some t \<Longrightarrow>
     mgr_step (m, A, P) (snd (commit s m), insert (fst (commit s m)) A, P)"
| step_publish: "c \<in> set (in_flight_commits m) \<Longrightarrow>
     mgr_step (m, A, P) (publish c m, A, insert c P)"
| step_abort: "mgr_step (m, A, P) (abort_txn s m, A, P)"
| step_body: "map_of (active m) s = Some t \<Longrightarrow> data t' = data t \<Longrightarrow>
     mgr_step (m, A, P) (set_transaction s t' m, A, P)"

text \<open>At reopen every id of the durable band \<open>1..frontier\<close> counts as allocated and published.\<close>

inductive mgr_reach :: "txn_manager \<times> nat set \<times> nat set \<Rightarrow> bool" where
  reach_start: "frontier + 2 < TRANSACTION_ID_START \<Longrightarrow>
     mgr_reach (restore_commit_clock frontier manager_init, {1..frontier}, {1..frontier})"
| reach_step: "mgr_reach x \<Longrightarrow> mgr_step x y \<Longrightarrow> mgr_reach y"

section \<open>The invariant\<close>

definition snapshot_ok :: "nat set \<Rightarrow> nat set \<Rightarrow> txn_manager \<Rightarrow> transaction \<Rightarrow> bool" where
  "snapshot_ok A P m t \<longleftrightarrow>
     t_snapshot_horizon t \<le> published_horizon m \<and> sorted (t_in_flight_snapshot t) \<and>
     set (t_in_flight_snapshot t) \<subseteq> A \<and>
     (\<forall>a\<in>A. a \<le> t_snapshot_horizon t \<and> a \<notin> set (t_in_flight_snapshot t) \<longrightarrow> a \<in> P) \<and>
     TRANSACTION_ID_START \<le> t_transaction_id t \<and> t_transaction_id t < next_transaction_id m \<and>
     t_start_time t < current_timestamp m"

definition mgr_inv :: "txn_manager \<times> nat set \<times> nat set \<Rightarrow> bool" where
  "mgr_inv = (\<lambda>(m, A, P).
     P \<subseteq> A \<and> (\<forall>a\<in>A. 0 < a \<and> a < current_timestamp m) \<and>
     current_timestamp m < TRANSACTION_ID_START \<and> published_horizon m < current_timestamp m \<and>
     (\<forall>p\<in>P. p \<le> published_horizon m) \<and>
     sorted (in_flight_commits m) \<and> set (in_flight_commits m) = A - P \<and>
     TRANSACTION_ID_START \<le> next_transaction_id m \<and> next_transaction_id m < NOT_DELETED_ID \<and>
     distinct (map fst (active m)) \<and> (\<forall>(s, t)\<in>set (active m). snapshot_ok A P m t))"

lemma mgr_invD:
  assumes "mgr_inv (m, A, P)"
  shows "P \<subseteq> A" "\<And>a. a \<in> A \<Longrightarrow> 0 < a" "\<And>a. a \<in> A \<Longrightarrow> a < current_timestamp m"
    "current_timestamp m < TRANSACTION_ID_START" "published_horizon m < current_timestamp m"
    "\<And>p. p \<in> P \<Longrightarrow> p \<le> published_horizon m"
    "sorted (in_flight_commits m)" "set (in_flight_commits m) = A - P"
    "TRANSACTION_ID_START \<le> next_transaction_id m" "next_transaction_id m < NOT_DELETED_ID"
    "distinct (map fst (active m))"
    "\<And>s t. (s, t) \<in> set (active m) \<Longrightarrow> snapshot_ok A P m t"
  using assms unfolding mgr_inv_def prod.case by blast+

lemma TIDS_bounds: "n < TRANSACTION_ID_START \<Longrightarrow> n \<le> UINT64_MAX"
  "n < NOT_DELETED_ID \<Longrightarrow> n \<le> UINT64_MAX"
  by (simp_all add: TRANSACTION_ID_START_def NOT_DELETED_ID_def)

lemma restore_commit_clock_init:
  assumes "frontier + 2 < TRANSACTION_ID_START"
  shows "restore_commit_clock frontier manager_init =
    manager_init\<lparr>current_timestamp := frontier + 1, published_horizon := frontier\<rparr>"
proof -
  have "wrap64 (frontier + 1) = frontier + 1"
    using assms TIDS_bounds(1) [of "frontier + 1"] by simp
  then show ?thesis by (auto simp: restore_commit_clock_def manager_init_def)
qed

lemma mgr_inv_start:
  assumes "frontier + 2 < TRANSACTION_ID_START"
  shows "mgr_inv (restore_commit_clock frontier manager_init, {1..frontier}, {1..frontier})"
  unfolding restore_commit_clock_init [OF assms]
  using assms TRANSACTION_ID_START_less by (simp add: mgr_inv_def manager_init_def)

lemma active_updateD:
  "(s', t') \<in> set (AList.update s t xs) \<Longrightarrow> distinct (map fst xs) \<Longrightarrow>
   (s' = s \<and> t' = t) \<or> (s', t') \<in> set xs"
  by (induction xs) (auto split: if_splits)

lemma active_deleteD: "(s', t') \<in> set (AList.delete s xs) \<Longrightarrow> (s', t') \<in> set xs"
  by (auto simp: AList.delete_eq)

text \<open>A snapshot stays good when the clock advances, ids above the horizon are allocated and ids
  are published.\<close>

lemma snapshot_ok_mono:
  assumes "snapshot_ok A P m t" and "A \<subseteq> A'" and "P \<subseteq> P'"
    and "\<forall>a \<in> A' - A. published_horizon m < a"
    and "published_horizon m \<le> published_horizon m'"
    and "next_transaction_id m \<le> next_transaction_id m'"
    and "current_timestamp m \<le> current_timestamp m'"
  shows "snapshot_ok A' P' m' t"
proof -
  have "a \<in> P'" if a: "a \<in> A'" "a \<le> t_snapshot_horizon t" "a \<notin> set (t_in_flight_snapshot t)" for a
  proof (cases "a \<in> A")
    case True
    with a assms(1,3) show ?thesis by (auto simp: snapshot_ok_def)
  next
    case False
    with a(1) assms(4) have "published_horizon m < a" by simp
    moreover have "t_snapshot_horizon t \<le> published_horizon m"
      using assms(1) by (simp add: snapshot_ok_def)
    ultimately show ?thesis using a(2) by simp
  qed
  with assms show ?thesis unfolding snapshot_ok_def by (meson order_trans order_less_le_trans)
qed

lemma wrap_next:
  assumes "clock_room m"
  shows "wrap64 (next_transaction_id m + 1) = next_transaction_id m + 1"
    and "wrap64 (current_timestamp m + 1) = current_timestamp m + 1"
  using assms TIDS_bounds [of "next_transaction_id m + 1"] TIDS_bounds [of "current_timestamp m + 1"]
  by (simp_all add: clock_room_def)

text \<open>The transaction object \<open>begin_transaction\<close> creates, and the operations away from the
  wrap-around.\<close>

definition fresh_txn :: "nat \<Rightarrow> txn_manager \<Rightarrow> transaction" where
  "fresh_txn s m = set_snapshot (published_horizon m) (in_flight_commits m)
     (transaction_new (next_transaction_id m) (current_timestamp m) s)"

lemma fresh_txn_simps [simp]:
  "t_transaction_id (fresh_txn s m) = next_transaction_id m"
  "t_start_time (fresh_txn s m) = current_timestamp m"
  "t_snapshot_horizon (fresh_txn s m) = published_horizon m"
  "t_in_flight_snapshot (fresh_txn s m) = in_flight_commits m"
  by (simp_all add: fresh_txn_def set_snapshot_def transaction_new_def)

lemma begin_existing: "map_of (active m) s = Some t \<Longrightarrow> begin_transaction s m = (t, m)"
  by (simp add: begin_transaction_def)

lemma begin_fresh:
  "map_of (active m) s = None \<Longrightarrow> clock_room m \<Longrightarrow>
   begin_transaction s m = (fresh_txn s m,
     m\<lparr>next_transaction_id := next_transaction_id m + 1,
       current_timestamp := current_timestamp m + 1,
       active := AList.update s (fresh_txn s m) (active m),
       active_start_times := set_insert (current_timestamp m) (active_start_times m)\<rparr>)"
  by (simp only: begin_transaction_def wrap_next Let_def fresh_txn_def option.case)

lemma commit_active:
  "map_of (active m) s = Some t \<Longrightarrow> clock_room m \<Longrightarrow>
   commit s m = (current_timestamp m,
     m\<lparr>current_timestamp := current_timestamp m + 1,
       active_start_times := set_erase (t_start_time t) (active_start_times m),
       active := AList.delete s (active m),
       in_flight_commits := set_insert (current_timestamp m) (in_flight_commits m)\<rparr>)"
  by (simp add: commit_def wrap_next [simplified] Let_def mark_committed_def set_commit_id_def)

lemma mgr_inv_begin:
  assumes inv: "mgr_inv (m, A, P)" and room: "clock_room m"
  shows "mgr_inv (snd (begin_transaction s m), A, P)"
proof (cases "map_of (active m) s")
  case (Some t)
  with inv show ?thesis by (simp add: begin_existing)
next
  case None
  let ?m = "snd (begin_transaction s m)"
  note d = mgr_invD [OF inv] and b = begin_fresh [OF None room]
  have new: "snapshot_ok A P ?m (fresh_txn s m)"
    using d(1,5,7,8,9) unfolding b snapshot_ok_def by auto
  have old: "snapshot_ok A P ?m t'" if "(s', t') \<in> set (active m)" for s' t'
    by (rule snapshot_ok_mono [OF d(12) [OF that]]) (simp_all add: b)
  have "\<forall>(s', t') \<in> set (active ?m). snapshot_ok A P ?m t'"
    using new old active_updateD [OF _ d(11)] by (fastforce simp: b)
  moreover have "\<forall>a\<in>A. 0 < a \<and> a < current_timestamp m + 1"
    using d(2,3) less_SucI by fastforce
  ultimately show ?thesis
    using d(1,4-11) room unfolding mgr_inv_def clock_room_def b
    by (simp add: distinct_update)
qed

lemma mgr_inv_commit:
  assumes inv: "mgr_inv (m, A, P)" and room: "clock_room m" and t: "map_of (active m) s = Some t"
  shows "mgr_inv (snd (commit s m), insert (fst (commit s m)) A, P)"
proof -
  let ?m = "snd (commit s m)" and ?A = "insert (current_timestamp m) A"
  note d = mgr_invD [OF inv] and c = commit_active [OF t room]
  have notin: "current_timestamp m \<notin> A" using d(3) by blast
  then have notP: "current_timestamp m \<notin> P" using d(1) by blast
  have "snapshot_ok ?A P ?m t'" if "(s', t') \<in> set (active m)" for s' t'
    by (rule snapshot_ok_mono [OF d(12) [OF that]]) (use d(5) in \<open>auto simp: c\<close>)
  then have "\<forall>(s', t') \<in> set (active ?m). snapshot_ok ?A P ?m t'"
    using active_deleteD by (fastforce simp: c)
  moreover have "\<forall>a\<in>?A. 0 < a \<and> a < current_timestamp m + 1"
    using d(2,3,5) less_SucI by fastforce
  moreover have "insert (current_timestamp m) (A - P) = ?A - P" using notP by blast
  ultimately show ?thesis
    using d(1,4-11) room unfolding mgr_inv_def clock_room_def c
    by (simp add: distinct_delete) blast
qed

lemma mgr_inv_publish:
  assumes inv: "mgr_inv (m, A, P)" and c: "c \<in> set (in_flight_commits m)"
  shows "mgr_inv (publish c m, A, insert c P)"
proof -
  let ?m = "publish c m"
  note d = mgr_invD [OF inv]
  have cA: "c \<in> A" and lt: "c < current_timestamp m" using c d(3,8) by auto
  have f: "active ?m = active m" "next_transaction_id ?m = next_transaction_id m"
    "current_timestamp ?m = current_timestamp m"
    "in_flight_commits ?m = set_erase c (in_flight_commits m)"
    "published_horizon ?m = max (published_horizon m) c"
    by (simp_all add: publish_def Let_def)
  have "snapshot_ok A (insert c P) ?m t" if "(s, t) \<in> set (active m)" for s t
    by (rule snapshot_ok_mono [OF d(12) [OF that]]) (auto simp: f)
  then have "\<forall>(s, t) \<in> set (active m). snapshot_ok A (insert c P) ?m t" by blast
  moreover have "A - insert c P = A - P - {c}" by blast
  moreover have "\<forall>p\<in>insert c P. p \<le> max (published_horizon m) c" using d(6) by (auto simp: le_max_iff_disj)
  ultimately show ?thesis
    using d(1-11) cA lt unfolding mgr_inv_def prod.case f by simp
qed

lemma mgr_inv_abort:
  assumes inv: "mgr_inv (m, A, P)"
  shows "mgr_inv (abort_txn s m, A, P)"
proof (cases "map_of (active m) s")
  case None
  with inv show ?thesis by (simp add: abort_txn_def)
next
  case (Some t)
  note d = mgr_invD [OF inv]
  have f: "active (abort_txn s m) = AList.delete s (active m)"
    "next_transaction_id (abort_txn s m) = next_transaction_id m"
    "current_timestamp (abort_txn s m) = current_timestamp m"
    "in_flight_commits (abort_txn s m) = in_flight_commits m"
    "published_horizon (abort_txn s m) = published_horizon m"
    using Some by (simp_all add: abort_txn_def Let_def)
  have "snapshot_ok A P (abort_txn s m) t'" if "(s', t') \<in> set (active m)" for s' t'
    by (rule snapshot_ok_mono [OF d(12) [OF that]]) (auto simp: f)
  then have "\<forall>(s', t') \<in> set (AList.delete s (active m)). snapshot_ok A P (abort_txn s m) t'"
    using active_deleteD by fastforce
  with d(1-11) show ?thesis unfolding mgr_inv_def prod.case f by (simp add: distinct_delete)
qed

lemma snapshot_ok_data:
  "data t' = data t \<Longrightarrow> snapshot_ok A P m t' = snapshot_ok A P m t"
  by (simp add: snapshot_ok_def data_def)

lemma mgr_inv_body:
  assumes inv: "mgr_inv (m, A, P)" and t: "map_of (active m) s = Some t" and t': "data t' = data t"
  shows "mgr_inv (set_transaction s t' m, A, P)"
proof -
  let ?m = "set_transaction s t' m"
  note d = mgr_invD [OF inv]
  have same: "snapshot_ok A P ?m = snapshot_ok A P m"
    by (simp add: set_transaction_def snapshot_ok_def fun_eq_iff)
  have "snapshot_ok A P m t'"
    using d(12) [of s t] t by (simp add: map_of_SomeD snapshot_ok_data [OF t'])
  then have "\<forall>(s', u) \<in> set (active ?m). snapshot_ok A P ?m u"
    unfolding same using d(12) active_updateD [OF _ d(11)]
    by (fastforce simp: set_transaction_def)
  with d(1-11) show ?thesis
    unfolding mgr_inv_def by (simp add: set_transaction_def distinct_update)
qed

lemma mgr_step_inv: "mgr_step x y \<Longrightarrow> mgr_inv x \<Longrightarrow> mgr_inv y"
  by (induction rule: mgr_step.induct)
    (auto intro: mgr_inv_begin mgr_inv_commit mgr_inv_publish mgr_inv_abort mgr_inv_body)

lemma mgr_reach_inv: "mgr_reach x \<Longrightarrow> mgr_inv x"
proof (induction rule: mgr_reach.induct)
  case (reach_start frontier)
  then show ?case by (rule mgr_inv_start)
next
  case (reach_step x y)
  then show ?case by (blast intro: mgr_step_inv)
qed

section \<open>The watermark and the horizons\<close>

text \<open>
  The watermark and the drop horizon are minima computed by loops. What a value at or below them
  means is read off the loop once, in these two characterisations.
\<close>

lemma le_floor_before:
  assumes "sorted xs" and "\<forall>c\<in>set xs. 0 < c \<and> c \<le> UINT64_MAX"
  shows "x \<le> (if xs \<noteq> [] then min w (sub64 (hd xs) 1) else w) \<longleftrightarrow> x \<le> w \<and> (\<forall>c\<in>set xs. x < c)"
proof (cases xs)
  case Nil
  then show ?thesis by simp
next
  case (Cons y ys)
  then have "sub64 (hd xs) 1 = y - 1" "0 < y" using assms(2) by auto
  moreover have "(\<forall>c\<in>set xs. x < c) \<longleftrightarrow> x < y" using Cons assms(1) by auto
  ultimately show ?thesis using Cons by (simp del: One_nat_def) linarith
qed

definition below_snapshot :: "nat \<Rightarrow> transaction \<Rightarrow> bool" where
  "below_snapshot x t \<longleftrightarrow>
     x \<le> t_snapshot_horizon t \<and> (\<forall>c\<in>set (t_in_flight_snapshot t). x < c)"

definition snapshot_ids_ok :: "transaction \<Rightarrow> bool" where
  "snapshot_ids_ok t \<longleftrightarrow> sorted (t_in_flight_snapshot t) \<and>
     (\<forall>c\<in>set (t_in_flight_snapshot t). 0 < c \<and> c \<le> UINT64_MAX)"

lemma le_compact_watermark_txn:
  "snapshot_ids_ok t \<Longrightarrow> x \<le> compact_watermark_txn w t \<longleftrightarrow> x \<le> w \<and> below_snapshot x t"
  unfolding compact_watermark_txn_def Let_def data_simps
  by (subst le_floor_before) (auto simp: snapshot_ids_ok_def below_snapshot_def)

lemma le_watermark_fold:
  "\<forall>(s, t)\<in>set ts. snapshot_ids_ok t \<Longrightarrow>
   x \<le> foldl (\<lambda>watermark (key, txn). compact_watermark_txn watermark txn) w ts
     \<longleftrightarrow> x \<le> w \<and> (\<forall>(s, t)\<in>set ts. below_snapshot x t)"
  by (induction ts arbitrary: w) (auto simp: le_compact_watermark_txn)

definition below_all :: "nat \<Rightarrow> txn_manager \<Rightarrow> bool" where
  "below_all x m \<longleftrightarrow>
     x \<le> published_horizon m \<and> (\<forall>c\<in>set (in_flight_commits m). x < c) \<and>
     (\<forall>(s, t)\<in>set (active m). below_snapshot x t)"

lemma le_compact_watermark:
  assumes inv: "mgr_inv (m, A, P)"
  shows "x \<le> compact_watermark m \<longleftrightarrow> below_all x m"
proof -
  note d = mgr_invD [OF inv]
  have A: "0 < c \<and> c \<le> UINT64_MAX" if "c \<in> A" for c
    using d(2,3) [OF that] d(4) TIDS_bounds(1) [of c] by linarith
  have "\<forall>(s, t)\<in>set (active m). snapshot_ids_ok t"
    using d(12) A unfolding snapshot_ok_def snapshot_ids_ok_def by blast
  moreover have "\<forall>c\<in>set (in_flight_commits m). 0 < c \<and> c \<le> UINT64_MAX"
    using d(8) A by blast
  ultimately show ?thesis
    using d(7) unfolding compact_watermark_def below_all_def Let_def [of "published_horizon m"]
    by (simp only: Let_def [of "if _ then _ else _"] le_watermark_fold le_floor_before conj_assoc)
qed

lemma le_lowest_active_snapshot_horizon:
  assumes "active m \<noteq> []" and "x \<le> UINT64_MAX"
  shows "x \<le> lowest_active_snapshot_horizon m \<longleftrightarrow>
    (\<forall>(s, t)\<in>set (active m). x \<le> t_snapshot_horizon t)"
proof -
  have "x \<le> foldl (\<lambda>lowest (key, txn). let h = snapshot_horizon (data txn) in
                    if h < lowest then h else lowest) w ts
     \<longleftrightarrow> x \<le> w \<and> (\<forall>(s, t)\<in>set ts. x \<le> t_snapshot_horizon t)" for w and ts :: "(nat \<times> transaction) list"
    by (induction ts arbitrary: w) (auto simp: Let_def split: if_splits)
  with assms show ?thesis by (simp add: lowest_active_snapshot_horizon_def)
qed

lemma below_all_begin:
  assumes "mgr_inv (m, A, P)" and "clock_room m" and x: "below_all x m"
  shows "below_all x (snd (begin_transaction s m))"
proof (cases "map_of (active m) s")
  case None
  have "below_snapshot x (fresh_txn s m)" using x by (simp add: below_snapshot_def below_all_def)
  then show ?thesis
    using x active_updateD [OF _ mgr_invD(11) [OF assms(1)]]
    unfolding begin_fresh [OF None assms(2)] below_all_def by fastforce
next
  case (Some t)
  with x show ?thesis by (simp add: begin_existing)
qed

lemma below_all_commit:
  assumes "mgr_inv (m, A, P)" and "clock_room m" and "map_of (active m) s = Some t"
    and x: "below_all x m"
  shows "below_all x (snd (commit s m))"
  using x mgr_invD(5) [OF assms(1)] active_deleteD
  unfolding commit_active [OF assms(3,2)] below_all_def by fastforce

lemma below_all_publish: "below_all x m \<Longrightarrow> below_all x (publish c m)"
  by (auto simp: below_all_def publish_def Let_def)

lemma below_all_abort: "below_all x m \<Longrightarrow> below_all x (abort_txn s m)"
  using active_deleteD
  by (fastforce simp: below_all_def abort_txn_def Let_def split: option.splits)

lemma below_all_body:
  assumes "mgr_inv (m, A, P)" and "map_of (active m) s = Some t" and "data t' = data t"
    and x: "below_all x m"
  shows "below_all x (set_transaction s t' m)"
proof -
  have "below_snapshot x t"
    using x map_of_SomeD [OF assms(2)] by (auto simp: below_all_def)
  then have "below_snapshot x t'"
    using assms(3) by (simp add: below_snapshot_def data_def)
  with x show ?thesis
    using active_updateD [OF _ mgr_invD(11) [OF assms(1)]]
    unfolding below_all_def set_transaction_def by fastforce
qed

lemma below_all_step: "mgr_step x y \<Longrightarrow> mgr_inv x \<Longrightarrow> below_all w (fst x) \<Longrightarrow> below_all w (fst y)"
  by (induction rule: mgr_step.induct)
    (auto intro: below_all_begin below_all_commit below_all_publish below_all_abort below_all_body)

end
