(* ===== verification/Row_Versions.thy ===== *)
theory Row_Versions
  imports Txn_State
begin

text \<open>
  Row versions: \<open>components/table/row_version_manager.hpp\<close> and \<open>.cpp\<close>.

  A row group keeps, per vector of \<open>DEFAULT_VECTOR_CAPACITY\<close> rows, either no version information
  (every row is visible to everyone), one pair of stamps for the whole vector
  (\<open>chunk_constant_info\<close>) or a pair of stamps per row (\<open>chunk_vector_info\<close>). A stamp is a commit
  id, a transaction id (at or above \<open>TRANSACTION_ID_START\<close>) while the write is pending, or
  \<open>NOT_DELETED_ID\<close>. A write is visible to a snapshot by \<open>use_inserted_version\<close>.

  Operations that end in \<open>std::abort\<close> or dereference a null chunk return \<open>None\<close>.
\<close>

section \<open>Visibility of a stamp\<close>

definition use_inserted_version :: "transaction_data \<Rightarrow> nat \<Rightarrow> bool" where
  "use_inserted_version txn i =
     (if transaction_id txn \<noteq> 0 \<and> i = transaction_id txn then True
      else if i \<ge> TRANSACTION_ID_START then False
      else if i > snapshot_horizon txn then False
      else if binary_search (in_flight_snapshot txn) i then False
      else True)"

definition use_deleted_version :: "transaction_data \<Rightarrow> nat \<Rightarrow> bool" where
  "use_deleted_version txn i = (\<not> use_inserted_version txn i)"

definition use_version :: "transaction_data \<Rightarrow> nat \<Rightarrow> bool" where
  "use_version txn i = use_inserted_version txn i"

section \<open>Chunks\<close>

definition DEFAULT_VECTOR_CAPACITY :: nat where
  "DEFAULT_VECTOR_CAPACITY = 1024"

record chunk_constant_info =
  cc_start :: int
  cc_insert_id :: nat
  cc_delete_id :: nat

record chunk_vector_info =
  cv_start :: int
  inserted :: "nat list"
  cv_insert_id :: nat
  same_inserted_id :: bool
  deleted :: "nat list"
  any_deleted :: bool

datatype chunk_info = CONSTANT_INFO chunk_constant_info | VECTOR_INFO chunk_vector_info

text \<open>The indexing vector is the caller's buffer of row offsets; \<open>set_index\<close> writes one slot.\<close>

definition set_index :: "nat \<Rightarrow> nat \<Rightarrow> nat list \<Rightarrow> nat list" where
  "set_index index location iv = iv[index := location]"

subsection \<open>A constant chunk\<close>

definition chunk_constant_info_new :: "int \<Rightarrow> chunk_constant_info" where
  "chunk_constant_info_new start =
     \<lparr>cc_start = start, cc_insert_id = 0, cc_delete_id = NOT_DELETED_ID\<rparr>"

definition cc_indexing_vector ::
  "transaction_data \<Rightarrow> chunk_constant_info \<Rightarrow> nat list \<Rightarrow> nat \<Rightarrow> nat \<times> nat list" where
  "cc_indexing_vector txn c iv max_count =
     (if use_inserted_version txn (cc_insert_id c) \<and> use_deleted_version txn (cc_delete_id c)
      then (max_count, iv) else (0, iv))"

definition cc_fetch :: "transaction_data \<Rightarrow> chunk_constant_info \<Rightarrow> nat \<Rightarrow> bool" where
  "cc_fetch txn c row = (use_version txn (cc_insert_id c) \<and> \<not> use_version txn (cc_delete_id c))"

definition cc_commit_append ::
  "nat \<Rightarrow> nat \<Rightarrow> nat \<Rightarrow> chunk_constant_info \<Rightarrow> chunk_constant_info option" where
  "cc_commit_append commit_id start end c =
     (if start \<noteq> 0 \<or> end \<noteq> DEFAULT_VECTOR_CAPACITY then None
      else Some (c\<lparr>cc_insert_id := commit_id\<rparr>))"

definition cc_has_deletes :: "chunk_constant_info \<Rightarrow> bool" where
  "cc_has_deletes c \<longleftrightarrow>
     cc_insert_id c \<ge> TRANSACTION_ID_START \<or> cc_delete_id c < TRANSACTION_ID_START"

definition cc_committed_deleted_count :: "chunk_constant_info \<Rightarrow> nat \<Rightarrow> nat" where
  "cc_committed_deleted_count c max_count =
     (if cc_delete_id c < TRANSACTION_ID_START then max_count else 0)"

definition cc_has_version_above :: "nat \<Rightarrow> chunk_constant_info \<Rightarrow> bool" where
  "cc_has_version_above watermark c =
     (if cc_insert_id c > watermark then True
      else cc_delete_id c \<noteq> NOT_DELETED_ID \<and> cc_delete_id c > watermark)"

definition cc_cleanup :: "nat \<Rightarrow> chunk_constant_info \<Rightarrow> bool \<times> chunk_info option" where
  "cc_cleanup lowest c =
     (if cc_insert_id c > lowest then (False, None)
      else if cc_delete_id c \<noteq> NOT_DELETED_ID \<and> cc_delete_id c > lowest then (False, None)
      else (True, None))"

subsection \<open>A vector chunk\<close>

definition chunk_vector_info_new :: "int \<Rightarrow> chunk_vector_info" where
  "chunk_vector_info_new start =
     \<lparr>cv_start = start, inserted = replicate DEFAULT_VECTOR_CAPACITY 0, cv_insert_id = 0,
      same_inserted_id = True,
      deleted = replicate DEFAULT_VECTOR_CAPACITY NOT_DELETED_ID, any_deleted = False\<rparr>"

text \<open>The selection loop: each row that passes the test is written to the next free slot.\<close>

definition select_rows :: "(nat \<Rightarrow> bool) \<Rightarrow> nat \<Rightarrow> nat list \<Rightarrow> nat \<times> nat list" where
  "select_rows test max_count iv =
     foldl (\<lambda>(count, iv) i. if test i then (count + 1, set_index count i iv) else (count, iv))
       (0, iv) [0..<max_count]"

definition cv_indexing_vector ::
  "transaction_data \<Rightarrow> chunk_vector_info \<Rightarrow> nat list \<Rightarrow> nat \<Rightarrow> nat \<times> nat list" where
  "cv_indexing_vector txn c iv max_count =
     (if same_inserted_id c \<and> \<not> any_deleted c then
        (if use_inserted_version txn (cv_insert_id c) then (max_count, iv) else (0, iv))
      else if same_inserted_id c then
        (if \<not> use_inserted_version txn (cv_insert_id c) then (0, iv)
         else select_rows (\<lambda>i. use_deleted_version txn (deleted c ! i)) max_count iv)
      else if \<not> any_deleted c then
        select_rows (\<lambda>i. use_inserted_version txn (inserted c ! i)) max_count iv
      else
        select_rows (\<lambda>i. use_inserted_version txn (inserted c ! i) \<and>
                         use_deleted_version txn (deleted c ! i)) max_count iv)"

definition cv_fetch :: "transaction_data \<Rightarrow> chunk_vector_info \<Rightarrow> nat \<Rightarrow> bool" where
  "cv_fetch txn c row =
     (use_version txn (inserted c ! row) \<and> \<not> use_version txn (deleted c ! row))"

text \<open>The deletion loop compacts the array of row offsets in place: an already deleted row is
  skipped, a deleted one moves to the next slot of the front part. Reading past the row array, or an
  offset outside the \<open>deleted\<close> array, is undefined in the source and \<open>None\<close> here.\<close>

function cv_delete_loop ::
  "nat \<Rightarrow> nat \<Rightarrow> nat \<Rightarrow> nat \<Rightarrow> nat list \<Rightarrow> nat list \<Rightarrow>
   (nat \<times> nat list \<times> nat list) option" where
  "cv_delete_loop txn_id i count deleted_tuples rows dels =
     (if i < count then
        (if \<not> (i < length rows \<and> rows ! i < length dels) then None
         else if dels ! (rows ! i) \<noteq> NOT_DELETED_ID
         then cv_delete_loop txn_id (i + 1) count deleted_tuples rows dels
         else cv_delete_loop txn_id (i + 1) count (deleted_tuples + 1)
                (rows[deleted_tuples := rows ! i]) (dels[rows ! i := txn_id]))
      else Some (deleted_tuples, rows, dels))"
  by pat_completeness auto
termination
  by (relation "measure (\<lambda>(txn_id, i, count, deleted_tuples, rows, dels). count - i)") auto

declare cv_delete_loop.simps [simp del]

definition cv_delete_rows ::
  "nat \<Rightarrow> nat list \<Rightarrow> nat \<Rightarrow> chunk_vector_info \<Rightarrow> (nat \<times> nat list \<times> chunk_vector_info) option" where
  "cv_delete_rows txn_id rows count c =
     map_option (\<lambda>(n, rows', dels). (n, rows', c\<lparr>any_deleted := True, deleted := dels\<rparr>))
       (cv_delete_loop txn_id 0 count 0 rows (deleted c))"

record delete_info =
  di_vector_idx :: nat
  di_count :: nat
  di_base_row :: nat
  di_is_consecutive :: bool
  di_rows :: "nat list"

text \<open>The offsets a \<open>delete_info\<close> names; \<open>None\<close> when one lies outside the \<open>deleted\<close> array or the row
  array is shorter than the count, where the source's store is undefined.\<close>

definition cv_commit_delete :: "nat \<Rightarrow> delete_info \<Rightarrow> chunk_vector_info \<Rightarrow> chunk_vector_info option" where
  "cv_commit_delete commit_id info c =
     (if di_is_consecutive info then
        (if di_count info \<le> length (deleted c)
         then Some (c\<lparr>deleted := foldl (\<lambda>d i. d[i := commit_id]) (deleted c) [0..<di_count info]\<rparr>)
         else None)
      else
        (if di_count info \<le> length (di_rows info) \<and>
            (\<forall>x \<in> set (take (di_count info) (di_rows info)). x < length (deleted c))
         then Some (c\<lparr>deleted := foldl (\<lambda>d i. d[di_rows info ! i := commit_id]) (deleted c)
                              [0..<di_count info]\<rparr>)
         else None))"

definition cv_commit_all_deletes :: "nat \<Rightarrow> nat \<Rightarrow> chunk_vector_info \<Rightarrow> chunk_vector_info" where
  "cv_commit_all_deletes txn_id commit_id c =
     (if \<not> any_deleted c then c
      else c\<lparr>deleted := map (\<lambda>d. if d = txn_id then commit_id else d) (deleted c)\<rparr>)"

definition cv_revert_all_deletes :: "nat \<Rightarrow> chunk_vector_info \<Rightarrow> chunk_vector_info" where
  "cv_revert_all_deletes txn_id c =
     (if \<not> any_deleted c then c
      else c\<lparr>deleted := map (\<lambda>d. if d = txn_id then NOT_DELETED_ID else d) (deleted c)\<rparr>)"

text \<open>\<open>for (i = start; i < end; i++) a[i] = v\<close>\<close>

definition fill_range :: "nat \<Rightarrow> nat \<Rightarrow> 'a \<Rightarrow> 'a list \<Rightarrow> 'a list" where
  "fill_range start end v a = foldl (\<lambda>a i. a[i := v]) a [start..<end]"

definition cv_append :: "nat \<Rightarrow> nat \<Rightarrow> nat \<Rightarrow> chunk_vector_info \<Rightarrow> chunk_vector_info" where
  "cv_append start end commit_id c =
     (let c1 = (if start = 0 then c\<lparr>cv_insert_id := commit_id\<rparr>
                else if cv_insert_id c \<noteq> commit_id
                then c\<lparr>same_inserted_id := False, cv_insert_id := NOT_DELETED_ID\<rparr>
                else c)
      in c1\<lparr>inserted := fill_range start end commit_id (inserted c1)\<rparr>)"

definition cv_commit_append :: "nat \<Rightarrow> nat \<Rightarrow> nat \<Rightarrow> chunk_vector_info \<Rightarrow> chunk_vector_info" where
  "cv_commit_append commit_id start end c =
     (let c1 = (if same_inserted_id c then c\<lparr>cv_insert_id := commit_id\<rparr> else c)
      in c1\<lparr>inserted := fill_range start end commit_id (inserted c1)\<rparr>)"

text \<open>The scan of the delete stamps in \<open>cleanup\<close>: \<open>None\<close> when it breaks at a delete that is
  uncommitted or too recent, else whether every row is deleted and the least delete id.\<close>

fun cv_cleanup_deletes :: "nat \<Rightarrow> nat list \<Rightarrow> bool \<Rightarrow> nat \<Rightarrow> (bool \<times> nat) option" where
  "cv_cleanup_deletes lowest [] all_deleted min_delete_id = Some (all_deleted, min_delete_id)"
| "cv_cleanup_deletes lowest (d # ds) all_deleted min_delete_id =
     (if d = NOT_DELETED_ID then cv_cleanup_deletes lowest ds False min_delete_id
      else if d \<ge> TRANSACTION_ID_START \<or> d > lowest then None
      else cv_cleanup_deletes lowest ds all_deleted
             (if d < min_delete_id then d else min_delete_id))"

definition cv_cleanup :: "nat \<Rightarrow> chunk_vector_info \<Rightarrow> bool \<times> chunk_info option" where
  "cv_cleanup lowest c =
     (if \<not> same_inserted_id c \<and> (\<exists>i \<in> set (inserted c). i > lowest) then (False, None)
      else if same_inserted_id c \<and> cv_insert_id c > lowest then (False, None)
      else if any_deleted c then
        (case cv_cleanup_deletes lowest (deleted c) True NOT_DELETED_ID of
           None \<Rightarrow> (False, None)
         | Some (all_deleted, min_delete_id) \<Rightarrow>
             (True, if all_deleted
                    then Some (CONSTANT_INFO
                      ((chunk_constant_info_new (cv_start c))
                         \<lparr>cc_insert_id := (if same_inserted_id c then cv_insert_id c
                                          else inserted c ! 0),
                          cc_delete_id := min_delete_id\<rparr>))
                    else None))
      else (True, None))"

definition cv_has_version_above :: "nat \<Rightarrow> nat \<Rightarrow> chunk_vector_info \<Rightarrow> bool" where
  "cv_has_version_above watermark max_count c =
     ((if same_inserted_id c then cv_insert_id c > watermark
       else \<exists>i \<in> set [0..<max_count]. inserted c ! i > watermark) \<or>
      any_deleted c \<and>
        (\<exists>i \<in> set [0..<max_count]. deleted c ! i \<noteq> NOT_DELETED_ID \<and> deleted c ! i > watermark))"

definition cv_committed_deleted_count :: "chunk_vector_info \<Rightarrow> nat \<Rightarrow> nat" where
  "cv_committed_deleted_count c max_count =
     (if \<not> any_deleted c then 0
      else length (filter (\<lambda>i. deleted c ! i < TRANSACTION_ID_START) [0..<max_count]))"

subsection \<open>The virtual methods\<close>

fun ci_indexing_vector ::
  "transaction_data \<Rightarrow> chunk_info \<Rightarrow> nat list \<Rightarrow> nat \<Rightarrow> nat \<times> nat list" where
  "ci_indexing_vector txn (CONSTANT_INFO c) iv n = cc_indexing_vector txn c iv n"
| "ci_indexing_vector txn (VECTOR_INFO c) iv n = cv_indexing_vector txn c iv n"

fun ci_fetch :: "transaction_data \<Rightarrow> chunk_info \<Rightarrow> nat \<Rightarrow> bool" where
  "ci_fetch txn (CONSTANT_INFO c) row = cc_fetch txn c row"
| "ci_fetch txn (VECTOR_INFO c) row = cv_fetch txn c row"

fun ci_commit_append :: "nat \<Rightarrow> nat \<Rightarrow> nat \<Rightarrow> chunk_info \<Rightarrow> chunk_info option" where
  "ci_commit_append commit_id start end (CONSTANT_INFO c) =
     map_option CONSTANT_INFO (cc_commit_append commit_id start end c)"
| "ci_commit_append commit_id start end (VECTOR_INFO c) =
     Some (VECTOR_INFO (cv_commit_append commit_id start end c))"

fun ci_committed_deleted_count :: "chunk_info \<Rightarrow> nat \<Rightarrow> nat" where
  "ci_committed_deleted_count (CONSTANT_INFO c) n = cc_committed_deleted_count c n"
| "ci_committed_deleted_count (VECTOR_INFO c) n = cv_committed_deleted_count c n"

fun ci_has_version_above :: "nat \<Rightarrow> nat \<Rightarrow> chunk_info \<Rightarrow> bool" where
  "ci_has_version_above watermark n (CONSTANT_INFO c) = cc_has_version_above watermark c"
| "ci_has_version_above watermark n (VECTOR_INFO c) = cv_has_version_above watermark n c"

fun ci_cleanup :: "nat \<Rightarrow> chunk_info \<Rightarrow> bool \<times> chunk_info option" where
  "ci_cleanup lowest (CONSTANT_INFO c) = cc_cleanup lowest c"
| "ci_cleanup lowest (VECTOR_INFO c) = cv_cleanup lowest c"

fun ci_set_start :: "int \<Rightarrow> chunk_info \<Rightarrow> chunk_info" where
  "ci_set_start s (CONSTANT_INFO c) = CONSTANT_INFO (c\<lparr>cc_start := s\<rparr>)"
| "ci_set_start s (VECTOR_INFO c) = VECTOR_INFO (c\<lparr>cv_start := s\<rparr>)"

section \<open>The version manager of a row group\<close>

record row_version_manager =
  rv_start :: int
  vector_info :: "chunk_info option list"
  has_changes :: bool

definition rvm_new :: "int \<Rightarrow> row_version_manager" where
  "rvm_new start = \<lparr>rv_start = start, vector_info = [], has_changes = False\<rparr>"

fun set_starts :: "int \<Rightarrow> chunk_info option list \<Rightarrow> chunk_info option list" where
  "set_starts s [] = []"
| "set_starts s (info # infos) =
     map_option (ci_set_start s) info # set_starts (s + int DEFAULT_VECTOR_CAPACITY) infos"

definition rvm_set_start :: "int \<Rightarrow> row_version_manager \<Rightarrow> row_version_manager" where
  "rvm_set_start new_start r =
     r\<lparr>rv_start := new_start, vector_info := set_starts new_start (vector_info r)\<rparr>"

definition get_chunk_info :: "nat \<Rightarrow> row_version_manager \<Rightarrow> chunk_info option" where
  "get_chunk_info vector_idx r =
     (if vector_idx \<ge> length (vector_info r) then None else vector_info r ! vector_idx)"

text \<open>The vectors of \<open>for (r = 0, i = 0; r < count; r += DEFAULT_VECTOR_CAPACITY, i++)\<close>.\<close>

definition vectors_of :: "nat \<Rightarrow> nat list" where
  "vectors_of count = [0..<(count + DEFAULT_VECTOR_CAPACITY - 1) div DEFAULT_VECTOR_CAPACITY]"

definition rvm_committed_deleted_count :: "nat \<Rightarrow> row_version_manager \<Rightarrow> nat" where
  "rvm_committed_deleted_count count r =
     sum_list (map (\<lambda>i. case get_chunk_info i r of None \<Rightarrow> 0
        | Some ci \<Rightarrow> ci_committed_deleted_count ci
                      (min DEFAULT_VECTOR_CAPACITY (count - i * DEFAULT_VECTOR_CAPACITY)))
        (vectors_of count))"

definition rvm_has_version_above :: "nat \<Rightarrow> nat \<Rightarrow> row_version_manager \<Rightarrow> bool" where
  "rvm_has_version_above watermark count r =
     (\<exists>i \<in> set (vectors_of count). case get_chunk_info i r of None \<Rightarrow> False
        | Some ci \<Rightarrow> ci_has_version_above watermark
                      (min DEFAULT_VECTOR_CAPACITY (count - i * DEFAULT_VECTOR_CAPACITY)) ci)"

definition rvm_indexing_vector ::
  "transaction_data \<Rightarrow> nat \<Rightarrow> nat list \<Rightarrow> nat \<Rightarrow> row_version_manager \<Rightarrow> nat \<times> nat list" where
  "rvm_indexing_vector txn vector_idx iv max_count r =
     (case get_chunk_info vector_idx r of
        None \<Rightarrow> (max_count, iv)
      | Some ci \<Rightarrow> ci_indexing_vector txn ci iv max_count)"

definition rvm_fetch :: "transaction_data \<Rightarrow> nat \<Rightarrow> row_version_manager \<Rightarrow> bool" where
  "rvm_fetch txn row r =
     (let vector_index = row div DEFAULT_VECTOR_CAPACITY in
      case get_chunk_info vector_index r of
        None \<Rightarrow> True
      | Some ci \<Rightarrow> ci_fetch txn ci (row - vector_index * DEFAULT_VECTOR_CAPACITY))"

definition fill_vector_info :: "nat \<Rightarrow> row_version_manager \<Rightarrow> row_version_manager" where
  "fill_vector_info vector_idx r =
     (if vector_idx < length (vector_info r) then r
      else r\<lparr>vector_info := vector_info r @
              replicate (vector_idx + 1 - length (vector_info r)) None\<rparr>)"

definition chunk_start :: "nat \<Rightarrow> row_version_manager \<Rightarrow> int" where
  "chunk_start vector_idx r = rv_start r + int (vector_idx * DEFAULT_VECTOR_CAPACITY)"

text \<open>The part of vector \<open>vector_idx\<close> that the rows \<open>[row_start, row_end)\<close> cover.\<close>

definition part_start :: "nat \<Rightarrow> nat \<Rightarrow> nat" where
  "part_start row_start vector_idx =
     (if vector_idx = row_start div DEFAULT_VECTOR_CAPACITY
      then row_start - (row_start div DEFAULT_VECTOR_CAPACITY) * DEFAULT_VECTOR_CAPACITY else 0)"

definition part_end :: "nat \<Rightarrow> nat \<Rightarrow> nat" where
  "part_end row_end vector_idx =
     (let end_idx = sub64 row_end 1 div DEFAULT_VECTOR_CAPACITY in
      if vector_idx = end_idx then sub64 row_end (end_idx * DEFAULT_VECTOR_CAPACITY)
      else DEFAULT_VECTOR_CAPACITY)"

text \<open>Writing one slot of \<open>vector_info_\<close>; an index past the end or an abort of the update is \<open>None\<close>.\<close>

definition update_slot ::
  "nat \<Rightarrow> (chunk_info option \<Rightarrow> chunk_info option option) \<Rightarrow> row_version_manager \<Rightarrow>
   row_version_manager option" where
  "update_slot i f r =
     (if i < length (vector_info r)
      then map_option (\<lambda>ci. r\<lparr>vector_info := (vector_info r)[i := ci]\<rparr>) (f (vector_info r ! i))
      else None)"

definition append_chunk ::
  "int \<Rightarrow> nat \<Rightarrow> nat \<Rightarrow> nat \<Rightarrow> chunk_info option \<Rightarrow> chunk_info option option" where
  "append_chunk start txn_id vector_start vector_end info =
     (if vector_start = 0 \<and> vector_end = DEFAULT_VECTOR_CAPACITY then
        Some (Some (CONSTANT_INFO ((chunk_constant_info_new start)
                \<lparr>cc_insert_id := txn_id, cc_delete_id := NOT_DELETED_ID\<rparr>)))
      else case info of
        None \<Rightarrow> Some (Some (VECTOR_INFO
                  (cv_append vector_start vector_end txn_id (chunk_vector_info_new start))))
      | Some (VECTOR_INFO c) \<Rightarrow> Some (Some (VECTOR_INFO (cv_append vector_start vector_end txn_id c)))
      | Some (CONSTANT_INFO c) \<Rightarrow> None)"

definition append_version_info_at ::
  "transaction_data \<Rightarrow> nat \<Rightarrow> nat \<Rightarrow> nat \<Rightarrow> row_version_manager \<Rightarrow> row_version_manager option" where
  "append_version_info_at txn row_start row_end vector_idx r =
     update_slot vector_idx
       (append_chunk (chunk_start vector_idx r) (transaction_id txn)
          (part_start row_start vector_idx) (part_end row_end vector_idx)) r"

text \<open>A loop over the vectors of a row range, stopping at the first failure.\<close>

fun for_vectors :: "(nat \<Rightarrow> 'a \<Rightarrow> 'a option) \<Rightarrow> nat list \<Rightarrow> 'a \<Rightarrow> 'a option" where
  "for_vectors f [] r = Some r"
| "for_vectors f (i # is) r = (case f i r of None \<Rightarrow> None | Some r' \<Rightarrow> for_vectors f is r')"

definition range_vectors :: "nat \<Rightarrow> nat \<Rightarrow> nat list" where
  "range_vectors row_start row_end =
     [row_start div DEFAULT_VECTOR_CAPACITY ..< sub64 row_end 1 div DEFAULT_VECTOR_CAPACITY + 1]"

definition append_version_info ::
  "transaction_data \<Rightarrow> nat \<Rightarrow> nat \<Rightarrow> row_version_manager \<Rightarrow> row_version_manager option" where
  "append_version_info txn row_start row_end r =
     (let r1 = fill_vector_info (sub64 row_end 1 div DEFAULT_VECTOR_CAPACITY) (r\<lparr>has_changes := True\<rparr>)
      in for_vectors (append_version_info_at txn row_start row_end)
           (range_vectors row_start row_end) r1)"

definition commit_chunk :: "nat \<Rightarrow> nat \<Rightarrow> nat \<Rightarrow> chunk_info option \<Rightarrow> chunk_info option option" where
  "commit_chunk commit_id vstart vend info =
     (case info of None \<Rightarrow> None
      | Some ci \<Rightarrow> map_option Some (ci_commit_append commit_id vstart vend ci))"

definition commit_append_at ::
  "nat \<Rightarrow> nat \<Rightarrow> nat \<Rightarrow> nat \<Rightarrow> row_version_manager \<Rightarrow> row_version_manager option" where
  "commit_append_at commit_id row_start row_end vector_idx r =
     update_slot vector_idx
       (commit_chunk commit_id (part_start row_start vector_idx) (part_end row_end vector_idx)) r"

definition rvm_commit_append ::
  "nat \<Rightarrow> nat \<Rightarrow> nat \<Rightarrow> row_version_manager \<Rightarrow> row_version_manager option" where
  "rvm_commit_append commit_id row_start count r =
     (if count = 0 then Some r
      else let row_end = wrap64 (row_start + count)
           in for_vectors (commit_append_at commit_id row_start row_end)
                (range_vectors row_start row_end) r)"

definition cleanup_append_at :: "nat \<Rightarrow> nat \<Rightarrow> nat \<Rightarrow> row_version_manager \<Rightarrow> row_version_manager" where
  "cleanup_append_at lowest row_end vector_idx r =
     (if part_end row_end vector_idx \<noteq> DEFAULT_VECTOR_CAPACITY then r
      else case get_chunk_info vector_idx r of
        None \<Rightarrow> r
      | Some ci \<Rightarrow>
         (let (cleanup, new_info) = ci_cleanup lowest ci
          in if cleanup then r\<lparr>vector_info := (vector_info r)[vector_idx := new_info]\<rparr> else r))"

definition cleanup_append :: "nat \<Rightarrow> nat \<Rightarrow> nat \<Rightarrow> row_version_manager \<Rightarrow> row_version_manager" where
  "cleanup_append lowest row_start count r =
     (if count = 0 then r
      else let row_end = wrap64 (row_start + count)
           in fold (cleanup_append_at lowest row_end) (range_vectors row_start row_end) r)"

definition rvm_revert_append :: "nat \<Rightarrow> row_version_manager \<Rightarrow> row_version_manager" where
  "rvm_revert_append start_row r =
     (let start_idx = wrap64 (start_row + (DEFAULT_VECTOR_CAPACITY - 1)) div DEFAULT_VECTOR_CAPACITY
      in r\<lparr>vector_info := take start_idx (vector_info r) @
             map (\<lambda>_. None) (drop start_idx (vector_info r))\<rparr>)"

text \<open>\<open>vector_info(idx)\<close>: the vector chunk of an index, created or expanded from a constant one.\<close>

definition as_vector_info :: "nat \<Rightarrow> row_version_manager \<Rightarrow> chunk_vector_info \<times> row_version_manager" where
  "as_vector_info vector_idx r0 =
     (let r = fill_vector_info vector_idx r0;
          c = (case vector_info r ! vector_idx of
                 None \<Rightarrow> chunk_vector_info_new (chunk_start vector_idx r)
               | Some (CONSTANT_INFO k) \<Rightarrow>
                   (chunk_vector_info_new (chunk_start vector_idx r))
                     \<lparr>cv_insert_id := cc_insert_id k,
                      inserted := replicate DEFAULT_VECTOR_CAPACITY (cc_insert_id k)\<rparr>
               | Some (VECTOR_INFO v) \<Rightarrow> v)
      in (c, r\<lparr>vector_info := (vector_info r)[vector_idx := Some (VECTOR_INFO c)]\<rparr>))"

definition rvm_delete_rows ::
  "nat \<Rightarrow> nat \<Rightarrow> nat list \<Rightarrow> nat \<Rightarrow> row_version_manager \<Rightarrow>
   (nat \<times> nat list \<times> row_version_manager) option" where
  "rvm_delete_rows vector_idx txn_id rows count r =
     (let (c, r1) = as_vector_info vector_idx (r\<lparr>has_changes := True\<rparr>)
      in map_option (\<lambda>(n, rows', c').
           (n, rows', r1\<lparr>vector_info := (vector_info r1)[vector_idx := Some (VECTOR_INFO c')]\<rparr>))
         (cv_delete_rows txn_id rows count c))"

definition rvm_commit_delete ::
  "nat \<Rightarrow> nat \<Rightarrow> delete_info \<Rightarrow> row_version_manager \<Rightarrow> row_version_manager option" where
  "rvm_commit_delete vector_idx commit_id info r =
     (let (c, r1) = as_vector_info vector_idx (r\<lparr>has_changes := True\<rparr>)
      in map_option (\<lambda>c'. r1\<lparr>vector_info := (vector_info r1)[vector_idx := Some (VECTOR_INFO c')]\<rparr>)
           (cv_commit_delete commit_id info c))"

fun on_vector_info :: "(chunk_vector_info \<Rightarrow> chunk_vector_info) \<Rightarrow> chunk_info \<Rightarrow> chunk_info" where
  "on_vector_info f (VECTOR_INFO c) = VECTOR_INFO (f c)"
| "on_vector_info f (CONSTANT_INFO c) = CONSTANT_INFO c"

definition rvm_commit_all_deletes :: "nat \<Rightarrow> nat \<Rightarrow> row_version_manager \<Rightarrow> row_version_manager" where
  "rvm_commit_all_deletes txn_id commit_id r =
     r\<lparr>vector_info := map (map_option (on_vector_info (cv_commit_all_deletes txn_id commit_id)))
                        (vector_info r)\<rparr>"

definition rvm_revert_all_deletes :: "nat \<Rightarrow> row_version_manager \<Rightarrow> row_version_manager" where
  "rvm_revert_all_deletes txn_id r =
     r\<lparr>vector_info := map (map_option (on_vector_info (cv_revert_all_deletes txn_id)))
                        (vector_info r)\<rparr>"

section \<open>Stamps: the abstract contents of the version store\<close>

fun ci_ins :: "chunk_info option \<Rightarrow> nat \<Rightarrow> nat" where
  "ci_ins None i = 0"
| "ci_ins (Some (CONSTANT_INFO c)) i = cc_insert_id c"
| "ci_ins (Some (VECTOR_INFO c)) i = inserted c ! i"

fun ci_del :: "chunk_info option \<Rightarrow> nat \<Rightarrow> nat" where
  "ci_del None i = NOT_DELETED_ID"
| "ci_del (Some (CONSTANT_INFO c)) i = cc_delete_id c"
| "ci_del (Some (VECTOR_INFO c)) i = deleted c ! i"

definition ins_of :: "row_version_manager \<Rightarrow> nat \<Rightarrow> nat" where
  "ins_of r row = ci_ins (get_chunk_info (row div DEFAULT_VECTOR_CAPACITY) r)
                    (row mod DEFAULT_VECTOR_CAPACITY)"

definition del_of :: "row_version_manager \<Rightarrow> nat \<Rightarrow> nat" where
  "del_of r row = ci_del (get_chunk_info (row div DEFAULT_VECTOR_CAPACITY) r)
                    (row mod DEFAULT_VECTOR_CAPACITY)"

text \<open>A row with stamps \<open>i\<close> and \<open>d\<close> is seen by a snapshot when the insert is and the delete is not.\<close>

definition sees :: "transaction_data \<Rightarrow> nat \<Rightarrow> nat \<Rightarrow> bool" where
  "sees txn i d \<longleftrightarrow> use_inserted_version txn i \<and> \<not> use_inserted_version txn d"

text \<open>What every snapshot of the transaction manager satisfies.\<close>

definition snapshot_wf :: "transaction_data \<Rightarrow> bool" where
  "snapshot_wf txn \<longleftrightarrow> sorted (in_flight_snapshot txn) \<and> 0 \<notin> set (in_flight_snapshot txn) \<and>
     transaction_id txn \<noteq> NOT_DELETED_ID"

section \<open>The invariant\<close>

text \<open>\<open>n\<close> is the number of live rows of the vector.\<close>

definition cv_wf :: "nat \<Rightarrow> chunk_vector_info \<Rightarrow> bool" where
  "cv_wf n c \<longleftrightarrow>
     length (inserted c) = DEFAULT_VECTOR_CAPACITY \<and> length (deleted c) = DEFAULT_VECTOR_CAPACITY \<and>
     (same_inserted_id c \<longrightarrow> (\<forall>i<n. inserted c ! i = cv_insert_id c)) \<and>
     (\<not> any_deleted c \<longrightarrow> (\<forall>i<DEFAULT_VECTOR_CAPACITY. deleted c ! i = NOT_DELETED_ID)) \<and>
     (\<forall>i<DEFAULT_VECTOR_CAPACITY. n \<le> i \<longrightarrow> deleted c ! i = NOT_DELETED_ID)"

fun ci_wf :: "nat \<Rightarrow> chunk_info option \<Rightarrow> bool" where
  "ci_wf n None \<longleftrightarrow> True"
| "ci_wf n (Some (CONSTANT_INFO c)) \<longleftrightarrow> n = DEFAULT_VECTOR_CAPACITY"
| "ci_wf n (Some (VECTOR_INFO c)) \<longleftrightarrow> cv_wf n c"

definition live_rows :: "nat \<Rightarrow> nat \<Rightarrow> nat" where
  "live_rows count i = min DEFAULT_VECTOR_CAPACITY (count - i * DEFAULT_VECTOR_CAPACITY)"

definition rvm_wf :: "nat \<Rightarrow> row_version_manager \<Rightarrow> bool" where
  "rvm_wf count r \<longleftrightarrow> (\<forall>i. ci_wf (live_rows count i) (get_chunk_info i r))"

section \<open>Arithmetic of vectors\<close>

lemma CAP_pos [simp]: "0 < DEFAULT_VECTOR_CAPACITY"
  by (simp add: DEFAULT_VECTOR_CAPACITY_def)

lemma CAP_Suc0 [simp]: "Suc 0 \<le> DEFAULT_VECTOR_CAPACITY"
  by (simp add: DEFAULT_VECTOR_CAPACITY_def)

lemma mod_CAP_less [simp]: "row mod DEFAULT_VECTOR_CAPACITY < DEFAULT_VECTOR_CAPACITY"
  by simp

lemma live_rows_le [simp]: "live_rows count i \<le> DEFAULT_VECTOR_CAPACITY"
  by (simp add: live_rows_def)

lemma row_split: "row = row div DEFAULT_VECTOR_CAPACITY * DEFAULT_VECTOR_CAPACITY +
    row mod DEFAULT_VECTOR_CAPACITY"
  by simp

lemma mod_less_live_rows:
  "row mod DEFAULT_VECTOR_CAPACITY < live_rows count (row div DEFAULT_VECTOR_CAPACITY) \<longleftrightarrow>
   row < count"
proof -
  have "row mod DEFAULT_VECTOR_CAPACITY < count - row div DEFAULT_VECTOR_CAPACITY * DEFAULT_VECTOR_CAPACITY
      \<longleftrightarrow> row < count"
    using row_split [of row] by linarith
  then show ?thesis by (simp add: live_rows_def)
qed

lemma row_of_vector [simp]:
  assumes "j < DEFAULT_VECTOR_CAPACITY"
  shows "(i * DEFAULT_VECTOR_CAPACITY + j) div DEFAULT_VECTOR_CAPACITY = i"
    and "(i * DEFAULT_VECTOR_CAPACITY + j) mod DEFAULT_VECTOR_CAPACITY = j"
  using assms by simp_all

lemma less_live_rows:
  "j < DEFAULT_VECTOR_CAPACITY \<Longrightarrow>
   j < live_rows count i \<longleftrightarrow> i * DEFAULT_VECTOR_CAPACITY + j < count"
  using mod_less_live_rows [of "i * DEFAULT_VECTOR_CAPACITY + j" count] by simp

lemma in_vectors_of: "i \<in> set (vectors_of count) \<longleftrightarrow> 0 < live_rows count i"
proof -
  have "i < (count + DEFAULT_VECTOR_CAPACITY - 1) div DEFAULT_VECTOR_CAPACITY \<longleftrightarrow>
      i * DEFAULT_VECTOR_CAPACITY < count"
    unfolding less_eq_Suc_le [of i] less_eq_div_iff_mult_less_eq [OF CAP_pos] mult_Suc
    using CAP_pos by linarith
  then show ?thesis by (simp add: vectors_of_def live_rows_def)
qed

text \<open>With a non-empty range, \<open>part_start\<close> and \<open>part_end\<close> cut out exactly the rows of the range.\<close>

lemma in_range_vectors:
  assumes "0 < row_end" "row_end \<le> UINT64_MAX"
  shows "i \<in> set (range_vectors row_start row_end) \<longleftrightarrow>
     row_start div DEFAULT_VECTOR_CAPACITY \<le> i \<and> i * DEFAULT_VECTOR_CAPACITY < row_end"
proof -
  have "sub64 row_end 1 = row_end - 1" using assms by (intro sub64_id) simp_all
  moreover have "i < (row_end - 1) div DEFAULT_VECTOR_CAPACITY + 1 \<longleftrightarrow>
      i * DEFAULT_VECTOR_CAPACITY < row_end"
    unfolding less_eq_Suc_le [of i] Suc_eq_plus1 add_le_cancel_right
      less_eq_div_iff_mult_less_eq [OF CAP_pos] using assms(1) by linarith
  ultimately show ?thesis by (simp only: range_vectors_def set_upt atLeastLessThan_iff)
qed

lemma part_bounds:
  assumes e: "0 < row_end" "row_end \<le> UINT64_MAX"
    and i: "i \<in> set (range_vectors row_start row_end)" and j: "j < DEFAULT_VECTOR_CAPACITY"
  shows "part_start row_start i \<le> j \<and> j < part_end row_end i \<longleftrightarrow>
     row_start \<le> i * DEFAULT_VECTOR_CAPACITY + j \<and> i * DEFAULT_VECTOR_CAPACITY + j < row_end"
proof -
  let ?C = DEFAULT_VECTOR_CAPACITY
  have i': "row_start div ?C \<le> i" "i * ?C < row_end"
    using i by (simp_all only: in_range_vectors [OF e])
  have s: "part_start row_start i \<le> j \<longleftrightarrow> row_start \<le> i * ?C + j"
  proof (cases "i = row_start div ?C")
    case True
    then show ?thesis using row_split [of row_start] unfolding part_start_def by simp linarith
  next
    case False
    with i'(1) have "Suc (row_start div ?C) * ?C \<le> i * ?C" by (intro mult_le_mono1) simp
    then have "row_start \<le> i * ?C"
      using row_split [of row_start] mod_CAP_less [of row_start] unfolding mult_Suc by linarith
    with False show ?thesis by (simp add: part_start_def)
  qed
  have sub: "sub64 row_end 1 = row_end - 1" using e by (intro sub64_id) simp_all
  have t: "j < part_end row_end i \<longleftrightarrow> i * ?C + j < row_end"
  proof (cases "i = (row_end - 1) div ?C")
    case True
    then have "part_end row_end i = row_end - i * ?C"
      using i'(2) e(2) unfolding part_end_def sub Let_def by simp
    then show ?thesis using i'(2) by linarith
  next
    case False
    have "i \<le> (row_end - 1) div ?C"
      using i'(2) unfolding less_eq_div_iff_mult_less_eq [OF CAP_pos] by linarith
    with False have "Suc i * ?C \<le> (row_end - 1) div ?C * ?C" by (intro mult_le_mono1) simp
    then have "i * ?C + ?C \<le> row_end - 1"
      using row_split [of "row_end - 1"] unfolding mult_Suc by linarith
    with False show ?thesis using j i'(2) unfolding part_end_def sub Let_def by simp
  qed
  from s t show ?thesis by simp
qed

lemma part_end_le:
  assumes e: "0 < row_end" "row_end \<le> UINT64_MAX"
  shows "part_end row_end i \<le> DEFAULT_VECTOR_CAPACITY"
proof -
  let ?C = DEFAULT_VECTOR_CAPACITY
  have sub: "sub64 row_end 1 = row_end - 1" using e by (intro sub64_id) simp_all
  have "row_end - 1 < (row_end - 1) div ?C * ?C + ?C"
    using row_split [of "row_end - 1"] mod_CAP_less [of "row_end - 1"] by linarith
  moreover have "(row_end - 1) div ?C * ?C \<le> row_end" using row_split [of "row_end - 1"] by linarith
  then have "sub64 row_end ((row_end - 1) div ?C * ?C) = row_end - (row_end - 1) div ?C * ?C"
    by (rule sub64_id [OF _ e(2)])
  ultimately have "sub64 row_end ((row_end - 1) div ?C * ?C) \<le> ?C" by linarith
  then show ?thesis unfolding part_end_def sub Let_def 
    by (cases "i = (row_end - 1) div ?C") (simp_all only: if_True if_False simp_thms order_refl)
qed

section \<open>Chunks: loops and stamps\<close>

lemma length_fill_range [simp]: "length (fill_range s e v a) = length a"
proof -
  have "length (foldl (\<lambda>a i. a[i := v]) a is) = length a" for "is"
    by (induction "is" arbitrary: a) simp_all
  then show ?thesis by (simp add: fill_range_def)
qed

lemma nth_foldl_update:
  "j < length a \<Longrightarrow>
   foldl (\<lambda>a i. a[f i := v]) a is ! j = (if j \<in> f ` set is then v else a ! j)"
  by (induction "is" arbitrary: a) (auto simp: nth_list_update)

lemma nth_fill_range [simp]:
  "j < length a \<Longrightarrow> fill_range s e v a ! j = (if s \<le> j \<and> j < e then v else a ! j)"
  using nth_foldl_update [of j a "\<lambda>i. i" v "[s..<e]"] by (simp add: fill_range_def)

text \<open>The selection loop writes the selected rows, in order, to the front of the buffer.\<close>

lemma select_rows_invariant:
  assumes "n \<le> length iv"
  shows "select_rows test n iv =
     (length (filter test [0..<n]),
      filter test [0..<n] @ drop (length (filter test [0..<n])) iv)"
  using assms
proof (induction n)
  case 0
  then show ?case by (simp add: select_rows_def)
next
  case (Suc n)
  let ?sel = "filter test [0..<n]"
  have IH: "select_rows test n iv = (length ?sel, ?sel @ drop (length ?sel) iv)"
    using Suc by simp
  have le: "length ?sel \<le> n" using length_filter_le [of test "[0..<n]"] by simp
  then have "length ?sel < length iv" using Suc.prems by simp
  then have "drop (length ?sel) iv = iv ! length ?sel # drop (Suc (length ?sel)) iv"
    by (simp add: Cons_nth_drop_Suc)
  then show ?case using IH by (simp add: select_rows_def set_index_def list_update_append)
qed

text \<open>How a scan reads the buffer: a full count means every row.\<close>

definition selected :: "nat \<Rightarrow> nat \<times> nat list \<Rightarrow> nat list" where
  "selected max_count res =
     (if fst res = max_count then [0..<max_count] else take (fst res) (snd res))"

lemma selected_select_rows:
  assumes "n \<le> length iv"
  shows "selected n (select_rows test n iv) = filter test [0..<n]"
proof (cases "length (filter test [0..<n]) = n")
  case True
  then have "length (filter test [0..<n]) = length [0..<n]" by simp
  then have "filter test [0..<n] = [0..<n]"
    by (metis length_filter_less filter_id_conv less_irrefl)
  with True show ?thesis by (simp add: selected_def select_rows_invariant [OF assms])
next
  case False
  then show ?thesis by (simp add: selected_def select_rows_invariant [OF assms])
qed

lemma selected_all [simp]: "selected n (n, iv) = [0..<n]"
  by (simp add: selected_def)

lemma selected_none [simp]: "selected n (0, iv) = []"
  by (simp add: selected_def)

lemma use_version_simps [simp]:
  "use_version txn i = use_inserted_version txn i"
  "use_deleted_version txn i = (\<not> use_inserted_version txn i)"
  by (simp_all add: use_version_def use_deleted_version_def)

lemma not_deleted_invisible [simp]:
  "snapshot_wf txn \<Longrightarrow> \<not> use_inserted_version txn NOT_DELETED_ID"
  by (auto simp: snapshot_wf_def use_inserted_version_def NOT_DELETED_ID_def TRANSACTION_ID_START_def)

lemma zero_visible [simp]: "snapshot_wf txn \<Longrightarrow> use_inserted_version txn 0"
  by (simp add: snapshot_wf_def use_inserted_version_def TRANSACTION_ID_START_def binary_search_iff)

lemma ci_fetch_sees: "ci_fetch txn ci i = sees txn (ci_ins (Some ci) i) (ci_del (Some ci) i)"
  by (cases ci) (simp_all add: sees_def cc_fetch_def cv_fetch_def)

lemma rvm_fetch_sees:
  "snapshot_wf txn \<Longrightarrow> rvm_fetch txn row r = sees txn (ins_of r row) (del_of r row)"
  by (simp add: rvm_fetch_def ins_of_def del_of_def ci_fetch_sees Let_def minus_div_mult_eq_mod
      split: option.split) (simp add: sees_def)

lemma cv_indexing_vector_filter:
  assumes wf: "cv_wf n c" "m \<le> n" "n \<le> DEFAULT_VECTOR_CAPACITY" "snapshot_wf txn"
    and iv: "m \<le> length iv"
  shows "selected m (cv_indexing_vector txn c iv m) =
         filter (\<lambda>i. sees txn (inserted c ! i) (deleted c ! i)) [0..<m]"
proof -
  have same: "same_inserted_id c \<Longrightarrow> i < m \<Longrightarrow> inserted c ! i = cv_insert_id c" for i
    using wf by (simp add: cv_wf_def)
  have nodel: "\<not> any_deleted c \<Longrightarrow> i < m \<Longrightarrow> deleted c ! i = NOT_DELETED_ID" for i
    using wf by (simp add: cv_wf_def)
  show ?thesis
    using same nodel wf(4)
    by (auto simp: cv_indexing_vector_def selected_select_rows [OF iv] sees_def
        intro!: filter_cong sym [OF filter_True] sym [OF filter_False])
qed

lemma ci_indexing_vector_filter:
  assumes wf: "ci_wf n (Some ci)" "m \<le> n" "n \<le> DEFAULT_VECTOR_CAPACITY" "snapshot_wf txn"
    and iv: "m \<le> length iv"
  shows "selected m (ci_indexing_vector txn ci iv m) = filter (ci_fetch txn ci) [0..<m]"
proof (cases ci)
  case (CONSTANT_INFO c)
  then show ?thesis by (simp add: cc_indexing_vector_def cc_fetch_def)
next
  case (VECTOR_INFO c)
  have "ci_fetch txn ci = (\<lambda>i. sees txn (inserted c ! i) (deleted c ! i))"
    using VECTOR_INFO by (simp add: fun_eq_iff ci_fetch_sees)
  then show ?thesis
    using cv_indexing_vector_filter [of n c m txn iv] assms VECTOR_INFO by simp
qed

section \<open>Chunks: the operations keep the invariant\<close>

lemma cv_wf_new [simp]: "cv_wf n (chunk_vector_info_new s)" if "n \<le> DEFAULT_VECTOR_CAPACITY"
  using that by (simp add: cv_wf_def chunk_vector_info_new_def)

lemma cv_append_stamps:
  assumes "length (inserted c) = DEFAULT_VECTOR_CAPACITY" "j < DEFAULT_VECTOR_CAPACITY"
  shows "inserted (cv_append s e v c) ! j = (if s \<le> j \<and> j < e then v else inserted c ! j)"
    and "deleted (cv_append s e v c) = deleted c"
  using assms by (simp_all add: cv_append_def Let_def)

lemma cv_append_wf:
  assumes wf: "cv_wf n c" and e: "n \<le> e" "e \<le> DEFAULT_VECTOR_CAPACITY"
  shows "cv_wf e (cv_append n e v c)"
proof -
  have len: "length (inserted c) = DEFAULT_VECTOR_CAPACITY" using wf by (simp add: cv_wf_def)
  have "inserted (cv_append n e v c) ! i = cv_insert_id (cv_append n e v c)"
    if "same_inserted_id (cv_append n e v c)" "i < e" for i
  proof (cases "n = 0 \<or> n \<le> i")
    case True
    then show ?thesis
      using that e len by (auto simp: cv_append_stamps) (auto simp: cv_append_def Let_def split: if_splits)
  next
    case False
    then show ?thesis
      using that e wf by (auto simp: cv_append_stamps len) (auto simp: cv_append_def Let_def cv_wf_def split: if_splits)
  qed
  then show ?thesis
    using wf e by (simp add: cv_wf_def cv_append_def Let_def)
qed

text \<open>One vector of \<open>append_version_info\<close>: \<open>n\<close> rows are live before, \<open>e\<close> after. No abort.\<close>

lemma append_chunk_ok:
  assumes wf: "ci_wf n ci" and n: "n < e" "e \<le> DEFAULT_VECTOR_CAPACITY"
  shows "\<exists>ci'. append_chunk start tid n e ci = Some ci' \<and> ci_wf e ci' \<and>
     (\<forall>j<DEFAULT_VECTOR_CAPACITY.
        ci_ins ci' j = (if n \<le> j \<and> j < e then tid else ci_ins ci j) \<and> ci_del ci' j = ci_del ci j)"
proof (cases "n = 0 \<and> e = DEFAULT_VECTOR_CAPACITY")
  case True
  then have "j < DEFAULT_VECTOR_CAPACITY \<Longrightarrow> ci_del ci j = NOT_DELETED_ID" for j
    using wf by (cases "(n, ci)" rule: ci_wf.cases) (auto simp: cv_wf_def)
  with True show ?thesis by (simp add: append_chunk_def)
next
  case False
  show ?thesis
  proof (cases "(n, ci)" rule: ci_wf.cases)
    case (1 m)
    then show ?thesis using False n
      by (auto simp: append_chunk_def cv_append_wf cv_append_stamps chunk_vector_info_new_def
          intro!: cv_append_wf [OF cv_wf_new, unfolded chunk_vector_info_new_def])
  next
    case (2 m c)
    then show ?thesis using wf n by simp
  next
    case (3 m c)
    then have "cv_wf n c" "length (inserted c) = DEFAULT_VECTOR_CAPACITY" "ci = Some (VECTOR_INFO c)"
      using wf by (simp_all add: cv_wf_def)
    then show ?thesis using False n cv_append_wf [of n c e tid]
      by (auto simp: append_chunk_def cv_append_stamps)
  qed
qed

lemma cv_commit_append_stamps:
  assumes "length (inserted c) = DEFAULT_VECTOR_CAPACITY" "j < DEFAULT_VECTOR_CAPACITY"
  shows "inserted (cv_commit_append v s e c) ! j = (if s \<le> j \<and> j < e then v else inserted c ! j)"
    and "deleted (cv_commit_append v s e c) = deleted c"
  using assms by (simp_all add: cv_commit_append_def Let_def)

lemma cv_commit_append_wf:
  assumes "cv_wf n c" "n \<le> DEFAULT_VECTOR_CAPACITY"
    and "same_inserted_id c \<Longrightarrow> s = 0 \<and> n \<le> e"
  shows "cv_wf n (cv_commit_append v s e c)"
  using assms by (auto simp: cv_wf_def cv_commit_append_def Let_def)

text \<open>Two commits of adjacent ranges are one commit of their union.\<close>

lemma cv_commit_append_adjacent:
  assumes "a \<le> b" "b \<le> e"
  shows "cv_commit_append v b e (cv_commit_append v a b c) = cv_commit_append v a e c"
proof -
  have "[a..<e] = [a..<b] @ [b..<e]" using assms by (metis le_add_diff_inverse upt_add_eq_append)
  then have "fill_range a e v x = fill_range b e v (fill_range a b v x)" for x :: "nat list"
    by (simp add: fill_range_def)
  then show ?thesis by (simp add: cv_commit_append_def Let_def)
qed

lemma commit_chunk_ok:
  assumes wf: "ci_wf n ci" "ci \<noteq> None" "n \<le> DEFAULT_VECTOR_CAPACITY"
    and const: "\<And>c. ci = Some (CONSTANT_INFO c) \<Longrightarrow> s = 0 \<and> e = DEFAULT_VECTOR_CAPACITY"
    and same: "\<And>c. ci = Some (VECTOR_INFO c) \<Longrightarrow> same_inserted_id c \<Longrightarrow> s = 0 \<and> n \<le> e"
  shows "\<exists>ci'. commit_chunk cid s e ci = Some ci' \<and> ci_wf n ci' \<and>
     (\<forall>j<DEFAULT_VECTOR_CAPACITY.
        ci_ins ci' j = (if s \<le> j \<and> j < e then cid else ci_ins ci j) \<and> ci_del ci' j = ci_del ci j)"
proof (cases "(n, ci)" rule: ci_wf.cases)
  case (1 m)
  with wf show ?thesis by simp
next
  case (2 m c)
  with wf const [of c] show ?thesis by (simp add: commit_chunk_def cc_commit_append_def)
next
  case (3 m c)
  then have "cv_wf n c" "length (inserted c) = DEFAULT_VECTOR_CAPACITY" "ci = Some (VECTOR_INFO c)"
    using wf by (simp_all add: cv_wf_def)
  then show ?thesis using wf(3) same [of c] cv_commit_append_wf [of n c s e cid]
    by (auto simp: commit_chunk_def cv_commit_append_stamps)
qed

section \<open>The manager: loops over vectors\<close>

lemma get_chunk_info_update [simp]:
  "i < length (vector_info r) \<Longrightarrow>
   get_chunk_info j (r\<lparr>vector_info := (vector_info r)[i := ci]\<rparr>) =
     (if j = i then ci else get_chunk_info j r)"
  by (auto simp: get_chunk_info_def nth_list_update)

lemma get_chunk_info_has_changes [simp]: "get_chunk_info i (r\<lparr>has_changes := b\<rparr>) = get_chunk_info i r"
  by (simp add: get_chunk_info_def)

lemma get_chunk_info_fill [simp]: "get_chunk_info i (fill_vector_info k r) = get_chunk_info i r"
  by (auto simp: get_chunk_info_def fill_vector_info_def nth_append)

lemma length_fill_vector_info: "k < length (vector_info (fill_vector_info k r))"
  by (simp add: fill_vector_info_def)

lemma rv_start_fill [simp]: "rv_start (fill_vector_info k r) = rv_start r"
  by (simp add: fill_vector_info_def)

text \<open>A loop of slot updates, each depending only on its own slot and on \<open>start_\<close>, succeeds when each
  update does and changes exactly the slots it visits.\<close>

lemma for_vectors_slots:
  assumes "distinct is"
    and "\<And>i r'. i \<in> set is \<Longrightarrow> rv_start r' = rv_start r \<Longrightarrow> f i r' = update_slot i (h i) r'"
    and "\<And>i. i \<in> set is \<Longrightarrow> i < length (vector_info r) \<and> h i (get_chunk_info i r) = Some (g i)"
  shows "\<exists>r'. for_vectors f is r = Some r' \<and>
     (\<forall>j. get_chunk_info j r' = (if j \<in> set is then g j else get_chunk_info j r)) \<and>
     rv_start r' = rv_start r"
  using assms
proof (induction "is" arbitrary: r)
  case Nil
  then show ?case by simp
next
  case (Cons i "is")
  let ?r = "r\<lparr>vector_info := (vector_info r)[i := g i]\<rparr>"
  have i: "i < length (vector_info r)" "h i (vector_info r ! i) = Some (g i)"
    using Cons.prems(3) [of i] by (auto simp: get_chunk_info_def)
  then have step: "f i r = Some ?r"
    using Cons.prems(2) [of i r] by (simp add: update_slot_def)
  have "\<exists>r'. for_vectors f is ?r = Some r' \<and>
     (\<forall>j. get_chunk_info j r' = (if j \<in> set is then g j else get_chunk_info j ?r)) \<and>
     rv_start r' = rv_start ?r"
  proof (rule Cons.IH)
    show "distinct is" using Cons.prems(1) by simp
    show "f k r' = update_slot k (h k) r'" if "k \<in> set is" "rv_start r' = rv_start ?r" for k r'
      using Cons.prems(2) [of k r'] that by simp
    show "k < length (vector_info ?r) \<and> h k (get_chunk_info k ?r) = Some (g k)" if "k \<in> set is" for k
      using Cons.prems(1) Cons.prems(3) [of k] that i(1) by auto
  qed
  then show ?case using step i(1) by auto
qed

lemma distinct_range_vectors [simp]: "distinct (range_vectors s e)"
  by (simp add: range_vectors_def)

lemma rvm_wfD: "rvm_wf count r \<Longrightarrow> ci_wf (live_rows count i) (get_chunk_info i r)"
  by (simp add: rvm_wf_def)

text \<open>The rows of one vector in terms of stamps of the manager.\<close>

lemma ins_of_vector: "j < DEFAULT_VECTOR_CAPACITY \<Longrightarrow>
    ins_of r (i * DEFAULT_VECTOR_CAPACITY + j) = ci_ins (get_chunk_info i r) j"
  by (simp add: ins_of_def)

lemma del_of_vector: "j < DEFAULT_VECTOR_CAPACITY \<Longrightarrow>
    del_of r (i * DEFAULT_VECTOR_CAPACITY + j) = ci_del (get_chunk_info i r) j"
  by (simp add: del_of_def)

text \<open>Appending at the end: in each visited vector the live rows stop where the appended part starts.\<close>

lemma part_live:
  assumes e: "0 < row_end" "row_end \<le> UINT64_MAX" and s: "row_start < row_end"
    and i: "i \<in> set (range_vectors row_start row_end)"
  shows "part_start row_start i = live_rows row_start i" "part_end row_end i = live_rows row_end i"
    "live_rows row_start i < live_rows row_end i"
proof -
  let ?C = DEFAULT_VECTOR_CAPACITY
  have i': "row_start div ?C \<le> i" "i * ?C < row_end"
    using i by (simp_all only: in_range_vectors [OF e])
  have lt: "row_start < Suc i * ?C"
  proof -
    have "Suc (row_start div ?C) * ?C \<le> Suc i * ?C" using i'(1) by (intro mult_le_mono1) simp
    then show ?thesis
      using row_split [of row_start] mod_CAP_less [of row_start] unfolding mult_Suc by linarith
  qed
  show st: "part_start row_start i = live_rows row_start i"
  proof (cases "i = row_start div ?C")
    case True
    then show ?thesis using lt by (simp add: part_start_def live_rows_def)
  next
    case False
    with i'(1) have "Suc (row_start div ?C) * ?C \<le> i * ?C" by (intro mult_le_mono1) simp
    then have "row_start \<le> i * ?C"
      using row_split [of row_start] mod_CAP_less [of row_start] unfolding mult_Suc by linarith
    with False show ?thesis by (simp add: part_start_def live_rows_def)
  qed
  show lt': "live_rows row_start i < live_rows row_end i"
    using lt i'(2) s CAP_pos unfolding live_rows_def mult_Suc min_less_iff_conj
    by (simp only: min_def split: if_split) linarith
  have pe: "part_end row_end i \<le> ?C" by (rule part_end_le [OF e])
  have "j < part_end row_end i \<longleftrightarrow> j < live_rows row_end i" if "live_rows row_start i \<le> j" "j < ?C" for j
    using part_bounds [OF e i that(2)] that(1) less_live_rows [OF that(2), of row_end i]
      less_live_rows [OF that(2), of row_start i] by (auto simp: st)
  note * = this
  show "part_end row_end i = live_rows row_end i"
    using * [of "live_rows row_start i"] * [of "part_end row_end i"] * [of "live_rows row_end i"]
      lt' pe live_rows_le [of row_end i]
    by (cases "part_end row_end i" "live_rows row_end i" rule: linorder_cases) auto
qed

lemma live_rows_outside:
  assumes e: "0 < row_end" "row_end \<le> UINT64_MAX" and s: "row_start < row_end"
    and i: "i \<notin> set (range_vectors row_start row_end)"
  shows "live_rows row_start i = live_rows row_end i"
proof -
  let ?C = DEFAULT_VECTOR_CAPACITY
  consider "i < row_start div ?C" | "row_end \<le> i * ?C"
    using i unfolding in_range_vectors [OF e] by linarith
  then show ?thesis
  proof cases
    case 1
    then have "Suc i * ?C \<le> row_start"
      unfolding less_eq_Suc_le less_eq_div_iff_mult_less_eq [OF CAP_pos] .
    then show ?thesis using s by (simp add: live_rows_def)
  next
    case 2
    then show ?thesis using s by (simp add: live_rows_def)
  qed
qed

section \<open>The manager: operations on stamps\<close>

text \<open>A loop over the vectors of the rows \<open>[s, e)\<close> whose body stamps its part of each vector stamps
  exactly these rows.\<close>

lemma range_update_ok:
  assumes e: "0 < e" "e \<le> UINT64_MAX" "s < e"
    and step: "\<And>i r'. rv_start r' = rv_start r \<Longrightarrow> f i r' = update_slot i (h i) r'"
    and len: "\<And>i. i \<in> set (range_vectors s e) \<Longrightarrow> i < length (vector_info r)"
    and ok: "\<And>i. i \<in> set (range_vectors s e) \<Longrightarrow>
      \<exists>ci'. h i (get_chunk_info i r) = Some ci' \<and> ci_wf (live_rows count i) ci' \<and>
        (\<forall>j<DEFAULT_VECTOR_CAPACITY.
           ci_ins ci' j = (if part_start s i \<le> j \<and> j < part_end e i then v
                           else ci_ins (get_chunk_info i r) j) \<and>
           ci_del ci' j = ci_del (get_chunk_info i r) j)"
    and out: "\<And>i. i \<notin> set (range_vectors s e) \<Longrightarrow> ci_wf (live_rows count i) (get_chunk_info i r)"
  shows "\<exists>r'. for_vectors f (range_vectors s e) r = Some r' \<and> rvm_wf count r' \<and>
     (\<forall>row. ins_of r' row = (if s \<le> row \<and> row < e then v else ins_of r row) \<and>
            del_of r' row = del_of r row)"
proof -
  let ?C = DEFAULT_VECTOR_CAPACITY and ?is = "range_vectors s e"
  define g where "g i = the (h i (get_chunk_info i r))" for i
  have g: "h i (get_chunk_info i r) = Some (g i)" "ci_wf (live_rows count i) (g i)"
    "j < ?C \<Longrightarrow> ci_ins (g i) j = (if part_start s i \<le> j \<and> j < part_end e i then v
                                else ci_ins (get_chunk_info i r) j)"
    "j < ?C \<Longrightarrow> ci_del (g i) j = ci_del (get_chunk_info i r) j" if "i \<in> set ?is" for i j
    using ok [OF that] by (auto simp: g_def)
  obtain r' where r': "for_vectors f ?is r = Some r'"
    "\<And>j. get_chunk_info j r' = (if j \<in> set ?is then g j else get_chunk_info j r)"
    using for_vectors_slots [OF distinct_range_vectors step, of s e r g] len g(1) by blast
  have "rvm_wf count r'" using out g(2) by (simp add: rvm_wf_def r'(2))
  moreover have "ins_of r' row = (if s \<le> row \<and> row < e then v else ins_of r row) \<and>
      del_of r' row = del_of r row" for row
  proof (cases "row div ?C \<in> set ?is")
    case True
    then show ?thesis
      using g(3,4) [OF True, of "row mod ?C"] part_bounds [OF e(1,2) True mod_CAP_less [of row]]
      by (simp add: ins_of_def del_of_def r'(2))
  next
    case False
    then have "\<not> (s \<le> row \<and> row < e)"
      using mod_less_live_rows [of row s] mod_less_live_rows [of row e]
        live_rows_outside [OF e False] by auto
    with False show ?thesis by (auto simp: ins_of_def del_of_def r'(2))
  qed
  ultimately show ?thesis using r'(1) by blast
qed

lemma append_version_info_ok:
  assumes wf: "rvm_wf count r" and e: "count < row_end" "row_end \<le> UINT64_MAX"
  shows "\<exists>r'. append_version_info txn count row_end r = Some r' \<and> rvm_wf row_end r' \<and>
     (\<forall>row. ins_of r' row = (if count \<le> row \<and> row < row_end then transaction_id txn else ins_of r row) \<and>
            del_of r' row = del_of r row)"
proof -
  let ?is = "range_vectors count row_end"
  let ?r = "fill_vector_info (sub64 row_end 1 div DEFAULT_VECTOR_CAPACITY) (r\<lparr>has_changes := True\<rparr>)"
  let ?h = "\<lambda>i. append_chunk (chunk_start i r) (transaction_id txn) (part_start count i) (part_end row_end i)"
  have e0: "0 < row_end" "row_end \<le> UINT64_MAX" "count < row_end" using e by simp_all
  have "\<exists>r'. for_vectors (append_version_info_at txn count row_end) ?is ?r = Some r' \<and> rvm_wf row_end r' \<and>
     (\<forall>row. ins_of r' row = (if count \<le> row \<and> row < row_end then transaction_id txn else ins_of ?r row) \<and>
            del_of r' row = del_of ?r row)"
  proof (rule range_update_ok [OF e0, where h = ?h])
    show "append_version_info_at txn count row_end i r' = update_slot i (?h i) r'"
      if "rv_start r' = rv_start ?r" for i r'
      using that by (simp add: append_version_info_at_def chunk_start_def)
    show "i < length (vector_info ?r)" if "i \<in> set ?is" for i
      using that length_fill_vector_info [of "sub64 row_end 1 div DEFAULT_VECTOR_CAPACITY" "r\<lparr>has_changes := True\<rparr>"]
      unfolding range_vectors_def set_upt atLeastLessThan_iff by linarith
    show "ci_wf (live_rows row_end i) (get_chunk_info i ?r)" if "i \<notin> set ?is" for i
      using rvm_wfD [OF wf, of i] live_rows_outside [OF e0 that] by simp
  qed (use append_chunk_ok [OF rvm_wfD [OF wf] part_live(3) [OF e0] live_rows_le] in
      \<open>simp add: part_live [OF e0] cong: if_cong split del: if_split\<close>)
  moreover have "ins_of ?r = ins_of r" "del_of ?r = del_of r"
    by (simp_all add: fun_eq_iff ins_of_def del_of_def)
  ultimately show ?thesis unfolding append_version_info_def Let_def by (simp only:)
qed

text \<open>The committed range is exactly the rows the transaction appended; then every visited chunk
  exists, constant chunks are covered as a whole and the shared stamp changes for all of its rows.\<close>

lemma commit_chunk_own:
  assumes wf: "ci_wf n ci" "n \<le> DEFAULT_VECTOR_CAPACITY" and tid: "tid \<noteq> 0"
    and part: "s < e" "e \<le> n" and own: "\<And>j. j < n \<Longrightarrow> ci_ins ci j = tid \<longleftrightarrow> s \<le> j \<and> j < e"
  shows "\<exists>ci'. commit_chunk cid s e ci = Some ci' \<and> ci_wf n ci' \<and>
     (\<forall>j<DEFAULT_VECTOR_CAPACITY.
        ci_ins ci' j = (if s \<le> j \<and> j < e then cid else ci_ins ci j) \<and> ci_del ci' j = ci_del ci j)"
proof (rule commit_chunk_ok [OF wf(1) _ wf(2)])
  have row0: "ci_ins ci s = tid" using own [of s] part by simp
  show "ci \<noteq> None" using row0 tid by (metis ci_ins.simps(1))
  have all: "s = 0 \<and> n \<le> e" if "\<And>j. j < n \<Longrightarrow> ci_ins ci j = tid"
    using own [of 0] own [of "n - 1"] part that [of 0] that [of "n - 1"] by fastforce
  show "s = 0 \<and> e = DEFAULT_VECTOR_CAPACITY" if "ci = Some (CONSTANT_INFO c)" for c
    using all row0 that part wf(1) by simp
  show "s = 0 \<and> n \<le> e" if c: "ci = Some (VECTOR_INFO c)" "same_inserted_id c" for c
  proof (rule all)
    have "j < n \<Longrightarrow> inserted c ! j = cv_insert_id c" for j
      using c wf(1) by (simp add: cv_wf_def)
    then show "ci_ins ci j = tid" if "j < n" for j
      using row0 part c(1) that by simp
  qed
qed

lemma rvm_commit_append_ok:
  assumes wf: "rvm_wf count r" and e: "row_start + n \<le> count" "count \<le> UINT64_MAX" and tid: "tid \<noteq> 0"
    and own: "\<And>row. row < count \<Longrightarrow> ins_of r row = tid \<longleftrightarrow> row_start \<le> row \<and> row < row_start + n"
  shows "\<exists>r'. rvm_commit_append cid row_start n r = Some r' \<and> rvm_wf count r' \<and>
     (\<forall>row. ins_of r' row = (if row_start \<le> row \<and> row < row_start + n then cid else ins_of r row) \<and>
            del_of r' row = del_of r row)"
proof (cases "n = 0")
  case True
  then show ?thesis using wf by (auto simp: rvm_commit_append_def)
next
  case False
  let ?C = DEFAULT_VECTOR_CAPACITY and ?e = "row_start + n"
  let ?is = "range_vectors row_start ?e"
  let ?h = "\<lambda>i. commit_chunk cid (part_start row_start i) (part_end ?e i)"
  have e0: "0 < ?e" "?e \<le> UINT64_MAX" "row_start < ?e" using e False by simp_all
  have own': "ci_ins (get_chunk_info i r) j = tid \<longleftrightarrow> part_start row_start i \<le> j \<and> j < part_end ?e i"
    if i: "i \<in> set ?is" and j: "j < live_rows count i" for i j
  proof -
    have "j < ?C" using j live_rows_le [of count i] by linarith
    then show ?thesis
      using own [of "i * ?C + j"] j less_live_rows part_bounds [OF e0(1,2) i] by (simp add: ins_of_vector)
  qed
  have part: "part_start row_start i < part_end ?e i" "part_end ?e i \<le> live_rows count i"
    if i: "i \<in> set ?is" for i
    using part_live [OF e0 i] e(1) by (auto simp: live_rows_def)
  have "\<exists>r'. for_vectors (commit_append_at cid row_start ?e) ?is r = Some r' \<and> rvm_wf count r' \<and>
     (\<forall>row. ins_of r' row = (if row_start \<le> row \<and> row < ?e then cid else ins_of r row) \<and>
            del_of r' row = del_of r row)"
  proof (rule range_update_ok [OF e0, where h = ?h])
    show "i < length (vector_info r)" if i: "i \<in> set ?is" for i
    proof (rule ccontr)
      assume "\<not> ?thesis"
      then have "get_chunk_info i r = None" by (simp add: get_chunk_info_def)
      then show False using own' [OF i, of "part_start row_start i"] part [OF i] tid by simp
    qed
  qed (use rvm_wfD [OF wf] commit_chunk_own [OF rvm_wfD [OF wf] live_rows_le tid part own'] in
      \<open>simp_all add: commit_append_at_def\<close>)
  then show ?thesis using False e0(2) by (simp add: rvm_commit_append_def Let_def)
qed

section \<open>Deletes\<close>

text \<open>The reference for the deletion loop: the rows it newly marks, in order.\<close>

fun newly_deleted :: "nat list \<Rightarrow> nat list \<Rightarrow> nat list" where
  "newly_deleted dels [] = []"
| "newly_deleted dels (row # rows) =
     (if dels ! row = NOT_DELETED_ID then row # newly_deleted dels (removeAll row rows)
      else newly_deleted dels rows)"

lemma newly_deleted_set: "set (newly_deleted dels rows) = {row \<in> set rows. dels ! row = NOT_DELETED_ID}"
  by (induction dels rows rule: newly_deleted.induct) auto

lemma newly_deleted_distinct: "distinct (newly_deleted dels rows)"
  by (induction dels rows rule: newly_deleted.induct) (auto simp: newly_deleted_set)

lemma newly_deleted_update:
  "tid \<noteq> NOT_DELETED_ID \<Longrightarrow> row < length dels \<Longrightarrow>
   newly_deleted (dels[row := tid]) rows = newly_deleted dels (removeAll row rows)"
proof (induction "length rows" arbitrary: rows rule: less_induct)
  case less
  show ?case
  proof (cases rows)
    case (Cons x xs)
    have "length (removeAll x xs) < length rows" using Cons by (simp add: le_imp_less_Suc)
    moreover have "removeAll row (removeAll x xs) = removeAll x (removeAll row xs)"
      by (simp add: removeAll_filter_not_eq conj_commute)
    ultimately show ?thesis
      using less Cons by (auto simp: nth_list_update)
  qed simp
qed

lemma cv_delete_loop_newly:
  assumes "i \<le> count" "count \<le> length rows" "k \<le> i" "tid \<noteq> NOT_DELETED_ID"
    and "\<And>x. x \<in> set rows \<Longrightarrow> x < length dels"
    and "cv_delete_loop tid i count k rows dels = Some (n, rows', dels')"
  defines "new \<equiv> newly_deleted dels (take (count - i) (drop i rows))"
  shows "n = k + length new \<and> take n rows' = take k rows @ new \<and> length rows' = length rows \<and>
    length dels' = length dels \<and>
    (\<forall>j<length dels. dels' ! j = (if j \<in> set new then tid else dels ! j))"
  using assms unfolding new_def
proof (induction tid i count k rows dels arbitrary: n rows' dels' rule: cv_delete_loop.induct)
  case (1 tid i count k rows dels)
  show ?case
  proof (cases "i < count")
    case False
    then have "n = k" "rows' = rows" "dels' = dels"
      using 1(8) by (simp_all add: cv_delete_loop.simps [of tid i])
    with False show ?thesis by simp
  next
    case True
    then have cons: "take (count - i) (drop i rows) = rows ! i # take (count - (i + 1)) (drop (i + 1) rows)"
      using 1(4) by (metis Cons_nth_drop_Suc Suc_diff_Suc Suc_eq_plus1 order_less_le_trans take_Suc_Cons)
    have row: "rows ! i < length dels" using 1(7) True 1(4) by simp
    show ?thesis
    proof (cases "dels ! (rows ! i) = NOT_DELETED_ID")
      case False
      then have "cv_delete_loop tid (i + 1) count k rows dels = Some (n, rows', dels')"
        using 1(4,8) True row by (simp add: cv_delete_loop.simps [of tid i])
      then show ?thesis using 1(1) [OF True _ False] 1(3-7) True False row cons by auto
    next
      case del: True
      let ?rows = "rows[k := rows ! i]" and ?dels = "dels[rows ! i := tid]"
      have k: "k < length rows" using 1(4,5) True by linarith
      have loop: "cv_delete_loop tid (i + 1) count (k + 1) ?rows ?dels = Some (n, rows', dels')"
        using 1(4,8) True row del by (simp add: cv_delete_loop.simps [of tid i])
      have dropk: "drop (i + 1) ?rows = drop (i + 1) rows" using 1(5) by simp
      have sub: "x \<in> set ?rows \<Longrightarrow> x < length ?dels" for x
        using 1(7) row set_update_subset_insert [of rows k "rows ! i"] by auto
      let ?rest = "take (count - (i + 1)) (drop (i + 1) rows)"
      have new: "newly_deleted ?dels ?rest = newly_deleted dels (removeAll (rows ! i) ?rest)"
        by (rule newly_deleted_update [OF 1(6) row])
      have "rows ! i \<notin> set (newly_deleted ?dels ?rest)" using row 1(6) by (simp add: newly_deleted_set)
      then show ?thesis
        using 1(2) [of n rows' dels', OF True _ _ _ _ _ 1(6) sub loop] del True 1(3-5) row k cons
        by (auto simp: dropk [simplified] new [simplified] nth_list_update take_Suc_conv_app_nth)
    qed
  qed
qed

lemma cv_delete_loop_defined:
  assumes "count \<le> length rows" "\<forall>x\<in>set rows. x < length dels"
  shows "\<exists>n rows' dels'. cv_delete_loop tid i count k rows dels = Some (n, rows', dels')"
  using assms
proof (induction tid i count k rows dels rule: cv_delete_loop.induct)
  case (1 tid i count k rows dels)
  show ?case
  proof (cases "i < count")
    case True
    then have row: "i < length rows" "rows ! i < length dels" using 1(3,4) by simp_all
    have "\<forall>x\<in>set (rows[k := rows ! i]). x < length (dels[rows ! i := tid])"
      using 1(4) row set_update_subset_insert [of rows k "rows ! i"] by auto
    with 1 True row show ?thesis by (simp add: cv_delete_loop.simps [of tid i])
  qed (simp add: cv_delete_loop.simps [of tid i])
qed

text \<open>No constant chunk carries a delete: \<open>vector_info(idx)\<close> expands it without its delete stamp.\<close>

definition constants_alive :: "row_version_manager \<Rightarrow> bool" where
  "constants_alive r \<longleftrightarrow>
     (\<forall>info \<in> set (vector_info r). case info of
        Some (CONSTANT_INFO c) \<Rightarrow> cc_delete_id c = NOT_DELETED_ID | _ \<Rightarrow> True)"

lemma constants_aliveI:
  assumes "\<And>i c. get_chunk_info i r = Some (CONSTANT_INFO c) \<Longrightarrow> cc_delete_id c = NOT_DELETED_ID"
  shows "constants_alive r"
  unfolding constants_alive_def
proof
  fix info assume "info \<in> set (vector_info r)"
  then obtain i where "i < length (vector_info r)" "vector_info r ! i = info"
    by (auto simp: in_set_conv_nth)
  then show "case info of Some (CONSTANT_INFO c) \<Rightarrow> cc_delete_id c = NOT_DELETED_ID | _ \<Rightarrow> True"
    using assms [of i] by (auto simp: get_chunk_info_def split: option.split chunk_info.split)
qed

lemma constants_aliveD:
  "constants_alive r \<Longrightarrow> get_chunk_info i r = Some (CONSTANT_INFO c) \<Longrightarrow> cc_delete_id c = NOT_DELETED_ID"
  using nth_mem [of i "vector_info r"]
  by (fastforce simp: constants_alive_def get_chunk_info_def split: if_splits)

lemma as_vector_info_ok:
  assumes wf: "rvm_wf count r" and alive: "constants_alive r"
    and res: "as_vector_info i r = (c, r1)"
  shows "i < length (vector_info r1)"
    and "get_chunk_info j r1 = (if j = i then Some (VECTOR_INFO c) else get_chunk_info j r)"
    and "cv_wf (live_rows count i) c"
    and "k < DEFAULT_VECTOR_CAPACITY \<Longrightarrow>
      inserted c ! k = ci_ins (get_chunk_info i r) k \<and> deleted c ! k = ci_del (get_chunk_info i r) k"
proof -
  let ?r = "fill_vector_info i r"
  have i: "i < length (vector_info ?r)" by (rule length_fill_vector_info)
  then have g: "vector_info ?r ! i = get_chunk_info i r"
    using get_chunk_info_fill [of i i r] by (simp add: get_chunk_info_def)
  have r1: "r1 = ?r\<lparr>vector_info := (vector_info ?r)[i := Some (VECTOR_INFO c)]\<rparr>"
    using res by (auto simp: as_vector_info_def Let_def)
  show "i < length (vector_info r1)" using i r1 by simp
  show "get_chunk_info j r1 = (if j = i then Some (VECTOR_INFO c) else get_chunk_info j r)"
    using i by (simp add: r1)
  have c: "c = (case get_chunk_info i r of
                 None \<Rightarrow> chunk_vector_info_new (chunk_start i ?r)
               | Some (CONSTANT_INFO k) \<Rightarrow> (chunk_vector_info_new (chunk_start i ?r))
                     \<lparr>cv_insert_id := cc_insert_id k,
                      inserted := replicate DEFAULT_VECTOR_CAPACITY (cc_insert_id k)\<rparr>
               | Some (VECTOR_INFO v) \<Rightarrow> v)"
    using res by (simp add: as_vector_info_def Let_def g)
  show "cv_wf (live_rows count i) c"
    using rvm_wfD [OF wf, of i]
    by (cases "get_chunk_info i r")
      (auto simp: c cv_wf_def chunk_vector_info_new_def less_le_trans [OF _ live_rows_le]
        split: chunk_info.split)
  show "inserted c ! k = ci_ins (get_chunk_info i r) k \<and> deleted c ! k = ci_del (get_chunk_info i r) k"
    if "k < DEFAULT_VECTOR_CAPACITY"
    using that constants_aliveD [OF alive, of i]
    by (auto simp: c chunk_vector_info_new_def split: option.split chunk_info.split)
qed

lemma rvm_wf_has_changes [simp]: "rvm_wf count (r\<lparr>has_changes := b\<rparr>) = rvm_wf count r"
  by (simp add: rvm_wf_def)

lemma constants_alive_has_changes [simp]: "constants_alive (r\<lparr>has_changes := b\<rparr>) = constants_alive r"
  by (simp add: constants_alive_def)

lemma cv_delete_rows_ok:
  assumes wf: "cv_wf n c" "n \<le> DEFAULT_VECTOR_CAPACITY" and tid: "tid \<noteq> NOT_DELETED_ID"
    and rows: "count \<le> length rows" "\<And>x. x \<in> set rows \<Longrightarrow> x < n"
    and res: "cv_delete_rows tid rows count c = Some (k, rows', c')"
  defines "new \<equiv> {x \<in> set (take count rows). deleted c ! x = NOT_DELETED_ID}"
  shows "take k rows' = newly_deleted (deleted c) (take count rows)" "k = card new"
    "distinct (take k rows')" "set (take k rows') = new"
    "inserted c' = inserted c"
    "j < DEFAULT_VECTOR_CAPACITY \<Longrightarrow> deleted c' ! j = (if j \<in> new then tid else deleted c ! j)"
    "cv_wf n c'"
proof -
  have len: "length (deleted c) = DEFAULT_VECTOR_CAPACITY" using wf by (simp add: cv_wf_def)
  obtain dels where loop: "cv_delete_loop tid 0 count 0 rows (deleted c) = Some (k, rows', dels)"
    and c': "c' = c\<lparr>any_deleted := True, deleted := dels\<rparr>"
    using res by (auto simp: cv_delete_rows_def split: prod.splits)
  have sub: "x < length (deleted c)" if "x \<in> set rows" for x using rows(2) [OF that] wf(2) len by linarith
  note * = cv_delete_loop_newly [OF _ rows(1) _ tid sub loop, simplified]
  show t: "take k rows' = newly_deleted (deleted c) (take count rows)"
    using * by (elim conjE)
  then show st: "set (take k rows') = new" by (simp add: newly_deleted_set new_def)
  show d: "distinct (take k rows')" using t by (simp add: newly_deleted_distinct)
  have "length (take k rows') = k" using * by (metis length_take t)
  then show "k = card new" using distinct_card [OF d] st by simp
  show "inserted c' = inserted c" by (simp add: c')
  show del: "deleted c' ! j = (if j \<in> new then tid else deleted c ! j)" if "j < DEFAULT_VECTOR_CAPACITY" for j
    using * that len by (auto simp: c' newly_deleted_set new_def)
  have "j \<notin> new" if "n \<le> j" for j
    using rows(2) [of j] that by (auto simp: new_def dest: in_set_takeD)
  then have "deleted c' ! j = NOT_DELETED_ID" if "n \<le> j" "j < DEFAULT_VECTOR_CAPACITY" for j
    using del [OF that(2)] that wf by (simp add: cv_wf_def)
  then show "cv_wf n c'" using wf * by (simp add: cv_wf_def c')
qed

text \<open>\<open>delete_rows\<close> marks exactly the live rows among the given ones, returns their number and leaves
  them at the front of the row array.\<close>

lemma rvm_delete_rows_ok:
  assumes wf: "rvm_wf n r" "constants_alive r" and tid: "tid \<noteq> NOT_DELETED_ID"
    and rows: "count \<le> length rows" "\<And>x. x \<in> set rows \<Longrightarrow> x < live_rows n i"
    and res: "rvm_delete_rows i tid rows count r = Some (k, rows', r')"
  shows "rvm_wf n r' \<and> constants_alive r' \<and>
    distinct (take k rows') \<and> k = length (take k rows') \<and>
    set (take k rows') = {x \<in> set (take count rows). del_of r (i * DEFAULT_VECTOR_CAPACITY + x) = NOT_DELETED_ID} \<and>
    (\<forall>row. ins_of r' row = ins_of r row \<and>
       del_of r' row = (if row div DEFAULT_VECTOR_CAPACITY = i \<and>
                           row mod DEFAULT_VECTOR_CAPACITY \<in> set (take k rows')
                        then tid else del_of r row))"
proof -
  let ?C = DEFAULT_VECTOR_CAPACITY
  obtain c r1 where cr: "as_vector_info i (r\<lparr>has_changes := True\<rparr>) = (c, r1)" by force
  obtain c' where del: "cv_delete_rows tid rows count c = Some (k, rows', c')"
    and r': "r' = r1\<lparr>vector_info := (vector_info r1)[i := Some (VECTOR_INFO c')]\<rparr>"
    using res cr by (auto simp: rvm_delete_rows_def split: prod.splits)
  have wf': "rvm_wf n (r\<lparr>has_changes := True\<rparr>)" "constants_alive (r\<lparr>has_changes := True\<rparr>)"
    using wf by simp_all
  note av = as_vector_info_ok [OF wf' cr, simplified]
  note dr = cv_delete_rows_ok [OF av(3) live_rows_le tid rows del]
  have get: "get_chunk_info j r' = (if j = i then Some (VECTOR_INFO c') else get_chunk_info j r)" for j
    using av(1,2) by (simp add: r')
  have "rvm_wf n r'" using rvm_wfD [OF wf(1)] dr(7) by (simp add: rvm_wf_def get)
  moreover have "constants_alive r'"
    using constants_aliveD [OF wf(2)] by (intro constants_aliveI) (auto simp: get split: if_splits)
  moreover have "ins_of r' row = ins_of r row \<and>
       del_of r' row = (if row div ?C = i \<and> row mod ?C \<in> set (take k rows') then tid else del_of r row)" for row
    using av(4) [of "row mod ?C"] dr(4,5) dr(6) [of "row mod ?C"] by (auto simp: ins_of_def del_of_def get)
  moreover have "deleted c ! x = del_of r (i * ?C + x)" if "x \<in> set (take count rows)" for x
  proof -
    have "x < ?C" using rows(2) [of x] live_rows_le [of n i] in_set_takeD [OF that] by linarith
    then show ?thesis using av(4) [of x] by (simp add: del_of_vector)
  qed
  moreover have "k = length (take k rows')" using dr(2,3,4) distinct_card by fastforce
  ultimately show ?thesis using dr(3,4) by auto
qed

text \<open>A delete of live rows stays inside the arrays.\<close>

lemma rvm_delete_rows_defined:
  assumes wf: "rvm_wf n r" "constants_alive r"
    and rows: "count \<le> length rows" "\<forall>x\<in>set rows. x < live_rows n i"
  shows "\<exists>k rows' r'. rvm_delete_rows i tid rows count r = Some (k, rows', r')"
proof -
  obtain c r1 where cr: "as_vector_info i (r\<lparr>has_changes := True\<rparr>) = (c, r1)" by force
  have "cv_wf (live_rows n i) c" using as_vector_info_ok(3) [OF _ _ cr, of n] wf by simp
  then have "\<forall>x\<in>set rows. x < length (deleted c)"
    using rows(2) by (auto simp: cv_wf_def intro: less_le_trans [OF _ live_rows_le])
  from cv_delete_loop_defined [OF rows(1) this, of tid 0 0] show ?thesis
    by (auto simp: rvm_delete_rows_def cv_delete_rows_def cr)
qed

text \<open>\<open>commit_all_deletes\<close> and \<open>revert_all_deletes\<close> restamp one transaction's deletes.\<close>

definition restamp_deletes :: "nat \<Rightarrow> nat \<Rightarrow> chunk_vector_info \<Rightarrow> chunk_vector_info" where
  "restamp_deletes old new c =
     (if \<not> any_deleted c then c
      else c\<lparr>deleted := map (\<lambda>d. if d = old then new else d) (deleted c)\<rparr>)"

lemma restamp_eqs:
  "cv_commit_all_deletes tid cid = restamp_deletes tid cid"
  "cv_revert_all_deletes tid = restamp_deletes tid NOT_DELETED_ID"
  by (simp_all add: fun_eq_iff restamp_deletes_def cv_commit_all_deletes_def cv_revert_all_deletes_def)

lemma restamp_deletes_ok:
  assumes "cv_wf n c" "old \<noteq> NOT_DELETED_ID"
  shows "cv_wf n (restamp_deletes old new c)" "inserted (restamp_deletes old new c) = inserted c"
    "j < DEFAULT_VECTOR_CAPACITY \<Longrightarrow> deleted (restamp_deletes old new c) ! j =
       (if deleted c ! j = old then new else deleted c ! j)"
  using assms by (auto simp: cv_wf_def restamp_deletes_def)

lemma restamp_all_ok:
  assumes wf: "rvm_wf count r" "constants_alive r" and old: "old \<noteq> NOT_DELETED_ID"
    and r': "r' = r\<lparr>vector_info := map (map_option (on_vector_info (restamp_deletes old new))) (vector_info r)\<rparr>"
  shows "rvm_wf count r' \<and> constants_alive r' \<and>
    (\<forall>row. ins_of r' row = ins_of r row \<and>
           del_of r' row = (if del_of r row = old then new else del_of r row))"
proof -
  have get: "get_chunk_info i r' =
      map_option (on_vector_info (restamp_deletes old new)) (get_chunk_info i r)" for i
    by (simp add: r' get_chunk_info_def)
  have chunk: "ci_wf (live_rows count i) (get_chunk_info i r')"
    "j < DEFAULT_VECTOR_CAPACITY \<Longrightarrow> ci_ins (get_chunk_info i r') j = ci_ins (get_chunk_info i r) j \<and>
      ci_del (get_chunk_info i r') j =
        (if ci_del (get_chunk_info i r) j = old then new else ci_del (get_chunk_info i r) j)" for i j
    using rvm_wfD [OF wf(1), of i] constants_aliveD [OF wf(2), of i] old
    by (cases "(0 :: nat, get_chunk_info i r)" rule: ci_wf.cases; simp add: get restamp_deletes_ok)+
  have "constants_alive r'"
  proof (rule constants_aliveI)
    fix i c assume "get_chunk_info i r' = Some (CONSTANT_INFO c)"
    then have "get_chunk_info i r = Some (CONSTANT_INFO c)"
      by (cases "(0 :: nat, get_chunk_info i r)" rule: ci_wf.cases) (simp_all add: get)
    then show "cc_delete_id c = NOT_DELETED_ID" by (rule constants_aliveD [OF wf(2)])
  qed
  then show ?thesis using chunk by (simp add: rvm_wf_def ins_of_def del_of_def)
qed

lemma rvm_commit_all_deletes_ok:
  assumes "rvm_wf count r" "constants_alive r" "tid \<noteq> NOT_DELETED_ID"
  shows "rvm_wf count (rvm_commit_all_deletes tid cid r) \<and> constants_alive (rvm_commit_all_deletes tid cid r) \<and>
    (\<forall>row. ins_of (rvm_commit_all_deletes tid cid r) row = ins_of r row \<and>
       del_of (rvm_commit_all_deletes tid cid r) row = (if del_of r row = tid then cid else del_of r row))"
  using restamp_all_ok [OF assms, of _ cid] by (simp add: rvm_commit_all_deletes_def restamp_eqs)

lemma rvm_revert_all_deletes_ok:
  assumes "rvm_wf count r" "constants_alive r" "tid \<noteq> NOT_DELETED_ID"
  shows "rvm_wf count (rvm_revert_all_deletes tid r) \<and> constants_alive (rvm_revert_all_deletes tid r) \<and>
    (\<forall>row. ins_of (rvm_revert_all_deletes tid r) row = ins_of r row \<and>
       del_of (rvm_revert_all_deletes tid r) row =
         (if del_of r row = tid then NOT_DELETED_ID else del_of r row))"
  using restamp_all_ok [OF assms, of _ NOT_DELETED_ID] by (simp add: rvm_revert_all_deletes_def restamp_eqs)

section \<open>Scans, counts and the compaction gate\<close>

lemma ci_has_version_above_iff:
  assumes "ci_wf n (Some ci)" "0 < m" "m \<le> n" "n \<le> DEFAULT_VECTOR_CAPACITY"
  shows "ci_has_version_above w m ci \<longleftrightarrow>
    (\<exists>j<m. ci_ins (Some ci) j > w \<or>
           ci_del (Some ci) j \<noteq> NOT_DELETED_ID \<and> ci_del (Some ci) j > w)"
proof (cases ci)
  case (CONSTANT_INFO c)
  with assms(2) show ?thesis by (auto simp: cc_has_version_above_def)
next
  case (VECTOR_INFO c)
  then have same: "same_inserted_id c \<Longrightarrow> j < m \<Longrightarrow> inserted c ! j = cv_insert_id c"
    and nodel: "\<not> any_deleted c \<Longrightarrow> j < m \<Longrightarrow> deleted c ! j = NOT_DELETED_ID" for j
    using assms by (simp_all add: cv_wf_def)
  show ?thesis using VECTOR_INFO same nodel assms(2)
    by (auto simp: cv_has_version_above_def atLeast0LessThan)
qed

text \<open>The rows of a group are the rows of its vectors.\<close>

lemma ex_row_iff:
  "(\<exists>row<count. P (row div DEFAULT_VECTOR_CAPACITY) (row mod DEFAULT_VECTOR_CAPACITY)) \<longleftrightarrow>
   (\<exists>i \<in> set (vectors_of count). \<exists>j<live_rows count i. P i j)" (is "?L \<longleftrightarrow> ?R")
proof
  assume ?L
  then obtain row where row: "row < count" "P (row div DEFAULT_VECTOR_CAPACITY) (row mod DEFAULT_VECTOR_CAPACITY)"
    by blast
  then have "row mod DEFAULT_VECTOR_CAPACITY < live_rows count (row div DEFAULT_VECTOR_CAPACITY)"
    by (simp add: mod_less_live_rows)
  with row(2) show ?R by (metis in_vectors_of gr_zeroI not_less_zero)
next
  assume ?R
  then obtain i j where ij: "j < live_rows count i" "P i j" by blast
  then have j: "j < DEFAULT_VECTOR_CAPACITY" using live_rows_le [of count i] by linarith
  with ij have "i * DEFAULT_VECTOR_CAPACITY + j < count" by (simp add: less_live_rows)
  with ij(2) j show ?L by (intro exI [of _ "i * DEFAULT_VECTOR_CAPACITY + j"]) simp
qed

lemma rvm_has_version_above_iff:
  assumes "rvm_wf count r"
  shows "rvm_has_version_above w count r \<longleftrightarrow>
    (\<exists>row<count. ins_of r row > w \<or> del_of r row \<noteq> NOT_DELETED_ID \<and> del_of r row > w)"
proof -
  have "(case get_chunk_info i r of None \<Rightarrow> False | Some ci \<Rightarrow> ci_has_version_above w (live_rows count i) ci) \<longleftrightarrow>
     (\<exists>j<live_rows count i. ci_ins (get_chunk_info i r) j > w \<or>
        ci_del (get_chunk_info i r) j \<noteq> NOT_DELETED_ID \<and> ci_del (get_chunk_info i r) j > w)"
    if "i \<in> set (vectors_of count)" for i
    using ci_has_version_above_iff [OF _ _ order_refl live_rows_le] rvm_wfD [OF assms, of i] that
    by (auto simp: in_vectors_of split: option.split)
  then show ?thesis
    unfolding rvm_has_version_above_def live_rows_def [symmetric] ins_of_def del_of_def
      ex_row_iff [of count "\<lambda>i j. ci_ins (get_chunk_info i r) j > w \<or>
        ci_del (get_chunk_info i r) j \<noteq> NOT_DELETED_ID \<and> ci_del (get_chunk_info i r) j > w"]
    by (intro bex_cong) simp_all
qed

lemma card_rows:
  "card {row. row < count \<and> P (row div DEFAULT_VECTOR_CAPACITY) (row mod DEFAULT_VECTOR_CAPACITY)} =
   (\<Sum>i \<in> set (vectors_of count). card {j. j < live_rows count i \<and> P i j})"
proof -
  let ?C = DEFAULT_VECTOR_CAPACITY
  let ?f = "\<lambda>row. (row div ?C, row mod ?C)" and ?g = "\<lambda>(i, j). i * ?C + j"
  let ?S = "SIGMA i : set (vectors_of count). {j. j < live_rows count i \<and> P i j}"
  have "bij_betw ?f {row. row < count \<and> P (row div ?C) (row mod ?C)} ?S"
  proof (rule bij_betw_byWitness [where f' = ?g])
    show "?f ` {row. row < count \<and> P (row div ?C) (row mod ?C)} \<subseteq> ?S"
    proof (rule image_subsetI)
      fix row assume "row \<in> {row. row < count \<and> P (row div ?C) (row mod ?C)}"
      then show "?f row \<in> ?S"
        using mod_less_live_rows [of row count] in_vectors_of [of "row div ?C" count] by auto
    qed
    have j: "?f (?g x) = x \<and> ?g x < count" if xS: "x \<in> ?S" for x
    proof -
      obtain i j where x: "x = (i, j)" "j < live_rows count i" using xS by (cases x) simp
      then have "j < ?C" using live_rows_le [of count i] by linarith
      with x show ?thesis using less_live_rows [of j count i] by simp
    qed
    show "\<forall>x \<in> ?S. ?f (?g x) = x" using j by blast
    show "?g ` ?S \<subseteq> {row. row < count \<and> P (row div ?C) (row mod ?C)}"
    proof (rule image_subsetI)
      fix x assume x: "x \<in> ?S"
      then have "P (fst x) (snd x)" by auto
      with j [OF x] show "?g x \<in> {row. row < count \<and> P (row div ?C) (row mod ?C)}"
        by (metis (mono_tags, lifting) fst_conv mem_Collect_eq snd_conv)
    qed
  qed simp
  then have "card {row. row < count \<and> P (row div ?C) (row mod ?C)} = card ?S"
    by (rule bij_betw_same_card)
  then show ?thesis by simp
qed

lemma ci_committed_deleted_count_card:
  assumes "ci_wf n (Some ci)" "m \<le> n" "n \<le> DEFAULT_VECTOR_CAPACITY"
  shows "ci_committed_deleted_count ci m = card {j. j < m \<and> ci_del (Some ci) j < TRANSACTION_ID_START}"
proof (cases ci)
  case (CONSTANT_INFO c)
  then show ?thesis by (simp add: cc_committed_deleted_count_def)
next
  case (VECTOR_INFO c)
  then have nodel: "\<not> any_deleted c \<Longrightarrow> j < m \<Longrightarrow> deleted c ! j = NOT_DELETED_ID" for j
    using assms by (simp add: cv_wf_def)
  have "length (filter (\<lambda>i. deleted c ! i < TRANSACTION_ID_START) [0..<m]) =
      card {j. j < m \<and> deleted c ! j < TRANSACTION_ID_START}"
    using distinct_card [of "filter (\<lambda>i. deleted c ! i < TRANSACTION_ID_START) [0..<m]"]
    by (simp add: atLeast0LessThan lessThan_def Collect_conj_eq [symmetric])
  moreover have "\<not> any_deleted c \<Longrightarrow> {j. j < m \<and> deleted c ! j < TRANSACTION_ID_START} = {}"
    using nodel by (auto simp: NOT_DELETED_ID_def TRANSACTION_ID_START_def)
  ultimately show ?thesis
    using VECTOR_INFO by (auto simp: cv_committed_deleted_count_def)
qed

section \<open>Reverting an append\<close>

lemma get_chunk_info_revert:
  assumes "s + (DEFAULT_VECTOR_CAPACITY - 1) \<le> UINT64_MAX"
  shows "get_chunk_info i (rvm_revert_append s r) =
     (if s \<le> i * DEFAULT_VECTOR_CAPACITY then None else get_chunk_info i r)"
proof -
  let ?C = DEFAULT_VECTOR_CAPACITY
  have "i < (s + (?C - 1)) div ?C \<longleftrightarrow> i * ?C < s"
    unfolding less_eq_Suc_le [of i] less_eq_div_iff_mult_less_eq [OF CAP_pos] mult_Suc
    using CAP_pos by linarith
  then show ?thesis
    using assms by (auto simp: get_chunk_info_def rvm_revert_append_def Let_def nth_append min_def)
qed

lemma cv_wf_shrink:
  assumes "cv_wf n c" "n' \<le> n" "\<And>j. n' \<le> j \<Longrightarrow> j < DEFAULT_VECTOR_CAPACITY \<Longrightarrow> deleted c ! j = NOT_DELETED_ID"
  shows "cv_wf n' c"
  using assms by (simp add: cv_wf_def)

text \<open>Cutting the group back to \<open>s\<close> rows: the dropped rows carry no delete, and \<open>s\<close> does not lie
  inside a constant chunk.\<close>

lemma rvm_revert_append_ok:
  assumes wf: "rvm_wf count r" and s: "s \<le> count" "s + (DEFAULT_VECTOR_CAPACITY - 1) \<le> UINT64_MAX"
    and del: "\<And>row. s \<le> row \<Longrightarrow> row < count \<Longrightarrow> del_of r row = NOT_DELETED_ID"
    and const: "\<And>c. get_chunk_info (s div DEFAULT_VECTOR_CAPACITY) r = Some (CONSTANT_INFO c) \<Longrightarrow>
                  s mod DEFAULT_VECTOR_CAPACITY = 0"
  shows "rvm_wf s (rvm_revert_append s r) \<and>
    (\<forall>row < s. ins_of (rvm_revert_append s r) row = ins_of r row \<and>
             del_of (rvm_revert_append s r) row = del_of r row)"
proof -
  let ?C = DEFAULT_VECTOR_CAPACITY
  have "ci_wf (live_rows s i) (get_chunk_info i r)" if i: "i * ?C < s" for i
  proof (cases "(0 :: nat, get_chunk_info i r)" rule: ci_wf.cases)
    case (2 n c)
    show ?thesis
    proof (rule ccontr)
      assume "\<not> ?thesis"
      then have "s < Suc i * ?C" using 2 by (auto simp: live_rows_def min_def split: if_splits)
      then have "s div ?C = i" using i by (intro div_nat_eqI) (simp_all add: ac_simps)
      with 2 const [of c] have "s mod ?C = 0" by simp
      with \<open>s div ?C = i\<close> i row_split [of s] show False by simp
    qed
  next
    case (3 n c)
    have "deleted c ! j = NOT_DELETED_ID" if j: "live_rows s i \<le> j" "j < ?C" for j
    proof (cases "j < live_rows count i")
      case True
      then show ?thesis
        using del [of "i * ?C + j"] j less_live_rows [OF j(2), of count i] less_live_rows [OF j(2), of s i] 3
        by (simp add: del_of_vector)
    next
      case False
      then show ?thesis using rvm_wfD [OF wf, of i] 3 j(2) by (simp add: cv_wf_def)
    qed
    moreover have "live_rows s i \<le> live_rows count i" using s(1) by (auto simp: live_rows_def)
    ultimately show ?thesis
      using rvm_wfD [OF wf, of i] 3 by (auto intro: cv_wf_shrink)
  qed simp
  moreover have "\<not> s \<le> row div ?C * ?C" if "row < s" for row using that row_split [of row] by linarith
  ultimately show ?thesis
    by (simp add: rvm_wf_def get_chunk_info_revert [OF s(2)] ins_of_def del_of_def)
qed

section \<open>Cleanup\<close>

definition cleanup_slot :: "nat \<Rightarrow> chunk_info option \<Rightarrow> chunk_info option" where
  "cleanup_slot lowest info =
     (case info of None \<Rightarrow> None
      | Some ci \<Rightarrow> (if fst (ci_cleanup lowest ci) then snd (ci_cleanup lowest ci) else Some ci))"

lemma get_chunk_info_cleanup_at:
  "get_chunk_info j (cleanup_append_at lowest e i r) =
     (if j = i \<and> part_end e i = DEFAULT_VECTOR_CAPACITY then cleanup_slot lowest (get_chunk_info j r)
      else get_chunk_info j r)"
proof (cases "i < length (vector_info r)")
  case True
  then show ?thesis
    by (auto simp: cleanup_append_at_def cleanup_slot_def split: option.split prod.split)
next
  case False
  then show ?thesis
    by (auto simp: cleanup_append_at_def cleanup_slot_def get_chunk_info_def)
qed

lemma get_chunk_info_cleanup_fold:
  "distinct is \<Longrightarrow> get_chunk_info j (fold (cleanup_append_at lowest e) is r) =
     (if j \<in> set is \<and> part_end e j = DEFAULT_VECTOR_CAPACITY then cleanup_slot lowest (get_chunk_info j r)
      else get_chunk_info j r)"
  by (induction "is" arbitrary: r) (auto simp: get_chunk_info_cleanup_at)

text \<open>Cleaning up the whole group visits exactly the full vectors.\<close>

lemma get_chunk_info_cleanup:
  assumes "count \<le> UINT64_MAX"
  shows "get_chunk_info i (cleanup_append lowest 0 count r) =
     (if live_rows count i = DEFAULT_VECTOR_CAPACITY then cleanup_slot lowest (get_chunk_info i r)
      else get_chunk_info i r)"
proof (cases "count = 0")
  case True
  then have "live_rows count i \<noteq> DEFAULT_VECTOR_CAPACITY"
    using CAP_pos by (simp add: live_rows_def del: CAP_pos)
  with True show ?thesis by (simp add: cleanup_append_def)
next
  case False
  then have e: "0 < count" "count \<le> UINT64_MAX" "0 < count" using assms by simp_all
  have "i \<in> set (range_vectors 0 count) \<and> part_end count i = DEFAULT_VECTOR_CAPACITY \<longleftrightarrow>
      live_rows count i = DEFAULT_VECTOR_CAPACITY"
  proof (cases "i \<in> set (range_vectors 0 count)")
    case True
    then show ?thesis using part_live(2) [OF e True] by simp
  next
    case False
    then have "live_rows count i = live_rows 0 i" using live_rows_outside [OF e False] by simp
    with False show ?thesis by (simp add: live_rows_def)
  qed
  then show ?thesis
    using False assms by (simp add: cleanup_append_def Let_def get_chunk_info_cleanup_fold)
qed

lemma cv_cleanup_deletes_alive:
  assumes "NOT_DELETED_ID \<in> set ds \<or> \<not> all_del"
    and "\<And>d. d \<in> set ds \<Longrightarrow> d = NOT_DELETED_ID \<or> d < TRANSACTION_ID_START \<and> d \<le> lowest"
  shows "\<exists>m'. cv_cleanup_deletes lowest ds all_del m = Some (False, m')"
  using assms
proof (induction lowest ds all_del m rule: cv_cleanup_deletes.induct)
  case (2 lowest d ds all_del m)
  have "d = NOT_DELETED_ID \<or> d < TRANSACTION_ID_START \<and> d \<le> lowest" using 2(4) by simp
  with 2 show ?case by (cases "d = NOT_DELETED_ID") (simp_all add: not_le not_less [symmetric])
qed simp

text \<open>A vector whose stamps are all committed at or below the bound, with a row left, is cleaned to
  nothing, whatever deletes it carries.\<close>

lemma cv_cleanup_partial:
  assumes wf: "cv_wf DEFAULT_VECTOR_CAPACITY c" and low: "lowest < TRANSACTION_ID_START"
    and ins: "\<And>j. j < DEFAULT_VECTOR_CAPACITY \<Longrightarrow> inserted c ! j \<le> lowest"
    and del: "\<And>j. j < DEFAULT_VECTOR_CAPACITY \<Longrightarrow> deleted c ! j = NOT_DELETED_ID \<or> deleted c ! j \<le> lowest"
    and alive: "k < DEFAULT_VECTOR_CAPACITY" "deleted c ! k = NOT_DELETED_ID"
  shows "cv_cleanup lowest c = (True, None)"
proof -
  have len: "length (inserted c) = DEFAULT_VECTOR_CAPACITY" "length (deleted c) = DEFAULT_VECTOR_CAPACITY"
    using wf by (simp_all add: cv_wf_def)
  have i: "x \<le> lowest" if "x \<in> set (inserted c)" for x
    using that ins len by (auto simp: in_set_conv_nth)
  have s: "cv_insert_id c \<le> lowest" if "same_inserted_id c"
    using that ins [OF alive(1)] alive(1) wf by (simp add: cv_wf_def)
  have d: "x = NOT_DELETED_ID \<or> x < TRANSACTION_ID_START \<and> x \<le> lowest" if "x \<in> set (deleted c)" for x
    using that del len low by (auto simp: in_set_conv_nth) fastforce
  have k: "NOT_DELETED_ID \<in> set (deleted c)" using alive len by (metis nth_mem)
  obtain m where "cv_cleanup_deletes lowest (deleted c) True NOT_DELETED_ID = Some (False, m)"
    using cv_cleanup_deletes_alive [of "deleted c" True lowest NOT_DELETED_ID] d k by blast
  then show ?thesis using i s by (auto simp: cv_cleanup_def not_less)
qed

lemma ci_cleanup_no_deletes:
  assumes wf: "ci_wf DEFAULT_VECTOR_CAPACITY (Some ci)"
    and del: "\<And>j. j < DEFAULT_VECTOR_CAPACITY \<Longrightarrow> ci_del (Some ci) j = NOT_DELETED_ID"
    and ok: "fst (ci_cleanup lowest ci)"
  shows "snd (ci_cleanup lowest ci) = None"
    and "j < DEFAULT_VECTOR_CAPACITY \<Longrightarrow> ci_ins (Some ci) j \<le> lowest"
proof -
  show "j < DEFAULT_VECTOR_CAPACITY \<Longrightarrow> ci_ins (Some ci) j \<le> lowest"
    using ok wf by (cases ci) (auto simp: cc_cleanup_def cv_cleanup_def cv_wf_def not_less split: if_splits)
  show "snd (ci_cleanup lowest ci) = None"
  proof (cases ci)
    case (CONSTANT_INFO c)
    then show ?thesis by (simp add: cc_cleanup_def)
  next
    case (VECTOR_INFO c)
    have len: "length (deleted c) = DEFAULT_VECTOR_CAPACITY" using VECTOR_INFO wf by (simp add: cv_wf_def)
    then have "x \<in> set (deleted c) \<Longrightarrow> x = NOT_DELETED_ID" for x
      using del VECTOR_INFO by (auto simp: in_set_conv_nth)
    moreover have "NOT_DELETED_ID \<in> set (deleted c)"
      using len del [of 0] VECTOR_INFO nth_mem [of 0 "deleted c"] by simp
    ultimately obtain m where "cv_cleanup_deletes lowest (deleted c) True NOT_DELETED_ID = Some (False, m)"
      using cv_cleanup_deletes_alive [of "deleted c" True lowest NOT_DELETED_ID] by blast
    then show ?thesis using VECTOR_INFO by (simp add: cv_cleanup_def)
  qed
qed

section \<open>Properties\<close>

text \<open>
  C12. A scan agrees with point lookups: for a vector of a well-formed group, the rows the scan's
  indexing vector selects (a full count standing for all rows) are, in order, exactly the rows that
  \<open>fetch\<close> returns for the same snapshot.
\<close>

theorem scan_selects_fetched_rows:
  assumes wf: "rvm_wf count r" "snapshot_wf txn" and m: "m \<le> live_rows count i" "m \<le> length iv"
  shows "selected m (rvm_indexing_vector txn i iv m r) =
         filter (\<lambda>j. rvm_fetch txn (i * DEFAULT_VECTOR_CAPACITY + j) r) [0..<m]"
proof (cases "get_chunk_info i r")
  case None
  have "j < DEFAULT_VECTOR_CAPACITY" if "j < m" for j using that m(1) live_rows_le [of count i] by linarith
  then have "rvm_fetch txn (i * DEFAULT_VECTOR_CAPACITY + j) r" if "j < m" for j
    using that None by (simp add: rvm_fetch_def)
  then show ?thesis by (simp add: rvm_indexing_vector_def None)
next
  case (Some ci)
  have "j < DEFAULT_VECTOR_CAPACITY" if "j < m" for j using that m(1) live_rows_le [of count i] by linarith
  then have "rvm_fetch txn (i * DEFAULT_VECTOR_CAPACITY + j) r = ci_fetch txn ci j" if "j < m" for j
    using that Some by (simp add: rvm_fetch_def)
  then have "filter (\<lambda>j. rvm_fetch txn (i * DEFAULT_VECTOR_CAPACITY + j) r) [0..<m] = filter (ci_fetch txn ci) [0..<m]"
    by (intro filter_cong) simp_all
  then show ?thesis
    using ci_indexing_vector_filter [OF _ m(1) live_rows_le wf(2) m(2)] rvm_wfD [OF wf(1), of i] Some
    by (simp add: rvm_indexing_vector_def)
qed

text \<open>A full vector appended by commit 2, of which rows 1 and 3 were deleted by commits 3 and 12.\<close>

definition sample_group :: row_version_manager where
  "sample_group = \<lparr>rv_start = 0, vector_info = [Some (VECTOR_INFO
     \<lparr>cv_start = 0, inserted = replicate DEFAULT_VECTOR_CAPACITY 2, cv_insert_id = 2, same_inserted_id = True,
      deleted = (replicate DEFAULT_VECTOR_CAPACITY NOT_DELETED_ID)[1 := 3, 3 := 12], any_deleted = True\<rparr>)],
     has_changes = True\<rparr>"

definition sample_reader :: transaction_data where
  "sample_reader = transaction_data_of (TRANSACTION_ID_START + 7) 8 \<lparr>snapshot_horizon := 9\<rparr>"

lemma sample_wf: "rvm_wf 1024 sample_group" "snapshot_wf sample_reader"
  by (auto simp: rvm_wf_def get_chunk_info_def sample_group_def cv_wf_def live_rows_def
      DEFAULT_VECTOR_CAPACITY_def nth_list_update not_le less_Suc0 sample_reader_def snapshot_wf_def
      transaction_data_of_def TRANSACTION_ID_START_def NOT_DELETED_ID_def)

lemma sample_fetch: "row < 1024 \<Longrightarrow> rvm_fetch sample_reader row sample_group \<longleftrightarrow> row \<noteq> 1"
  unfolding rvm_fetch_sees [OF sample_wf(2)]
  by (simp add: sees_def ins_of_def del_of_def get_chunk_info_def
      sample_group_def DEFAULT_VECTOR_CAPACITY_def nth_list_update use_inserted_version_def sample_reader_def
      transaction_data_of_def TRANSACTION_ID_START_def NOT_DELETED_ID_def binary_search_iff)

theorem scan_selects_fetched_rows_witness:
  "selected 4 (rvm_indexing_vector sample_reader 0 [9, 9, 9, 9] 4 sample_group) = [0, 2, 3]"
proof -
  have "selected 4 (rvm_indexing_vector sample_reader 0 [9, 9, 9, 9] 4 sample_group) =
      filter (\<lambda>j. rvm_fetch sample_reader (0 * DEFAULT_VECTOR_CAPACITY + j) sample_group) [0..<4]"
    by (rule scan_selects_fetched_rows [OF sample_wf])
      (simp_all add: live_rows_def DEFAULT_VECTOR_CAPACITY_def)
  also have "\<dots> = filter (\<lambda>j. j \<noteq> 1) [0..<4]" by (rule filter_cong) (simp_all add: sample_fetch)
  also have "\<dots> = [0, 2, 3]" by (simp add: upt_rec)
  finally show ?thesis .
qed

text \<open>
  C17. \<open>committed_deleted_count\<close> counts exactly the rows of the group whose delete stamp is a commit
  id.
\<close>

theorem committed_deleted_count_exact:
  assumes "rvm_wf count r"
  shows "rvm_committed_deleted_count count r =
    card {row. row < count \<and> del_of r row < TRANSACTION_ID_START}"
proof -
  have "(case get_chunk_info i r of None \<Rightarrow> 0
        | Some ci \<Rightarrow> ci_committed_deleted_count ci (live_rows count i)) =
      card {j. j < live_rows count i \<and> ci_del (get_chunk_info i r) j < TRANSACTION_ID_START}" for i
  proof (cases "get_chunk_info i r")
    case None
    then show ?thesis by (simp add: NOT_DELETED_ID_def TRANSACTION_ID_START_def)
  next
    case (Some ci)
    then show ?thesis
      using ci_committed_deleted_count_card [OF _ order_refl live_rows_le, of count i ci]
        rvm_wfD [OF assms, of i] by simp
  qed
  then show ?thesis
    unfolding rvm_committed_deleted_count_def live_rows_def [symmetric] del_of_def
      card_rows [of count "\<lambda>i j. ci_del (get_chunk_info i r) j < TRANSACTION_ID_START"]
    by (simp add: sum_list_distinct_conv_sum_set vectors_of_def)
qed

theorem committed_deleted_count_exact_witness:
  "rvm_committed_deleted_count 1024 sample_group =
     card {row. row < 1024 \<and> del_of sample_group row < TRANSACTION_ID_START}"
  by (rule committed_deleted_count_exact [OF sample_wf(1)])

end
