(* ===== verification/Mvcc.thy ===== *)
theory Mvcc
  imports Txn_Manager Row_Versions
begin

text \<open>
  Snapshots of the transaction manager over the stamps of the row versions.

  \<open>version_store\<close> is the contract a row-version store keeps with the transaction pipeline of
  \<open>components/table/collection.cpp\<close> (append, delete, then on commit \<open>commit_append\<close> and
  \<open>commit_all_deletes\<close>, on abort \<open>revert_all_deletes\<close>): what each operation does to the two
  stamps of a row. Its clients are proved once in the locale: a transaction's writes become visible
  all at once with its commit id, and an aborted delete leaves no trace. The interpretation \<open>rvm\<close>
  discharges the contract for the row version manager.
\<close>

section \<open>The version-store contract\<close>

locale version_store =
  fixes wf :: "nat \<Rightarrow> 's \<Rightarrow> bool"
    and ins :: "'s \<Rightarrow> nat \<Rightarrow> nat" and del :: "'s \<Rightarrow> nat \<Rightarrow> nat"
    and append :: "transaction_data \<Rightarrow> nat \<Rightarrow> nat \<Rightarrow> 's \<Rightarrow> 's option"
    and delete :: "nat \<Rightarrow> nat \<Rightarrow> nat list \<Rightarrow> nat \<Rightarrow> 's \<Rightarrow> (nat \<times> nat list \<times> 's) option"
    and commit_append :: "nat \<Rightarrow> nat \<Rightarrow> nat \<Rightarrow> 's \<Rightarrow> 's option"
    and commit_deletes :: "nat \<Rightarrow> nat \<Rightarrow> 's \<Rightarrow> 's"
    and revert_deletes :: "nat \<Rightarrow> 's \<Rightarrow> 's"
  assumes append_law:
      "wf n s \<Longrightarrow> n < e \<Longrightarrow> e \<le> UINT64_MAX \<Longrightarrow>
       \<exists>s'. append td n e s = Some s' \<and> wf e s' \<and>
         (\<forall>row. ins s' row = (if n \<le> row \<and> row < e then transaction_id td else ins s row) \<and>
                del s' row = del s row)"
    and delete_law:
      "wf n s \<Longrightarrow> tid \<noteq> NOT_DELETED_ID \<Longrightarrow> count \<le> length rows \<Longrightarrow>
       (\<forall>x\<in>set rows. x < live_rows n i) \<Longrightarrow>
       \<exists>k rows' s'. delete i tid rows count s = Some (k, rows', s') \<and> wf n s' \<and>
         (\<forall>row. ins s' row = ins s row \<and>
            del s' row = (if row div DEFAULT_VECTOR_CAPACITY = i \<and>
                             row mod DEFAULT_VECTOR_CAPACITY \<in> set (take count rows) \<and>
                             del s row = NOT_DELETED_ID
                          then tid else del s row))"
    and commit_append_law:
      "wf n s \<Longrightarrow> a + k \<le> n \<Longrightarrow> n \<le> UINT64_MAX \<Longrightarrow> tid \<noteq> 0 \<Longrightarrow>
       (\<forall>row<n. ins s row = tid \<longleftrightarrow> a \<le> row \<and> row < a + k) \<Longrightarrow>
       \<exists>s'. commit_append cid a k s = Some s' \<and> wf n s' \<and>
         (\<forall>row. ins s' row = (if a \<le> row \<and> row < a + k then cid else ins s row) \<and>
                del s' row = del s row)"
    and commit_deletes_law:
      "wf n s \<Longrightarrow> tid \<noteq> NOT_DELETED_ID \<Longrightarrow>
       wf n (commit_deletes tid cid s) \<and>
         (\<forall>row. ins (commit_deletes tid cid s) row = ins s row \<and>
                del (commit_deletes tid cid s) row = (if del s row = tid then cid else del s row))"
    and revert_deletes_law:
      "wf n s \<Longrightarrow> tid \<noteq> NOT_DELETED_ID \<Longrightarrow>
       wf n (revert_deletes tid s) \<and>
         (\<forall>row. ins (revert_deletes tid s) row = ins s row \<and>
                del (revert_deletes tid s) row = (if del s row = tid then NOT_DELETED_ID else del s row))"
begin

text \<open>The whole commit of a transaction that appended \<open>[n, e)\<close> and deleted rows of vector \<open>i\<close>.\<close>

lemma transaction_commits:
  assumes wf: "wf n s" and e: "n < e" "e \<le> UINT64_MAX"
    and tid: "transaction_id td = tid" "tid \<noteq> 0" "tid \<noteq> NOT_DELETED_ID"
    and fresh: "\<forall>row. ins s row \<noteq> tid \<and> del s row \<noteq> tid"
    and rows: "count \<le> length rows" "\<forall>x\<in>set rows. x < live_rows e i"
  shows "\<exists>s1 k rows' s2 s3.
    append td n e s = Some s1 \<and> delete i tid rows count s1 = Some (k, rows', s2) \<and>
    commit_append cid n (e - n) s2 = Some s3 \<and> wf e (commit_deletes tid cid s3) \<and>
    (\<forall>row. ins (commit_deletes tid cid s3) row = (if n \<le> row \<and> row < e then cid else ins s row) \<and>
       del (commit_deletes tid cid s3) row =
         (if row div DEFAULT_VECTOR_CAPACITY = i \<and> row mod DEFAULT_VECTOR_CAPACITY \<in> set (take count rows) \<and>
             del s row = NOT_DELETED_ID
          then cid else del s row))"
proof -
  obtain s1 where s1: "append td n e s = Some s1" "wf e s1"
    "\<And>row. ins s1 row = (if n \<le> row \<and> row < e then tid else ins s row) \<and> del s1 row = del s row"
    using append_law [OF wf e, of td] tid(1) by auto
  obtain k rows' s2 where s2: "delete i tid rows count s1 = Some (k, rows', s2)"
    and d: "wf e s2 \<and>
         (\<forall>row. ins s2 row = ins s1 row \<and>
            del s2 row = (if row div DEFAULT_VECTOR_CAPACITY = i \<and>
                             row mod DEFAULT_VECTOR_CAPACITY \<in> set (take count rows) \<and>
                             del s1 row = NOT_DELETED_ID
                          then tid else del s1 row))"
    using delete_law [OF s1(2) tid(3) rows] by blast
  have "\<forall>row<e. ins s2 row = tid \<longleftrightarrow> n \<le> row \<and> row < n + (e - n)"
    using d s1(3) fresh e(1) by simp
  then obtain s3 where s3: "commit_append cid n (e - n) s2 = Some s3" "wf e s3"
    "\<And>row. ins s3 row = (if n \<le> row \<and> row < e then cid else ins s2 row) \<and> del s3 row = del s2 row"
    using commit_append_law [of e s2 n "e - n" tid cid] d e tid(2) by auto
  show ?thesis
    using s1(1) s2 s3 commit_deletes_law [OF s3(2) tid(3), of cid] d s1(3) fresh by auto
qed

text \<open>Deleting and reverting is the identity on stamps.\<close>

lemma delete_reverted:
  assumes "wf n s" "tid \<noteq> NOT_DELETED_ID" "count \<le> length rows" "\<forall>x\<in>set rows. x < live_rows n i"
    and "delete i tid rows count s = Some (k, rows', s')" and "\<forall>row. del s row \<noteq> tid"
  shows "wf n (revert_deletes tid s') \<and>
    (\<forall>row. ins (revert_deletes tid s') row = ins s row \<and> del (revert_deletes tid s') row = del s row)"
proof -
  have d: "wf n s' \<and>
         (\<forall>row. ins s' row = ins s row \<and>
            del s' row = (if row div DEFAULT_VECTOR_CAPACITY = i \<and>
                             row mod DEFAULT_VECTOR_CAPACITY \<in> set (take count rows) \<and>
                             del s row = NOT_DELETED_ID
                          then tid else del s row))"
    using delete_law [OF assms(1-4)] assms(5) by auto
  then show ?thesis using revert_deletes_law [of n s' tid] assms(2,6) by auto
qed

end

section \<open>The row version manager keeps the contract\<close>

definition rvm_ok :: "nat \<Rightarrow> row_version_manager \<Rightarrow> bool" where
  "rvm_ok count r \<longleftrightarrow> rvm_wf count r \<and> constants_alive r"

lemma append_chunk_alive:
  "append_chunk st tid s e ci = Some (Some (CONSTANT_INFO c)) \<Longrightarrow> cc_delete_id c = NOT_DELETED_ID"
  by (auto simp: append_chunk_def split: if_splits option.splits chunk_info.splits)

lemma commit_chunk_alive:
  "commit_chunk cid s e ci = Some (Some (CONSTANT_INFO c)) \<Longrightarrow>
   \<exists>c0. ci = Some (CONSTANT_INFO c0) \<and> cc_delete_id c0 = cc_delete_id c"
  by (cases "(0 :: nat, ci)" rule: ci_wf.cases)
    (auto simp: commit_chunk_def cc_commit_append_def split: if_splits)

lemma update_slot_alive:
  assumes "update_slot i f r = Some r'" "constants_alive r"
    and "\<And>c. f (vector_info r ! i) = Some (Some (CONSTANT_INFO c)) \<Longrightarrow> cc_delete_id c = NOT_DELETED_ID"
  shows "constants_alive r'"
proof (rule constants_aliveI)
  fix j c assume j: "get_chunk_info j r' = Some (CONSTANT_INFO c)"
  obtain ci where r': "i < length (vector_info r)" "f (vector_info r ! i) = Some ci"
    "r' = r\<lparr>vector_info := (vector_info r)[i := ci]\<rparr>"
    using assms(1) by (auto simp: update_slot_def split: if_splits)
  then show "cc_delete_id c = NOT_DELETED_ID"
    using j assms(3) constants_aliveD [OF assms(2), of j c] by (auto split: if_splits)
qed

lemma for_vectors_alive:
  assumes "\<And>i r r'. f i r = Some r' \<Longrightarrow> constants_alive r \<Longrightarrow> constants_alive r'"
  shows "for_vectors f is r = Some r' \<Longrightarrow> constants_alive r \<Longrightarrow> constants_alive r'"
  using assms by (induction "is" arbitrary: r) (auto split: option.splits)

lemma append_version_info_alive:
  assumes "append_version_info txn s e r = Some r'" "constants_alive r"
  shows "constants_alive r'"
proof -
  have fill: "constants_alive (fill_vector_info k (r\<lparr>has_changes := True\<rparr>))" for k
    using constants_aliveD [OF assms(2)] by (intro constants_aliveI) simp
  have step: "constants_alive r2" if "append_version_info_at txn s e i r1 = Some r2" "constants_alive r1" for i r1 r2
    using update_slot_alive [OF that [unfolded append_version_info_at_def]] append_chunk_alive by blast
  show ?thesis
    using for_vectors_alive [of "append_version_info_at txn s e", OF step _ fill] assms(1)
    by (simp add: append_version_info_def Let_def)
qed

lemma commit_append_alive:
  assumes "rvm_commit_append cid s n r = Some r'" "constants_alive r"
  shows "constants_alive r'"
proof -
  have step: "constants_alive r2" if "commit_append_at cid s e i r1 = Some r2" "constants_alive r1" for e i r1 r2
  proof (rule update_slot_alive [OF that [unfolded commit_append_at_def]])
    fix c assume c: "commit_chunk cid (part_start s i) (part_end e i) (vector_info r1 ! i) = Some (Some (CONSTANT_INFO c))"
    have "i < length (vector_info r1)"
      using that(1) by (auto simp: commit_append_at_def update_slot_def split: if_splits)
    then show "cc_delete_id c = NOT_DELETED_ID"
      using commit_chunk_alive [OF c] constants_aliveD [OF that(2), of i] by (auto simp: get_chunk_info_def)
  qed
  show ?thesis
    using for_vectors_alive [of "commit_append_at cid s (wrap64 (s + n))", OF step] assms
    by (auto simp: rvm_commit_append_def Let_def split: if_splits)
qed

interpretation rvm: version_store rvm_ok ins_of del_of append_version_info rvm_delete_rows
  rvm_commit_append rvm_commit_all_deletes rvm_revert_all_deletes
proof unfold_locales
  fix n s e td
  assume "rvm_ok n s" "n < e" "e \<le> UINT64_MAX"
  then show "\<exists>s'. append_version_info td n e s = Some s' \<and> rvm_ok e s' \<and>
         (\<forall>row. ins_of s' row = (if n \<le> row \<and> row < e then transaction_id td else ins_of s row) \<and>
                del_of s' row = del_of s row)"
    using append_version_info_ok [of n s e td] append_version_info_alive [of td n e s]
    unfolding rvm_ok_def by blast
next
  fix n s tid count i and rows :: "nat list"
  assume a: "rvm_ok n s" "tid \<noteq> NOT_DELETED_ID" "count \<le> length rows" "\<forall>x\<in>set rows. x < live_rows n i"
  have wf: "rvm_wf n s" "constants_alive s" using a(1) by (simp_all add: rvm_ok_def)
  obtain k rows' s' where s': "rvm_delete_rows i tid rows count s = Some (k, rows', s')"
    using rvm_delete_rows_defined [OF wf a(3,4)] by blast
  note d = rvm_delete_rows_ok [OF wf a(2,3) a(4) [rule_format] s']
  have "rvm_ok n s' \<and>
         (\<forall>row. ins_of s' row = ins_of s row \<and>
            del_of s' row = (if row div DEFAULT_VECTOR_CAPACITY = i \<and>
                             row mod DEFAULT_VECTOR_CAPACITY \<in> set (take count rows) \<and>
                             del_of s row = NOT_DELETED_ID
                          then tid else del_of s row))"
    using d by (auto simp: rvm_ok_def)
  with s' show "\<exists>k rows' s'. rvm_delete_rows i tid rows count s = Some (k, rows', s') \<and> rvm_ok n s' \<and>
         (\<forall>row. ins_of s' row = ins_of s row \<and>
            del_of s' row = (if row div DEFAULT_VECTOR_CAPACITY = i \<and>
                             row mod DEFAULT_VECTOR_CAPACITY \<in> set (take count rows) \<and>
                             del_of s row = NOT_DELETED_ID
                          then tid else del_of s row))"
    by blast
next
  fix n s a k tid cid
  assume "rvm_ok n s" "a + k \<le> n" "n \<le> UINT64_MAX" "tid \<noteq> 0"
    "\<forall>row<n. ins_of s row = tid \<longleftrightarrow> a \<le> row \<and> row < a + k"
  then show "\<exists>s'. rvm_commit_append cid a k s = Some s' \<and> rvm_ok n s' \<and>
         (\<forall>row. ins_of s' row = (if a \<le> row \<and> row < a + k then cid else ins_of s row) \<and>
                del_of s' row = del_of s row)"
    using rvm_commit_append_ok [of n s a k tid cid] commit_append_alive [of cid a k s]
    unfolding rvm_ok_def by blast
next
  fix n s tid cid
  assume "rvm_ok n s" "tid \<noteq> NOT_DELETED_ID"
  then show "rvm_ok n (rvm_commit_all_deletes tid cid s) \<and>
         (\<forall>row. ins_of (rvm_commit_all_deletes tid cid s) row = ins_of s row \<and>
                del_of (rvm_commit_all_deletes tid cid s) row = (if del_of s row = tid then cid else del_of s row))"
    using rvm_commit_all_deletes_ok unfolding rvm_ok_def by blast
next
  fix n s tid
  assume "rvm_ok n s" "tid \<noteq> NOT_DELETED_ID"
  then show "rvm_ok n (rvm_revert_all_deletes tid s) \<and>
         (\<forall>row. ins_of (rvm_revert_all_deletes tid s) row = ins_of s row \<and>
                del_of (rvm_revert_all_deletes tid s) row =
                  (if del_of s row = tid then NOT_DELETED_ID else del_of s row))"
    using rvm_revert_all_deletes_ok unfolding rvm_ok_def by blast
qed

section \<open>Snapshots along a run\<close>

lemma mgr_step_ids:
  "mgr_step x y \<Longrightarrow> mgr_inv x \<Longrightarrow>
   current_timestamp (fst x) \<le> current_timestamp (fst y) \<and> fst (snd x) \<subseteq> fst (snd y) \<and>
   snd (snd x) \<subseteq> snd (snd y) \<and>
   (\<forall>a \<in> fst (snd y) - fst (snd x). current_timestamp (fst x) \<le> a)"
proof (induction rule: mgr_step.induct)
  case (step_begin m A P s)
  then show ?case by (cases "map_of (active m) s") (simp_all add: begin_existing begin_fresh)
next
  case (step_commit m s t A P)
  then show ?case by (simp add: commit_active) blast
next
  case (step_publish c m A P)
  then show ?case by (auto simp: publish_def Let_def)
next
  case (step_abort m A P s)
  then show ?case by (simp add: abort_txn_def Let_def split: option.split)
qed (simp add: set_transaction_def)

lemma mgr_steps_ids:
  assumes "mgr_step\<^sup>*\<^sup>* x y" and inv: "mgr_inv x"
  shows "mgr_inv y \<and> current_timestamp (fst x) \<le> current_timestamp (fst y) \<and>
    fst (snd x) \<subseteq> fst (snd y) \<and> snd (snd x) \<subseteq> snd (snd y) \<and>
    (\<forall>a \<in> fst (snd y) - fst (snd x). current_timestamp (fst x) \<le> a)"
  using assms(1)
proof (induction rule: rtranclp_induct)
  case base
  then show ?case using inv by simp
next
  case (step y z)
  then have "mgr_inv y" by blast
  note s = mgr_step_inv [OF step(2) this] mgr_step_ids [OF step(2) this]
  show ?case using s step.IH by (meson DiffD1 DiffD2 DiffI order_trans subset_trans)
qed

lemma below_all_steps:
  assumes "mgr_step\<^sup>*\<^sup>* x y" and "mgr_inv x" and "below_all w (fst x)"
  shows "below_all w (fst y)"
  using assms(1)
proof (induction rule: rtranclp_induct)
  case base
  then show ?case using assms(3) .
next
  case (step y z)
  have "mgr_inv y" using mgr_steps_ids [OF step(1) assms(2)] by blast
  then show ?case using below_all_step [OF step(2)] step.IH by blast
qed

lemma snapshot_wf_data:
  assumes "mgr_inv (m, A, P)" and "snapshot_ok A P m t"
  shows "snapshot_wf (data t)"
proof -
  have "t_transaction_id t < NOT_DELETED_ID"
    using assms(2) mgr_invD(10) [OF assms(1)] unfolding snapshot_ok_def by linarith
  moreover have "0 \<notin> set (t_in_flight_snapshot t)"
    using assms(2) mgr_invD(2) [OF assms(1), of 0] unfolding snapshot_ok_def by blast
  ultimately show ?thesis using assms(2) by (simp add: snapshot_wf_def snapshot_ok_def)
qed

text \<open>A commit id is visible to a snapshot when it is under the horizon and was not in flight.\<close>

lemma visible_commit_id:
  assumes "TRANSACTION_ID_START \<le> t_transaction_id t" "sorted (t_in_flight_snapshot t)"
    and "a < TRANSACTION_ID_START"
  shows "use_inserted_version (data t) a \<longleftrightarrow>
    a \<le> t_snapshot_horizon t \<and> a \<notin> set (t_in_flight_snapshot t)"
  using assms by (auto simp: use_inserted_version_def binary_search_iff)

lemma below_snapshot_visible:
  assumes "mgr_inv (m, A, P)" and "snapshot_ok A P m t" and "below_snapshot x t"
  shows "use_inserted_version (data t) x"
proof -
  have "x < TRANSACTION_ID_START"
    using assms mgr_invD(4,5) [OF assms(1)] unfolding below_snapshot_def snapshot_ok_def by linarith
  then show ?thesis
    using assms visible_commit_id [of t x] by (auto simp: below_snapshot_def snapshot_ok_def)
qed

lemma below_all_visible:
  assumes "mgr_inv (m, A, P)" and "below_all x m" and "(s, t) \<in> set (active m)"
  shows "use_inserted_version (data t) x"
proof (rule below_snapshot_visible [OF assms(1) mgr_invD(12) [OF assms(1,3)]])
  show "below_snapshot x t" using assms(2,3) by (auto simp: below_all_def)
qed

section \<open>A concrete run\<close>

text \<open>Two sessions on a fresh database: session 1 begins and commits (id 2), session 2 begins while
  commit 2 is in flight, commit 2 is published.\<close>

definition run0 :: txn_manager where "run0 = restore_commit_clock 0 manager_init"
definition run1 :: txn_manager where "run1 = snd (begin_transaction 1 run0)"
definition run2 :: txn_manager where "run2 = snd (commit 1 run1)"
definition run3 :: txn_manager where "run3 = snd (begin_transaction 2 run2)"
definition run4 :: txn_manager where "run4 = publish 2 run3"

lemmas run_defs = run0_def run1_def run2_def run3_def run4_def

lemmas run_eval = run_defs manager_init_def restore_commit_clock_def begin_transaction_def commit_def
  publish_def transaction_new_def set_snapshot_def set_commit_id_def mark_committed_def wrap64_def
  TRANSACTION_ID_START_def NOT_DELETED_ID_def clock_room_def Let_def

lemma run_facts:
  "clock_room run0" "clock_room run1" "clock_room run2" "map_of (active run2) 2 = None"
  "\<exists>t. map_of (active run1) 1 = Some t" "fst (commit 1 run1) = 2" "2 \<in> set (in_flight_commits run3)"
  by (simp_all add: run_eval)

lemma run_reach:
  "mgr_reach (run0, {}, {})" "mgr_reach (run2, {2}, {})" "mgr_step\<^sup>*\<^sup>* (run3, {2}, {}) (run4, {2}, {2})"
  "mgr_reach (run4, {2}, {2})" "mgr_step\<^sup>*\<^sup>* (run2, {2}, {}) (run4, {2}, {2})"
proof -
  show r0: "mgr_reach (run0, {}, {})"
    using reach_start [of 0] by (simp add: run0_def TRANSACTION_ID_START_def)
  have r1: "mgr_reach (run1, {}, {})"
    using reach_step [OF r0 step_begin [OF run_facts(1)]] by (simp add: run1_def)
  obtain t where "map_of (active run1) 1 = Some t" using run_facts(5) by blast
  from reach_step [OF r1 step_commit [OF run_facts(2) this]]
  show r2: "mgr_reach (run2, {2}, {})" by (simp add: run2_def run_facts(6) [simplified])
  have r3: "mgr_reach (run3, {2}, {})"
    using reach_step [OF r2 step_begin [OF run_facts(3)]] by (simp add: run3_def)
  have st: "mgr_step (run3, {2}, {}) (run4, {2}, {2})"
    using step_publish [OF run_facts(7)] by (simp add: run4_def)
  then show "mgr_step\<^sup>*\<^sup>* (run3, {2}, {}) (run4, {2}, {2})" by simp
  have "mgr_step (run2, {2}, {}) (run3, {2}, {})"
    using step_begin [OF run_facts(3), of "{2}" "{}" 2] by (simp add: run3_def)
  then show "mgr_step\<^sup>*\<^sup>* (run2, {2}, {}) (run4, {2}, {2})"
    by (rule converse_rtranclp_into_rtranclp) (rule r_into_rtranclp, rule st)
  show "mgr_reach (run4, {2}, {2})" by (rule reach_step [OF r3 st])
qed

section \<open>Properties\<close>

text \<open>
  C1. Snapshot isolation. The snapshot a new transaction captures is the set of commit ids published
  at that moment: at every later point of every interleaving of begins, commits, publishes and
  aborts, a commit id allocated so far is visible to it exactly when it was published at the begin.
\<close>

theorem snapshot_isolation:
  assumes "mgr_reach (m, A, P)" and "clock_room m" and "map_of (active m) s = None"
    and "mgr_step\<^sup>*\<^sup>* (snd (begin_transaction s m), A, P) (m', A', P')" and "a \<in> A'"
  shows "use_inserted_version (data (fst (begin_transaction s m))) a \<longleftrightarrow> a \<in> P"
proof -
  note inv = mgr_reach_inv [OF assms(1)] and b = begin_fresh [OF assms(3,2)]
  note d = mgr_invD [OF inv]
  have inv1: "mgr_inv (snd (begin_transaction s m), A, P)" by (rule mgr_inv_begin [OF inv assms(2)])
  note ids = mgr_steps_ids [OF assms(4) inv1]
  have a: "a < TRANSACTION_ID_START"
    using mgr_invD(3,4) [of m' A' P'] ids assms(5) order_less_trans by blast
  have vis: "use_inserted_version (data (fst (begin_transaction s m))) a \<longleftrightarrow>
      a \<le> published_horizon m \<and> a \<notin> set (in_flight_commits m)"
    using visible_commit_id [of "fresh_txn s m", OF _ _ a] d(7,9) by (simp add: b)
  show ?thesis
  proof (cases "a \<in> A")
    case True
    then show ?thesis using vis d(6,8) by auto
  next
    case False
    with ids assms(5) have "current_timestamp m + 1 \<le> a" by (auto simp: b)
    moreover have "a \<notin> P" using False d(1) by blast
    ultimately show ?thesis using vis d(5) by simp
  qed
qed

theorem snapshot_isolation_witness:
  "\<not> use_inserted_version (data (fst (begin_transaction 2 run2))) 2"
  using snapshot_isolation [OF run_reach(2) run_facts(3,4), of run4 "{2}" "{2}" 2] run_reach(3)
  by (simp add: run3_def)

text \<open>
  C10. The compaction watermark is visible to all, now and later: an id at or below
  \<open>compact_watermark\<close> is visible to the snapshot of every transaction that is active at any later
  point of any interleaving.
\<close>

theorem compact_watermark_visible:
  assumes "mgr_reach (m, A, P)" and "mgr_step\<^sup>*\<^sup>* (m, A, P) (m', A', P')"
    and "(s, t) \<in> set (active m')" and "x \<le> compact_watermark m"
  shows "use_inserted_version (data t) x"
proof -
  note inv = mgr_reach_inv [OF assms(1)]
  have "below_all x m'"
    using below_all_steps [OF assms(2) inv] assms(4) le_compact_watermark [OF inv] by simp
  then show ?thesis
    using below_all_visible [of m' A' P'] mgr_steps_ids [OF assms(2) inv] assms(3) by blast
qed

text \<open>A database reopened at the commit frontier 9, and session 1 that begins in it.\<close>

definition reopened :: txn_manager where "reopened = restore_commit_clock 9 manager_init"

definition reopened1 :: txn_manager where "reopened1 = snd (begin_transaction 1 reopened)"

lemma reopened_facts:
  "mgr_reach (reopened, {1..9}, {1..9})" "mgr_step\<^sup>*\<^sup>* (reopened, {1..9}, {1..9}) (reopened1, {1..9}, {1..9})"
  "compact_watermark reopened = 9" "\<exists>t. (1, t) \<in> set (active reopened1)"
proof -
  show "mgr_reach (reopened, {1..9}, {1..9})"
    using reach_start [of 9] by (simp add: reopened_def TRANSACTION_ID_START_def)
  have "clock_room reopened" by (simp add: reopened_def run_eval)
  then show "mgr_step\<^sup>*\<^sup>* (reopened, {1..9}, {1..9}) (reopened1, {1..9}, {1..9})"
    unfolding reopened1_def by (intro r_into_rtranclp step_begin)
  show "compact_watermark reopened = 9" "\<exists>t. (1, t) \<in> set (active reopened1)"
    by (simp_all add: reopened1_def reopened_def run_eval compact_watermark_def)
qed

theorem compact_watermark_visible_witness:
  "compact_watermark reopened = 9 \<and> (\<exists>t. (1, t) \<in> set (active reopened1) \<and> use_inserted_version (data t) 9)"
proof -
  obtain t where t: "(1, t) \<in> set (active reopened1)" using reopened_facts(4) by blast
  from compact_watermark_visible [OF reopened_facts(1,2) this, of 9] t reopened_facts(3) show ?thesis by auto
qed

text \<open>C11. The compaction watermark never decreases.\<close>

theorem compact_watermark_mono:
  assumes "mgr_reach x" and "mgr_step\<^sup>*\<^sup>* x y"
  shows "compact_watermark (fst x) \<le> compact_watermark (fst y)"
proof -
  obtain m A P m' A' P' where xy: "x = (m, A, P)" "y = (m', A', P')" by (cases x, cases y)
  note inv = mgr_reach_inv [OF assms(1)]
  have "mgr_inv y" using mgr_steps_ids [OF assms(2) inv] by blast
  then show ?thesis
    using below_all_steps [OF assms(2) inv, of "compact_watermark m"] inv le_compact_watermark xy by fastforce
qed

theorem compact_watermark_mono_witness: "compact_watermark run2 \<le> compact_watermark run4"
  using compact_watermark_mono [OF run_reach(2,5)] by simp

text \<open>
  C3. Compaction is safe behind its gate. When \<open>has_version_above\<close> finds no stamp above the
  watermark in a row group, every transaction active now or later sees exactly the rows that carry
  no delete stamp, so rewriting the group without the deleted rows and without stamps changes no
  reader's view.
\<close>

theorem compaction_gate_safe:
  assumes "mgr_reach (m, A, P)" and "mgr_step\<^sup>*\<^sup>* (m, A, P) (m', A', P')"
    and "(s, t) \<in> set (active m')"
    and "rvm_wf count r" and "\<not> rvm_has_version_above (compact_watermark m) count r" and "row < count"
  shows "rvm_fetch (data t) row r \<longleftrightarrow> del_of r row = NOT_DELETED_ID"
proof -
  note inv = mgr_reach_inv [OF assms(1)]
  have inv': "mgr_inv (m', A', P')" using mgr_steps_ids [OF assms(2) inv] by blast
  have wf: "snapshot_wf (data t)" by (rule snapshot_wf_data [OF inv' mgr_invD(12) [OF inv' assms(3)]])
  have vis: "use_inserted_version (data t) x" if "x \<le> compact_watermark m" for x
    using below_all_visible [OF inv' _ assms(3)] below_all_steps [OF assms(2) inv, of x]
      le_compact_watermark [OF inv] that by simp
  have "ins_of r row \<le> compact_watermark m"
    "del_of r row = NOT_DELETED_ID \<or> del_of r row \<le> compact_watermark m"
    using assms(5,6) rvm_has_version_above_iff [OF assms(4), of "compact_watermark m"]
    by (meson not_less)+
  then show ?thesis using vis wf by (auto simp: rvm_fetch_sees [OF wf] sees_def)
qed

text \<open>A full vector, inserted by commit 2, with row 1 deleted by commit 3.\<close>

definition deleted_row_group :: row_version_manager where
  "deleted_row_group = \<lparr>rv_start = 0, vector_info = [Some (VECTOR_INFO
     \<lparr>cv_start = 0, inserted = replicate DEFAULT_VECTOR_CAPACITY 2, cv_insert_id = 2, same_inserted_id = True,
      deleted = (replicate DEFAULT_VECTOR_CAPACITY NOT_DELETED_ID)[1 := 3], any_deleted = True\<rparr>)],
     has_changes = True\<rparr>"

lemma deleted_row_group_facts:
  "rvm_wf 1024 deleted_row_group" "del_of deleted_row_group 1 = 3" "del_of deleted_row_group 0 = NOT_DELETED_ID"
  by (auto simp: rvm_wf_def get_chunk_info_def deleted_row_group_def cv_wf_def live_rows_def del_of_def
      DEFAULT_VECTOR_CAPACITY_def nth_list_update not_le less_Suc0)

theorem compaction_gate_safe_witness:
  "\<not> rvm_has_version_above (compact_watermark reopened) 1024 deleted_row_group \<and>
   (\<exists>t. (1, t) \<in> set (active reopened1) \<and>
     \<not> rvm_fetch (data t) 1 deleted_row_group \<and> rvm_fetch (data t) 0 deleted_row_group)"
proof -
  obtain t where t: "(1, t) \<in> set (active reopened1)" using reopened_facts(4) by blast
  have gate: "\<not> rvm_has_version_above (compact_watermark reopened) 1024 deleted_row_group"
    by (auto simp: reopened_facts(3) rvm_has_version_above_def get_chunk_info_def deleted_row_group_def
        cv_has_version_above_def DEFAULT_VECTOR_CAPACITY_def nth_list_update not_le less_Suc0 split: if_splits)
  have "\<not> rvm_fetch (data t) 1 deleted_row_group" "rvm_fetch (data t) 0 deleted_row_group"
    using compaction_gate_safe [OF reopened_facts(1,2) t deleted_row_group_facts(1) gate]
    using deleted_row_group_facts(2,3) by (simp_all add: NOT_DELETED_ID_def)
  with t gate show ?thesis by blast
qed

lemma del_of_beyond:
  assumes "rvm_wf n r" "n \<le> row"
  shows "del_of r row = NOT_DELETED_ID"
proof -
  let ?i = "row div DEFAULT_VECTOR_CAPACITY" and ?j = "row mod DEFAULT_VECTOR_CAPACITY"
  have "live_rows n ?i \<le> ?j" using assms(2) mod_less_live_rows [of row n] by simp
  then show ?thesis
    using rvm_wfD [OF assms(1), of ?i] mod_CAP_less [of row]
    by (cases "(0 :: nat, get_chunk_info ?i r)" rule: ci_wf.cases)
      (auto simp: del_of_def cv_wf_def not_less [symmetric] simp del: mod_CAP_less mod_less_divisor)
qed

text \<open>
  C2. Atomic commit. A transaction appends the rows \<open>[n, e)\<close> and deletes rows of a vector; its
  commit stamps both with one commit id. No step aborts, and afterwards another reader that sees the
  commit id sees all appended rows that were not deleted again, none of the deleted rows, and
  otherwise what it saw before; a reader that does not see the commit id sees exactly what it saw
  before the transaction.
\<close>

theorem transaction_commit_atomic:
  assumes "rvm_ok n r" "n < e" "e \<le> UINT64_MAX"
    and "transaction_id td = tid" "tid \<noteq> 0" "tid \<noteq> NOT_DELETED_ID"
    and "\<forall>row. ins_of r row \<noteq> tid \<and> del_of r row \<noteq> tid"
    and "count \<le> length rows" "\<forall>x\<in>set rows. x < live_rows e i"
  shows "\<exists>r1 k rows' r2 r3.
    append_version_info td n e r = Some r1 \<and> rvm_delete_rows i tid rows count r1 = Some (k, rows', r2) \<and>
    rvm_commit_append cid n (e - n) r2 = Some r3 \<and>
    (\<forall>reader row. snapshot_wf reader \<and> row < e \<longrightarrow>
       rvm_fetch reader row (rvm_commit_all_deletes tid cid r3) =
         (if use_inserted_version reader cid
          then (n \<le> row \<or> rvm_fetch reader row r) \<and>
               \<not> (row div DEFAULT_VECTOR_CAPACITY = i \<and>
                  row mod DEFAULT_VECTOR_CAPACITY \<in> set (take count rows) \<and> del_of r row = NOT_DELETED_ID)
          else row < n \<and> rvm_fetch reader row r))"
proof -
  obtain r1 k rows' r2 r3 where c: "append_version_info td n e r = Some r1"
    "rvm_delete_rows i tid rows count r1 = Some (k, rows', r2)" "rvm_commit_append cid n (e - n) r2 = Some r3"
    "\<And>row. ins_of (rvm_commit_all_deletes tid cid r3) row = (if n \<le> row \<and> row < e then cid else ins_of r row) \<and>
       del_of (rvm_commit_all_deletes tid cid r3) row =
         (if row div DEFAULT_VECTOR_CAPACITY = i \<and> row mod DEFAULT_VECTOR_CAPACITY \<in> set (take count rows) \<and>
             del_of r row = NOT_DELETED_ID
          then cid else del_of r row)"
    using rvm.transaction_commits [OF assms, of cid] by blast
  have del: "n \<le> row \<Longrightarrow> del_of r row = NOT_DELETED_ID" for row
    using del_of_beyond assms(1) unfolding rvm_ok_def by blast
  show ?thesis
  proof (intro exI conjI allI impI)
    fix reader row assume a: "snapshot_wf reader \<and> row < e"
    then show "rvm_fetch reader row (rvm_commit_all_deletes tid cid r3) =
         (if use_inserted_version reader cid
          then (n \<le> row \<or> rvm_fetch reader row r) \<and>
               \<not> (row div DEFAULT_VECTOR_CAPACITY = i \<and>
                  row mod DEFAULT_VECTOR_CAPACITY \<in> set (take count rows) \<and> del_of r row = NOT_DELETED_ID)
          else row < n \<and> rvm_fetch reader row r)"
      using del [of row] by (auto simp: rvm_fetch_sees c(4) sees_def not_less)
  qed (fact c)+
qed

text \<open>The reader of the concrete examples: a snapshot taken at horizon 9 by transaction id
  \<open>TRANSACTION_ID_START + 7\<close>.\<close>

definition reader9 :: transaction_data where
  "reader9 = transaction_data_of (TRANSACTION_ID_START + 7) 8 \<lparr>snapshot_horizon := 9\<rparr>"

definition writer5 :: transaction_data where
  "writer5 = transaction_data_of (TRANSACTION_ID_START + 5) 6"

lemma rvm_ok_new: "rvm_ok n (rvm_new s)"
  by (simp add: rvm_ok_def rvm_wf_def rvm_new_def get_chunk_info_def constants_alive_def)

lemma stamps_new [simp]: "ins_of (rvm_new s) row = 0" "del_of (rvm_new s) row = NOT_DELETED_ID"
  by (simp_all add: ins_of_def del_of_def rvm_new_def get_chunk_info_def)

lemma reader9_facts:
  "snapshot_wf reader9" "use_inserted_version reader9 7" "\<not> use_inserted_version reader9 10"
  by (simp_all add: reader9_def transaction_data_of_def snapshot_wf_def use_inserted_version_def
      TRANSACTION_ID_START_def NOT_DELETED_ID_def binary_search_iff)

theorem transaction_commit_atomic_witness:
  "\<exists>r1 k rows' r2 r3.
    append_version_info writer5 4 6 (rvm_new 0) = Some r1 \<and>
    rvm_delete_rows 0 (TRANSACTION_ID_START + 5) [1, 5] 2 r1 = Some (k, rows', r2) \<and>
    rvm_commit_append 7 4 2 r2 = Some r3 \<and>
    (let r' = rvm_commit_all_deletes (TRANSACTION_ID_START + 5) 7 r3 in
     rvm_fetch reader9 0 r' \<and> \<not> rvm_fetch reader9 1 r' \<and> rvm_fetch reader9 4 r' \<and> \<not> rvm_fetch reader9 5 r')"
proof -
  have new: "rvm_fetch reader9 row (rvm_new 0)" for row
    using rvm_fetch_sees [OF reader9_facts(1), of row "rvm_new 0"] reader9_facts(1) by (simp add: sees_def)
  have tid: "transaction_id writer5 = TRANSACTION_ID_START + 5" "TRANSACTION_ID_START + 5 \<noteq> 0"
    "TRANSACTION_ID_START + 5 \<noteq> NOT_DELETED_ID"
    by (simp_all add: writer5_def transaction_data_of_def TRANSACTION_ID_START_def NOT_DELETED_ID_def)
  have "\<forall>row. ins_of (rvm_new 0) row \<noteq> TRANSACTION_ID_START + 5 \<and>
      del_of (rvm_new 0) row \<noteq> TRANSACTION_ID_START + 5" "\<forall>x\<in>set [1, 5]. x < live_rows 6 0"
    by (simp_all add: NOT_DELETED_ID_def TRANSACTION_ID_START_def live_rows_def DEFAULT_VECTOR_CAPACITY_def)
  from transaction_commit_atomic [OF rvm_ok_new _ _ tid this(1) _ this(2), of 4 2 7]
  obtain r1 k rows' r2 r3 where c: "append_version_info writer5 4 6 (rvm_new 0) = Some r1"
    "rvm_delete_rows 0 (TRANSACTION_ID_START + 5) [1, 5] 2 r1 = Some (k, rows', r2)"
    "rvm_commit_append 7 4 2 r2 = Some r3"
    "\<forall>reader row. snapshot_wf reader \<and> row < 6 \<longrightarrow>
       rvm_fetch reader row (rvm_commit_all_deletes (TRANSACTION_ID_START + 5) 7 r3) =
         (if use_inserted_version reader 7
          then (4 \<le> row \<or> rvm_fetch reader row (rvm_new 0)) \<and>
               \<not> (row div DEFAULT_VECTOR_CAPACITY = 0 \<and>
                  row mod DEFAULT_VECTOR_CAPACITY \<in> set (take 2 [1, 5]) \<and>
                  del_of (rvm_new 0) row = NOT_DELETED_ID)
          else row < 4 \<and> rvm_fetch reader row (rvm_new 0))"
    by auto
  have f: "rvm_fetch reader9 row (rvm_commit_all_deletes (TRANSACTION_ID_START + 5) 7 r3) =
      (row \<noteq> 1 \<and> row \<noteq> 5)" if "row < 6" for row
    using c(4) [rule_format, of reader9 row] that reader9_facts new
    by (auto simp: DEFAULT_VECTOR_CAPACITY_def)
  show ?thesis
    by (rule exI [of _ r1], rule exI [of _ k], rule exI [of _ rows'], rule exI [of _ r2], rule exI [of _ r3])
      (simp add: c(1-3) c(2) [simplified] f [simplified] Let_def)
qed

text \<open>
  C13. An aborted delete leaves no trace: deleting rows and reverting the transaction's deletes gives
  every reader the rows it saw before.
\<close>

theorem aborted_delete_restores:
  assumes "rvm_ok n r" "tid \<noteq> NOT_DELETED_ID" "count \<le> length rows" "\<forall>x\<in>set rows. x < live_rows n i"
    and "rvm_delete_rows i tid rows count r = Some (k, rows', r')" and "\<forall>row. del_of r row \<noteq> tid"
    and "snapshot_wf reader"
  shows "rvm_fetch reader row (rvm_revert_all_deletes tid r') = rvm_fetch reader row r"
  using rvm.delete_reverted [OF assms(1-6)] assms(7) by (simp add: rvm_fetch_sees)

theorem aborted_delete_restores_witness:
  "\<exists>k rows' r'. rvm_delete_rows 0 7 [1] 1 (rvm_new 0) = Some (k, rows', r') \<and>
     \<not> rvm_fetch reader9 1 r' \<and> rvm_fetch reader9 1 (rvm_revert_all_deletes 7 r')"
proof -
  have ok: "rvm_wf 3 (rvm_new 0)" "constants_alive (rvm_new 0)" using rvm_ok_new [of 3 0] by (simp_all add: rvm_ok_def)
  have rows: "1 \<le> length [1 :: nat]" "\<forall>x\<in>set [1]. x < live_rows 3 0"
    by (simp_all add: live_rows_def DEFAULT_VECTOR_CAPACITY_def)
  obtain k rows' r' where d: "rvm_delete_rows 0 7 [1] 1 (rvm_new 0) = Some (k, rows', r')"
    using rvm_delete_rows_defined [OF ok rows] by blast
  have "del_of r' 1 = 7"
    using rvm_delete_rows_ok [OF ok _ rows(1) rows(2) [rule_format] d]
    by (simp add: NOT_DELETED_ID_def DEFAULT_VECTOR_CAPACITY_def)
  then have "\<not> rvm_fetch reader9 1 r'"
    by (simp only: rvm_fetch_sees [OF reader9_facts(1)] sees_def reader9_facts(2) simp_thms)
  moreover have "rvm_fetch reader9 1 (rvm_revert_all_deletes 7 r') = rvm_fetch reader9 1 (rvm_new 0)"
    by (rule aborted_delete_restores [OF rvm_ok_new _ _ _ d _ reader9_facts(1), of 3])
      (simp_all add: NOT_DELETED_ID_def live_rows_def DEFAULT_VECTOR_CAPACITY_def)
  moreover have "rvm_fetch reader9 1 (rvm_new 0)"
    using rvm_fetch_sees [OF reader9_facts(1), of 1 "rvm_new 0"] reader9_facts(1) by (simp add: sees_def)
  ultimately show ?thesis using d by blast
qed

text \<open>
  C14. Cleanup without deletes is invisible. When no row of the group carries a delete stamp and the
  reader sees every id up to the bound, \<open>cleanup_append\<close> over the whole group changes no fetch.
\<close>

theorem cleanup_without_deletes_safe:
  assumes "rvm_wf count r" "count \<le> UINT64_MAX" and "\<forall>row<count. del_of r row = NOT_DELETED_ID"
    and "snapshot_wf reader" and "\<forall>x\<le>lowest. use_inserted_version reader x" and "row < count"
  shows "rvm_fetch reader row (cleanup_append lowest 0 count r) = rvm_fetch reader row r"
proof -
  let ?i = "row div DEFAULT_VECTOR_CAPACITY" and ?j = "row mod DEFAULT_VECTOR_CAPACITY"
  show ?thesis
  proof (cases "live_rows count ?i = DEFAULT_VECTOR_CAPACITY \<and>
      (\<exists>ci. get_chunk_info ?i r = Some ci \<and> fst (ci_cleanup lowest ci))")
    case False
    then have "get_chunk_info ?i (cleanup_append lowest 0 count r) = get_chunk_info ?i r"
      by (auto simp: get_chunk_info_cleanup [OF assms(2)] cleanup_slot_def split: option.split)
    then show ?thesis by (simp add: rvm_fetch_def)
  next
    case True
    then obtain ci where ci: "get_chunk_info ?i r = Some ci" "fst (ci_cleanup lowest ci)" by blast
    have del: "ci_del (Some ci) j = NOT_DELETED_ID" if "j < DEFAULT_VECTOR_CAPACITY" for j
    proof -
      have "?i * DEFAULT_VECTOR_CAPACITY + j < count" using True less_live_rows [OF that, of count ?i] that by simp
      with assms(3) have "del_of r (?i * DEFAULT_VECTOR_CAPACITY + j) = NOT_DELETED_ID" by simp
      then show ?thesis using that ci(1) by (simp only: del_of_vector)
    qed
    have wf: "ci_wf DEFAULT_VECTOR_CAPACITY (Some ci)" using rvm_wfD [OF assms(1), of ?i] True ci by simp
    note c = ci_cleanup_no_deletes [OF wf del ci(2)]
    have "get_chunk_info ?i (cleanup_append lowest 0 count r) = None"
      using True ci c(1) by (simp add: get_chunk_info_cleanup [OF assms(2)] cleanup_slot_def)
    moreover have "rvm_fetch reader row r"
      using assms(4,5) c(2) [of ?j] del [of ?j] ci(1)
      by (simp add: rvm_fetch_sees sees_def ins_of_def del_of_def)
    ultimately show ?thesis by (simp add: rvm_fetch_def)
  qed
qed

text \<open>A full vector inserted by commit 2, row 1 by commit 3, with its version information.\<close>

definition inserted_row_group :: row_version_manager where
  "inserted_row_group = \<lparr>rv_start = 0, vector_info = [Some (VECTOR_INFO
     \<lparr>cv_start = 0, inserted = (replicate DEFAULT_VECTOR_CAPACITY 2)[1 := 3], cv_insert_id = NOT_DELETED_ID,
      same_inserted_id = False, deleted = replicate DEFAULT_VECTOR_CAPACITY NOT_DELETED_ID,
      any_deleted = False\<rparr>)],
     has_changes = True\<rparr>"

theorem cleanup_without_deletes_safe_witness:
  "get_chunk_info 0 inserted_row_group \<noteq> None \<and>
   get_chunk_info 0 (cleanup_append 9 0 1024 inserted_row_group) = None \<and>
   rvm_fetch reader9 1 (cleanup_append 9 0 1024 inserted_row_group) = rvm_fetch reader9 1 inserted_row_group \<and>
   rvm_fetch reader9 1023 (cleanup_append 9 0 1024 inserted_row_group) = rvm_fetch reader9 1023 inserted_row_group"
proof (intro conjI)
  have wf: "rvm_wf 1024 inserted_row_group"
    by (auto simp: rvm_wf_def get_chunk_info_def inserted_row_group_def cv_wf_def live_rows_def
        DEFAULT_VECTOR_CAPACITY_def not_le less_Suc0)
  have del: "\<forall>row<1024. del_of inserted_row_group row = NOT_DELETED_ID"
    by (simp add: del_of_def get_chunk_info_def inserted_row_group_def DEFAULT_VECTOR_CAPACITY_def)
  have vis: "\<forall>x\<le>9. use_inserted_version reader9 x"
    by (simp add: reader9_def transaction_data_of_def use_inserted_version_def TRANSACTION_ID_START_def
        binary_search_iff)
  show "get_chunk_info 0 inserted_row_group \<noteq> None"
    by (simp add: get_chunk_info_def inserted_row_group_def)
  show "get_chunk_info 0 (cleanup_append 9 0 1024 inserted_row_group) = None"
    by (subst get_chunk_info_cleanup) (auto simp: live_rows_def DEFAULT_VECTOR_CAPACITY_def cleanup_slot_def
        get_chunk_info_def inserted_row_group_def cv_cleanup_def
        dest: set_update_subset_insert [THEN subsetD])
  show "rvm_fetch reader9 1 (cleanup_append 9 0 1024 inserted_row_group) = rvm_fetch reader9 1 inserted_row_group"
    "rvm_fetch reader9 1023 (cleanup_append 9 0 1024 inserted_row_group) = rvm_fetch reader9 1023 inserted_row_group"
    by (rule cleanup_without_deletes_safe [OF wf _ del reader9_facts(1) vis]; simp)+
qed

text \<open>
  C15. Cleanup resurrects deleted rows. In a full vector whose inserts are all old enough and whose
  deletes are all committed and old enough, with at least one row left, \<open>cleanup_append\<close> drops the
  whole version information: every row of the vector, the deleted ones included, is then visible to
  every reader.
\<close>

theorem cleanup_resurrects_deleted_rows:
  assumes "rvm_wf count r" "count \<le> UINT64_MAX" "lowest < TRANSACTION_ID_START"
    and "get_chunk_info i r = Some (VECTOR_INFO c)" "Suc i * DEFAULT_VECTOR_CAPACITY \<le> count"
    and "\<forall>j<DEFAULT_VECTOR_CAPACITY. inserted c ! j \<le> lowest"
    and "\<forall>j<DEFAULT_VECTOR_CAPACITY. deleted c ! j = NOT_DELETED_ID \<or> deleted c ! j \<le> lowest"
    and "k < DEFAULT_VECTOR_CAPACITY" "deleted c ! k = NOT_DELETED_ID" and "j < DEFAULT_VECTOR_CAPACITY"
  shows "rvm_fetch reader (i * DEFAULT_VECTOR_CAPACITY + j) (cleanup_append lowest 0 count r)"
proof -
  have live: "live_rows count i = DEFAULT_VECTOR_CAPACITY" using assms(5) by (simp add: live_rows_def)
  then have "cv_wf DEFAULT_VECTOR_CAPACITY c" using rvm_wfD [OF assms(1), of i] assms(4) by simp
  then have "cv_cleanup lowest c = (True, None)"
    using cv_cleanup_partial [of c lowest k] assms(3,6-9) by blast
  then have "get_chunk_info i (cleanup_append lowest 0 count r) = None"
    using live assms(4) by (simp add: get_chunk_info_cleanup [OF assms(2)] cleanup_slot_def)
  then show ?thesis using assms(10) by (simp add: rvm_fetch_def)
qed

theorem cleanup_resurrects_deleted_rows_witness:
  "\<not> rvm_fetch reader9 1 deleted_row_group \<and>
   rvm_fetch reader9 1 (cleanup_append 9 0 1024 deleted_row_group)"
proof
  have vis: "use_inserted_version reader9 3"
    by (simp add: reader9_def transaction_data_of_def use_inserted_version_def TRANSACTION_ID_START_def
        binary_search_iff)
  show "\<not> rvm_fetch reader9 1 deleted_row_group"
    by (simp only: rvm_fetch_sees [OF reader9_facts(1)] sees_def deleted_row_group_facts(2) vis simp_thms)
  have "rvm_fetch reader9 (0 * DEFAULT_VECTOR_CAPACITY + 1) (cleanup_append 9 0 1024 deleted_row_group)"
    by (rule cleanup_resurrects_deleted_rows [OF deleted_row_group_facts(1), where k = 0])
      (auto simp: get_chunk_info_def deleted_row_group_def DEFAULT_VECTOR_CAPACITY_def
        TRANSACTION_ID_START_def nth_list_update)
  then show "rvm_fetch reader9 1 (cleanup_append 9 0 1024 deleted_row_group)" by simp
qed

text \<open>
  C16. The bound VACUUM passes to \<open>cleanup_append\<close> is not visible to all. There is a reachable state
  with a commit id that is allocated but not published, at or below \<open>lowest_active_start_time\<close>, and
  an active transaction that must not see it; cleaning up a vector that commit id inserted makes its
  rows visible to that transaction before the publish.
\<close>

theorem vacuum_bound_exposes_in_flight:
  "\<exists>m A P c t. mgr_reach (m, A, P) \<and> c \<in> A - P \<and> map_of (active m) 2 = Some t \<and>
     c \<le> lowest_active_start_time m \<and> \<not> use_inserted_version (data t) c \<and>
     (let r = rvm_new 0\<lparr>vector_info := [Some (CONSTANT_INFO
                 (chunk_constant_info_new 0\<lparr>cc_insert_id := c\<rparr>))]\<rparr>
      in \<not> rvm_fetch (data t) 0 r \<and>
         rvm_fetch (data t) 0 (cleanup_append (lowest_active_start_time m) 0 1024 r))"
proof -
  have r3: "mgr_reach (run3, {2}, {})"
    using reach_step [OF run_reach(2) step_begin [OF run_facts(3)]] by (simp add: run3_def)
  obtain t where t: "map_of (active run3) 2 = Some t" "t_snapshot_horizon t = 0" "t_in_flight_snapshot t = [2]"
    "t_transaction_id t = TRANSACTION_ID_START + 1"
    by (simp add: run_eval set_insert_def insort_insert_key_def)
  have low: "lowest_active_start_time run3 = 3"
    by (simp add: run_eval lowest_active_start_time_def set_insert_def insort_insert_key_def set_erase_def)
  have inv: "\<not> use_inserted_version (data t) 2"
    by (simp add: use_inserted_version_def t TRANSACTION_ID_START_def)
  let ?r = "rvm_new 0\<lparr>vector_info := [Some (CONSTANT_INFO (chunk_constant_info_new 0\<lparr>cc_insert_id := 2\<rparr>))]\<rparr>"
  have before: "\<not> rvm_fetch (data t) 0 ?r"
    using inv by (simp add: rvm_fetch_def get_chunk_info_def cc_fetch_def)
  have "get_chunk_info 0 (cleanup_append 3 0 1024 ?r) = None"
    by (subst get_chunk_info_cleanup) (simp_all add: live_rows_def DEFAULT_VECTOR_CAPACITY_def cleanup_slot_def
        get_chunk_info_def cc_cleanup_def chunk_constant_info_new_def)
  then have "rvm_fetch (data t) 0 (cleanup_append (lowest_active_start_time run3) 0 1024 ?r)"
    by (simp add: rvm_fetch_def low)
  with before inv r3 t(1) low show ?thesis
    by (intro exI [of _ run3] exI [of _ "{2}"] exI [of _ "{}"] exI [of _ 2] exI [of _ t]) simp
qed

end
