(* ===== verification/Dispatcher_Txn.thy ===== *)
theory Dispatcher_Txn
  imports Mvcc
begin

text \<open>
  The transaction mailbox of the dispatcher (\<open>services/dispatcher/dispatcher.cpp\<close> and
  \<open>txn_messages.hpp\<close>) and the garbage collection of dropped storages it drives
  (\<open>services/disk/manager_disk.cpp\<close>, \<open>agent_disk.cpp\<close>, \<open>services/index/manager_index.cpp\<close>).

  A handler is a function from the dispatcher state to its reply, the new state and the messages it
  sends. The dispatcher runs one handler at a time, so a run is a sequence of handlers; each handler
  is simulated by steps of the transaction manager (\<open>handler_steps\<close>), so what is proved of every
  interleaving of manager steps holds of every sequence of messages.
\<close>

section \<open>State and messages\<close>

record txn_session_context =
  sc_txn :: transaction_data
  sc_session_tz :: int
  sc_is_explicit :: bool
  sc_lowest_active_start_time :: nat

record txn_commit_drain =
  cd_commit_id :: nat
  cd_txn :: transaction_data
  cd_swap_appends :: "pg_catalog_append_range list"
  cd_swap_deletes :: "oid list"
  cd_swap_backfills :: "pg_attribute_commit_id_backfill list"
  cd_base_appends :: "pg_catalog_append_range list"
  cd_base_delete_tables :: "oid list"
  cd_dropped_storage_oids :: "oid list"
  cd_created_storage_oids :: "oid list"
  cd_created_indexes :: "created_index list"

record txn_abort_drain =
  ad_txn :: transaction_data
  ad_swap_appends :: "pg_catalog_append_range list"
  ad_base_append_tables :: "oid list"
  ad_base_delete_tables :: "oid list"
  ad_pg_catalog_delete_tables :: "oid list"
  ad_dropped_storage_oids :: "oid list"
  ad_created_storage_oids :: "oid list"
  ad_created_indexes :: "created_index list"

record txn_accumulate_payload =
  ap_base_appends :: "dml_append_range list"
  ap_base_deletes :: "dml_delete_range list"
  ap_pg_catalog_appends :: "pg_catalog_append_range list"
  ap_pg_catalog_delete_tables :: "oid list"
  ap_backfills :: "pg_attribute_commit_id_backfill list"
  ap_dropped_storage_oids :: "oid list"
  ap_created_storage_oids :: "oid list"
  ap_created_indexes :: "created_index list"

text \<open>The dispatcher; an address that is not wired is \<open>False\<close>.\<close>

record dispatcher =
  txn_mgr :: txn_manager
  default_tz :: int
  disk_wired :: bool
  index_wired :: bool
  disk_has_dropped :: bool
  index_has_dropped :: bool
  last_broadcast_horizon :: nat

text \<open>The constructor, and \<open>sync\<close>, which wires the addresses; spawning the executors is left out.\<close>

definition dispatcher_new :: "int \<Rightarrow> dispatcher" where
  "dispatcher_new tz = \<lparr>txn_mgr = manager_init, default_tz = tz, disk_wired = False, index_wired = False,
     disk_has_dropped = False, index_has_dropped = False, last_broadcast_horizon = 0\<rparr>"

definition dispatcher_sync :: "bool \<Rightarrow> bool \<Rightarrow> dispatcher \<Rightarrow> dispatcher" where
  "dispatcher_sync disk index d = d\<lparr>disk_wired := disk, index_wired := index\<rparr>"

datatype gc_message = Disk_on_horizon_advanced nat | Index_on_horizon_advanced nat

definition DISK_KIND :: nat where "DISK_KIND = 1"

definition INDEX_KIND :: nat where "INDEX_KIND = 2"

definition try_trigger_cleanup :: "dispatcher \<Rightarrow> dispatcher \<times> gc_message list" where
  "try_trigger_cleanup d =
     (let new_lowest = lowest_active_snapshot_horizon (txn_mgr d) in
      if new_lowest > last_broadcast_horizon d then
        (d\<lparr>last_broadcast_horizon := new_lowest\<rparr>,
         (if disk_has_dropped d \<and> disk_wired d then [Disk_on_horizon_advanced new_lowest] else []) @
         (if index_has_dropped d \<and> index_wired d then [Index_on_horizon_advanced new_lowest] else []))
      else (d, []))"

definition on_drop_resource_marked :: "nat \<Rightarrow> dispatcher \<Rightarrow> dispatcher" where
  "on_drop_resource_marked kind d =
     (if kind = DISK_KIND then d\<lparr>disk_has_dropped := True\<rparr>
      else if kind = INDEX_KIND then d\<lparr>index_has_dropped := True\<rparr> else d)"

definition on_subscriber_empty :: "nat \<Rightarrow> dispatcher \<Rightarrow> dispatcher" where
  "on_subscriber_empty kind d =
     (if kind = DISK_KIND then d\<lparr>disk_has_dropped := False\<rparr>
      else if kind = INDEX_KIND then d\<lparr>index_has_dropped := False\<rparr> else d)"

definition seed_commit_clock_sync :: "nat \<Rightarrow> dispatcher \<Rightarrow> dispatcher" where
  "seed_commit_clock_sync high_water d =
     (if high_water > 0 then d\<lparr>txn_mgr := restore_commit_clock high_water (txn_mgr d)\<rparr> else d)"

section \<open>Handlers\<close>

definition txn_begin_session_msg :: "nat \<Rightarrow> dispatcher \<Rightarrow> txn_session_context \<times> dispatcher" where
  "txn_begin_session_msg session d =
     (let (txn, m) = begin_transaction session (txn_mgr d)
      in (\<lparr>sc_txn = data txn, sc_session_tz = default_tz d, sc_is_explicit = t_is_explicit txn,
           sc_lowest_active_start_time = lowest_active_start_time m\<rparr>, d\<lparr>txn_mgr := m\<rparr>))"

definition txn_mark_explicit_msg :: "nat \<Rightarrow> dispatcher \<Rightarrow> dispatcher" where
  "txn_mark_explicit_msg session d =
     (let (txn, m) = begin_transaction session (txn_mgr d)
      in d\<lparr>txn_mgr := set_transaction session (mark_explicit txn) m\<rparr>)"

definition empty_commit_drain :: txn_commit_drain where
  "empty_commit_drain =
     \<lparr>cd_commit_id = 0, cd_txn = transaction_data_of 0 0, cd_swap_appends = [], cd_swap_deletes = [],
      cd_swap_backfills = [], cd_base_appends = [], cd_base_delete_tables = [],
      cd_dropped_storage_oids = [], cd_created_storage_oids = [], cd_created_indexes = []\<rparr>"

definition to_append_range :: "dml_append_range \<Rightarrow> pg_catalog_append_range" where
  "to_append_range r = \<lparr>pr_table_oid = ar_table_oid r, pr_start_row = ar_row_start r, pr_count = ar_row_count r\<rparr>"

text \<open>Draining the body in the order of the handler.\<close>

definition drain_for_commit :: "transaction \<Rightarrow> txn_commit_drain \<times> transaction" where
  "drain_for_commit t0 =
     (let snap = data t0;
          ((swap_appends, swap_deletes), t) = drain_pg_catalog_pending t0;
          (backfills, t) = drain_backfills t;
          (appends, t) = drain_base_appends t;
          (deletes, t) = drain_base_deletes t;
          (dropped, t) = drain_dropped_storages t;
          (created, t) = drain_created_storages t;
          (indexes, t) = drain_created_indexes t
      in (empty_commit_drain\<lparr>cd_txn := snap, cd_swap_appends := swap_appends, cd_swap_deletes := swap_deletes,
            cd_swap_backfills := backfills, cd_base_appends := map to_append_range appends,
            cd_base_delete_tables := fold (\<lambda>r. set_insert (dr_table_oid r)) deletes [],
            cd_dropped_storage_oids := dropped, cd_created_storage_oids := created,
            cd_created_indexes := indexes\<rparr>, t))"

definition txn_commit_drain_msg ::
  "nat \<Rightarrow> dispatcher \<Rightarrow> txn_commit_drain \<times> dispatcher \<times> gc_message list" where
  "txn_commit_drain_msg session d =
     (case find_transaction session (txn_mgr d) of
        None \<Rightarrow> (let (commit_id, m) = commit session (txn_mgr d)
                 in (empty_commit_drain\<lparr>cd_commit_id := commit_id\<rparr>, d\<lparr>txn_mgr := m\<rparr>, []))
      | Some t \<Rightarrow>
         (if \<not> has_accumulated t then
            (let (d', msgs) = try_trigger_cleanup (d\<lparr>txn_mgr := abort_txn session (txn_mgr d)\<rparr>)
             in (empty_commit_drain, d', msgs))
          else
            (let (out, t') = drain_for_commit t;
                 (commit_id, m) = commit session (set_transaction session t' (txn_mgr d))
             in (out\<lparr>cd_commit_id := commit_id\<rparr>, d\<lparr>txn_mgr := m\<rparr>, []))))"

definition empty_abort_drain :: txn_abort_drain where
  "empty_abort_drain =
     \<lparr>ad_txn = transaction_data_of 0 0, ad_swap_appends = [], ad_base_append_tables = [],
      ad_base_delete_tables = [], ad_pg_catalog_delete_tables = [], ad_dropped_storage_oids = [],
      ad_created_storage_oids = [], ad_created_indexes = []\<rparr>"

definition drain_for_abort :: "transaction \<Rightarrow> txn_abort_drain \<times> transaction" where
  "drain_for_abort t0 =
     (let snap = data t0;
          ((swap_appends, delete_tables), t) = drain_pg_catalog_pending t0;
          (backfills_discarded, t) = drain_backfills t;
          (appends, t) = drain_base_appends t;
          (deletes, t) = drain_base_deletes t;
          (dropped, t) = drain_dropped_storages t;
          (created, t) = drain_created_storages t;
          (indexes, t) = drain_created_indexes t
      in (\<lparr>ad_txn = snap, ad_swap_appends = swap_appends,
           ad_base_append_tables = fold (\<lambda>r. set_insert (ar_table_oid r)) appends [],
           ad_base_delete_tables = fold (\<lambda>r. set_insert (dr_table_oid r)) deletes [],
           ad_pg_catalog_delete_tables = delete_tables, ad_dropped_storage_oids = dropped,
           ad_created_storage_oids = created, ad_created_indexes = indexes\<rparr>, t))"

definition txn_abort_drain_msg ::
  "nat \<Rightarrow> dispatcher \<Rightarrow> txn_abort_drain \<times> dispatcher \<times> gc_message list" where
  "txn_abort_drain_msg session d =
     (let (out, m) = (case find_transaction session (txn_mgr d) of
             None \<Rightarrow> (empty_abort_drain, txn_mgr d)
           | Some t \<Rightarrow> (let (out, t') = drain_for_abort t in (out, set_transaction session t' (txn_mgr d))));
          (d', msgs) = try_trigger_cleanup (d\<lparr>txn_mgr := abort_txn session m\<rparr>)
      in (out, d', msgs))"

definition accumulate_payload :: "txn_accumulate_payload \<Rightarrow> transaction \<Rightarrow> transaction" where
  "accumulate_payload p t0 =
     (let t = fold accumulate_base_append (ap_base_appends p) t0;
          t = fold accumulate_base_delete (ap_base_deletes p) t;
          t = accumulate_pg_catalog_pending (ap_pg_catalog_appends p) (ap_pg_catalog_delete_tables p) t;
          t = accumulate_backfills (ap_backfills p) t;
          t = fold accumulate_dropped_storage (ap_dropped_storage_oids p) t;
          t = fold accumulate_created_storage (ap_created_storage_oids p) t
      in fold accumulate_created_index (ap_created_indexes p) t)"

definition txn_accumulate_msg :: "nat \<Rightarrow> txn_accumulate_payload \<Rightarrow> dispatcher \<Rightarrow> dispatcher" where
  "txn_accumulate_msg session p d =
     (case find_transaction session (txn_mgr d) of None \<Rightarrow> d
      | Some t \<Rightarrow> d\<lparr>txn_mgr := set_transaction session (accumulate_payload p t) (txn_mgr d)\<rparr>)"

definition txn_abort_msg :: "nat \<Rightarrow> dispatcher \<Rightarrow> dispatcher \<times> gc_message list" where
  "txn_abort_msg session d = try_trigger_cleanup (d\<lparr>txn_mgr := abort_txn session (txn_mgr d)\<rparr>)"

definition txn_publish_msg :: "nat \<Rightarrow> dispatcher \<Rightarrow> nat \<times> dispatcher \<times> gc_message list" where
  "txn_publish_msg commit_id d =
     (let (d', msgs) = try_trigger_cleanup (d\<lparr>txn_mgr := publish commit_id (txn_mgr d)\<rparr>)
      in (compact_watermark (txn_mgr d'), d', msgs))"

definition txn_compact_watermark_msg :: "dispatcher \<Rightarrow> nat" where
  "txn_compact_watermark_msg d = compact_watermark (txn_mgr d)"

section \<open>Garbage collection of dropped storages\<close>

record dropped_storage_entry =
  ds_oid :: oid
  dropped_at_commit_id :: nat
  ds_path :: string
  ds_sidecar_paths :: "string list"

text \<open>The sweep of one disk agent: the entries kept, the files removed and whether the agent acks
  \<open>on_subscriber_empty\<close>, which needs a wired dispatcher address.\<close>

definition on_horizon_advanced_inner ::
  "bool \<Rightarrow> nat \<Rightarrow> dropped_storage_entry list \<Rightarrow> dropped_storage_entry list \<times> string list \<times> bool" where
  "on_horizon_advanced_inner dispatcher_wired new_horizon entries =
     (let kept = filter (\<lambda>e. \<not> dropped_at_commit_id e < new_horizon) entries;
          removed = concat (map (\<lambda>e. ds_path e # ds_sidecar_paths e)
                     (filter (\<lambda>e. dropped_at_commit_id e < new_horizon) entries))
      in (kept, removed, kept = [] \<and> dispatcher_wired))"

definition storage_dropped_committed_inner ::
  "nat \<Rightarrow> nat \<Rightarrow> dropped_storage_entry list \<Rightarrow> dropped_storage_entry list" where
  "storage_dropped_committed_inner txn_id commit_id entries =
     map (\<lambda>e. if dropped_at_commit_id e = txn_id then e\<lparr>dropped_at_commit_id := commit_id\<rparr> else e) entries"

definition storage_drop_aborted_inner :: "nat \<Rightarrow> dropped_storage_entry list \<Rightarrow> dropped_storage_entry list" where
  "storage_drop_aborted_inner txn_id entries = filter (\<lambda>e. dropped_at_commit_id e \<noteq> txn_id) entries"

definition register_dropped_storage_inner ::
  "oid \<Rightarrow> nat \<Rightarrow> string \<Rightarrow> string list \<Rightarrow> dropped_storage_entry list \<Rightarrow> dropped_storage_entry list" where
  "register_dropped_storage_inner oid at path sidecars entries =
     entries @ [\<lparr>ds_oid = oid, dropped_at_commit_id = at, ds_path = path, ds_sidecar_paths = sidecars\<rparr>]"

text \<open>Marking a DROP: the agent derives the sidecars from the path of the still-live storage, which it
  looks up in \<open>storages_\<close> (the argument \<open>otbx_path\<close>).\<close>

definition mark_storage_dropped_one_local ::
  "(oid \<Rightarrow> string option) \<Rightarrow> nat \<Rightarrow> oid \<Rightarrow> dropped_storage_entry list \<Rightarrow> dropped_storage_entry list" where
  "mark_storage_dropped_one_local otbx_path at oid entries =
     (let path = (case otbx_path oid of None \<Rightarrow> [] | Some p \<Rightarrow> p)
      in register_dropped_storage_inner oid at path
           (if path = [] then [] else [path @ ''.wal_id'', path @ ''.prev'']) entries)"

definition FIRST_USER_OID :: nat where "FIRST_USER_OID = 16384"

definition pool_idx_for_oid :: "oid \<Rightarrow> nat \<Rightarrow> nat" where
  "pool_idx_for_oid oid pool_size =
     (if pool_size = 0 then 0 else if oid < FIRST_USER_OID then 0 else if pool_size = 1 then 0
      else 1 + oid mod (pool_size - 1))"

definition mark_storage_dropped_many ::
  "(oid \<Rightarrow> string option) \<Rightarrow> oid list \<Rightarrow> nat \<Rightarrow> dropped_storage_entry list list \<Rightarrow>
   dropped_storage_entry list list" where
  "mark_storage_dropped_many otbx_path oids at agents =
     map (\<lambda>(i, entries). fold (mark_storage_dropped_one_local otbx_path at)
            (filter (\<lambda>oid. pool_idx_for_oid oid (length agents) = i) oids) entries)
       (enumerate 0 agents)"

text \<open>The disk manager forwards to every agent; with a wired dispatcher the number of acks is the number
  of empty slices.\<close>

definition disk_on_horizon_advanced ::
  "bool \<Rightarrow> nat \<Rightarrow> dropped_storage_entry list list \<Rightarrow> dropped_storage_entry list list \<times> string list \<times> nat" where
  "disk_on_horizon_advanced dispatcher_wired new_horizon agents =
     (let res = map (on_horizon_advanced_inner dispatcher_wired new_horizon) agents
      in (map fst res, concat (map (fst \<circ> snd) res), length (filter (snd \<circ> snd) res)))"

definition disk_dropped_committed ::
  "nat \<Rightarrow> nat \<Rightarrow> dropped_storage_entry list list \<Rightarrow> dropped_storage_entry list list" where
  "disk_dropped_committed txn_id commit_id agents =
     map (storage_dropped_committed_inner txn_id commit_id) agents"

definition disk_drop_aborted :: "nat \<Rightarrow> dropped_storage_entry list list \<Rightarrow> dropped_storage_entry list list" where
  "disk_drop_aborted txn_id agents = map (storage_drop_aborted_inner txn_id) agents"

text \<open>The index manager: dropped tables by oid, the engines it owns and the bound disk agents.\<close>

record index_gc =
  dropped_table_agents :: "(oid \<times> nat) list"
  engines :: "oid list"
  disk_agents_per_oid :: "(oid \<times> nat list) list"
  index_dispatcher_wired :: bool

definition mark_table_dropped :: "oid \<Rightarrow> nat \<Rightarrow> index_gc \<Rightarrow> index_gc" where
  "mark_table_dropped oid at g = g\<lparr>dropped_table_agents := AList.update oid at (dropped_table_agents g)\<rparr>"

definition table_dropped_committed :: "nat \<Rightarrow> nat \<Rightarrow> index_gc \<Rightarrow> index_gc" where
  "table_dropped_committed txn_id commit_id g =
     g\<lparr>dropped_table_agents := map (\<lambda>(oid, at). (oid, if at = txn_id then commit_id else at)) (dropped_table_agents g)\<rparr>"

definition table_drop_aborted :: "nat \<Rightarrow> index_gc \<Rightarrow> index_gc" where
  "table_drop_aborted txn_id g =
     g\<lparr>dropped_table_agents := filter (\<lambda>(oid, at). at \<noteq> txn_id) (dropped_table_agents g)\<rparr>"

text \<open>The sweep: the state, the disk agents told to drop and whether the manager acks.\<close>

definition index_on_horizon_advanced :: "nat \<Rightarrow> index_gc \<Rightarrow> index_gc \<times> nat list \<times> bool" where
  "index_on_horizon_advanced new_horizon g =
     (let gone = map fst (filter (\<lambda>(oid, at). at < new_horizon) (dropped_table_agents g));
          kept = filter (\<lambda>(oid, at). \<not> at < new_horizon) (dropped_table_agents g);
          told = concat (map (\<lambda>oid. case map_of (disk_agents_per_oid g) oid of None \<Rightarrow> [] | Some as \<Rightarrow> as) gone)
      in (g\<lparr>dropped_table_agents := kept,
            engines := filter (\<lambda>e. e \<notin> set gone) (engines g),
            disk_agents_per_oid := filter (\<lambda>(oid, as). oid \<notin> set gone) (disk_agents_per_oid g)\<rparr>,
          told, kept = [] \<and> index_dispatcher_wired g))"

section \<open>Handlers are steps of the transaction manager\<close>

lemma txn_mgr_cleanup [simp]: "txn_mgr (fst (try_trigger_cleanup d)) = txn_mgr d"
  by (simp add: try_trigger_cleanup_def Let_def)

lemma cleanup_mgr: "try_trigger_cleanup d = (d', msgs) \<Longrightarrow> txn_mgr d' = txn_mgr d"
  by (metis fst_conv txn_mgr_cleanup)

lemma data_drain_for_commit: "data (snd (drain_for_commit t)) = data t"
  by (simp add: drain_for_commit_def txn_drain_defs Let_def data_def)

lemma data_drain_for_abort: "data (snd (drain_for_abort t)) = data t"
  by (simp add: drain_for_abort_def txn_drain_defs Let_def data_def)

lemma data_accumulate_payload: "data (accumulate_payload p t) = data t"
  unfolding accumulate_payload_def Let_def created_index_acc.data_fold_acc created_storages.data_fold_acc
    dropped_storages.data_fold_acc
  by (simp add: accumulate_backfills_def accumulate_pg_catalog_pending_def data_def)
    (metis base_appends.data_fold_acc base_deletes.data_fold_acc data_def transaction_data.ext_inject)

text \<open>One message processed by the dispatcher, with the ghost sets of the manager.\<close>

inductive disp_step :: "dispatcher \<times> nat set \<times> nat set \<Rightarrow> dispatcher \<times> nat set \<times> nat set \<Rightarrow> bool" where
  disp_begin: "clock_room (txn_mgr d) \<Longrightarrow>
     disp_step (d, A, P) (snd (txn_begin_session_msg s d), A, P)"
| disp_explicit: "clock_room (txn_mgr d) \<Longrightarrow> disp_step (d, A, P) (txn_mark_explicit_msg s d, A, P)"
| disp_accumulate: "disp_step (d, A, P) (txn_accumulate_msg s p d, A, P)"
| disp_commit_drain: "clock_room (txn_mgr d) \<Longrightarrow> txn_commit_drain_msg s d = (out, d', msgs) \<Longrightarrow>
     disp_step (d, A, P) (d', if cd_commit_id out = 0 then A else insert (cd_commit_id out) A, P)"
| disp_abort_drain: "txn_abort_drain_msg s d = (out', d', msgs) \<Longrightarrow> disp_step (d, A, P) (d', A, P)"
| disp_abort: "disp_step (d, A, P) (fst (txn_abort_msg s d), A, P)"
| disp_publish: "c \<in> set (in_flight_commits (txn_mgr d)) \<Longrightarrow> txn_publish_msg c d = (w, d', msgs) \<Longrightarrow>
     disp_step (d, A, P) (d', A, insert c P)"
| disp_marked: "disp_step (d, A, P) (on_drop_resource_marked k d, A, P)"
| disp_empty: "disp_step (d, A, P) (on_subscriber_empty k d, A, P)"

lemma step1: "mgr_step x y \<Longrightarrow> mgr_step\<^sup>*\<^sup>* x y"
  by (rule r_into_rtranclp)

lemma mark_explicit_steps:
  assumes "clock_room m"
  shows "mgr_step\<^sup>*\<^sup>* (m, A, P) (set_transaction s (mark_explicit (fst (begin_transaction s m))) (snd (begin_transaction s m)), A, P)"
proof -
  have "map_of (active (snd (begin_transaction s m))) s = Some (fst (begin_transaction s m))"
    using assms by (cases "map_of (active m) s") (simp_all add: begin_existing begin_fresh update_conv')
  then have "mgr_step (snd (begin_transaction s m), A, P)
      (set_transaction s (mark_explicit (fst (begin_transaction s m))) (snd (begin_transaction s m)), A, P)"
    by (rule step_body) (simp add: mark_explicit_def data_def)
  with step_begin [OF assms] show ?thesis by (meson converse_rtranclp_into_rtranclp step1)
qed

lemma find_set_transaction: "map_of (active (set_transaction s t m)) s = Some t"
  by (simp add: set_transaction_def update_conv')

lemma clock_set_transaction [simp]: "clock_room (set_transaction s t m) = clock_room m"
  "current_timestamp (set_transaction s t m) = current_timestamp m"
  by (simp_all add: clock_room_def set_transaction_def)

lemma commit_drain_steps:
  assumes room: "clock_room (txn_mgr d)" and pos: "0 < current_timestamp (txn_mgr d)"
    and msg: "txn_commit_drain_msg s d = (out, d', msgs)"
  shows "mgr_step\<^sup>*\<^sup>* (txn_mgr d, A, P)
    (txn_mgr d', if cd_commit_id out = 0 then A else insert (cd_commit_id out) A, P)"
proof (cases "map_of (active (txn_mgr d)) s")
  case None
  then have "out = empty_commit_drain\<lparr>cd_commit_id := 0\<rparr>" "txn_mgr d' = txn_mgr d"
    using msg by (auto simp: txn_commit_drain_msg_def find_transaction_def commit_def)
  then show ?thesis by simp
next
  case (Some t)
  show ?thesis
  proof (cases "has_accumulated t")
    case False
    then have "out = empty_commit_drain" "txn_mgr d' = abort_txn s (txn_mgr d)"
      using msg Some by (auto simp: txn_commit_drain_msg_def find_transaction_def split: prod.splits
          dest!: cleanup_mgr)
    then show ?thesis using step1 [OF step_abort] by (simp add: empty_commit_drain_def)
  next
    case True
    let ?t = "snd (drain_for_commit t)"
    let ?m = "set_transaction s ?t (txn_mgr d)"
    have t: "map_of (active ?m) s = Some ?t" by (rule find_set_transaction)
    have "cd_commit_id out = fst (commit s ?m)" "txn_mgr d' = snd (commit s ?m)"
      using msg Some True by (auto simp: txn_commit_drain_msg_def find_transaction_def split: prod.splits)
    moreover have "fst (commit s ?m) \<noteq> 0"
      using commit_active [OF t] room pos by simp
    moreover have "mgr_step (txn_mgr d, A, P) (?m, A, P)"
      by (rule step_body [OF Some data_drain_for_commit])
    moreover have "mgr_step (?m, A, P) (snd (commit s ?m), insert (fst (commit s ?m)) A, P)"
      by (rule step_commit [OF _ t]) (simp add: room)
    ultimately show ?thesis by (simp add: converse_rtranclp_into_rtranclp step1)
  qed
qed

lemma abort_drain_steps:
  assumes "txn_abort_drain_msg s d = (out, d', msgs)"
  shows "mgr_step\<^sup>*\<^sup>* (txn_mgr d, A, P) (txn_mgr d', A, P)"
proof (cases "map_of (active (txn_mgr d)) s")
  case None
  have "txn_mgr d' = abort_txn s (txn_mgr d)"
    using assms None
    by (auto simp: txn_abort_drain_msg_def find_transaction_def Let_def split: prod.splits dest!: cleanup_mgr)
  then show ?thesis using step1 [OF step_abort] by simp
next
  case (Some t)
  let ?m = "set_transaction s (snd (drain_for_abort t)) (txn_mgr d)"
  have "txn_mgr d' = abort_txn s ?m"
    using assms Some
    by (auto simp: txn_abort_drain_msg_def find_transaction_def Let_def split: prod.splits dest!: cleanup_mgr)
  moreover have "mgr_step (txn_mgr d, A, P) (?m, A, P)"
    by (rule step_body [OF Some data_drain_for_abort])
  moreover have "mgr_step (?m, A, P) (abort_txn s ?m, A, P)" by (rule step_abort)
  ultimately show ?thesis by (simp add: converse_rtranclp_into_rtranclp step1)
qed

lemma handler_steps:
  assumes "disp_step (d, A, P) (d', A', P')" and "0 < current_timestamp (txn_mgr d)"
  shows "mgr_step\<^sup>*\<^sup>* (txn_mgr d, A, P) (txn_mgr d', A', P')"
  using assms
proof (cases rule: disp_step.cases)
  case (disp_begin s)
  then show ?thesis using step1 [OF step_begin, of "txn_mgr d" A P s]
    by (simp add: txn_begin_session_msg_def split: prod.splits)
next
  case (disp_explicit s)
  then show ?thesis using mark_explicit_steps [of "txn_mgr d" A P s]
    by (simp add: txn_mark_explicit_msg_def split: prod.splits)
next
  case (disp_accumulate s p)
  then show ?thesis
    using step1 [OF step_body [OF _ data_accumulate_payload]]
    by (auto simp: txn_accumulate_msg_def find_transaction_def split: option.split)
next
  case (disp_commit_drain s out msgs)
  then show ?thesis using commit_drain_steps [OF _ assms(2)] by blast
next
  case (disp_abort_drain s out msgs)
  then show ?thesis using abort_drain_steps by blast
next
  case (disp_abort s)
  then show ?thesis using step1 [OF step_abort] by (simp add: txn_abort_msg_def)
next
  case (disp_publish c w msgs)
  then have "txn_mgr d' = publish c (txn_mgr d)"
    by (auto simp: txn_publish_msg_def split: prod.splits dest!: cleanup_mgr)
  then show ?thesis using step1 [OF step_publish] disp_publish by simp
qed (auto simp: on_drop_resource_marked_def on_subscriber_empty_def)

section \<open>What the drains return\<close>

lemma fold_set_insert: "set (fold (\<lambda>r. set_insert (f r)) rs s) = f ` set rs \<union> set s"
  by (induction rs arbitrary: s) auto

lemma fold_accumulate_fields:
  "fold accumulate_base_append xs t = t\<lparr>pending_base_appends := pending_base_appends t @ xs\<rparr>"
  "fold accumulate_base_delete ys t = t\<lparr>pending_base_deletes := pending_base_deletes t @ ys\<rparr>"
  "fold accumulate_dropped_storage os t = t\<lparr>dropped_storage_oids := dropped_storage_oids t @ os\<rparr>"
  "fold accumulate_created_storage os t = t\<lparr>created_storage_oids := created_storage_oids t @ os\<rparr>"
  "fold accumulate_created_index is t = t\<lparr>created_indexes := created_indexes t @ is\<rparr>"
  subgoal by (induction xs arbitrary: t) (simp_all add: accumulate_base_append_def)
  subgoal by (induction ys arbitrary: t) (simp_all add: accumulate_base_delete_def)
  subgoal by (induction os arbitrary: t) (simp_all add: accumulate_dropped_storage_def)
  subgoal by (induction os arbitrary: t) (simp_all add: accumulate_created_storage_def)
  subgoal by (induction "is" arbitrary: t) (simp_all add: accumulate_created_index_def)
  done

lemma accumulate_payload_eq:
  "accumulate_payload p t = t\<lparr>
     pending_base_appends := pending_base_appends t @ ap_base_appends p,
     pending_base_deletes := pending_base_deletes t @ ap_base_deletes p,
     dropped_storage_oids := dropped_storage_oids t @ ap_dropped_storage_oids p,
     created_storage_oids := created_storage_oids t @ ap_created_storage_oids p,
     created_indexes := created_indexes t @ ap_created_indexes p,
     pg_catalog_appends := pg_catalog_appends t @ ap_pg_catalog_appends p,
     pg_catalog_delete_tables := fold set_insert (ap_pg_catalog_delete_tables p) (pg_catalog_delete_tables t),
     pg_attribute_commit_id_backfills := pg_attribute_commit_id_backfills t @ ap_backfills p\<rparr>"
  by (simp add: accumulate_payload_def Let_def fold_accumulate_fields accumulate_pg_catalog_pending_def
      accumulate_backfills_def)

definition accumulated :: "txn_accumulate_payload list \<Rightarrow> transaction \<Rightarrow> transaction" where
  "accumulated ps t = fold accumulate_payload ps t"

lemma accumulated_fields:
  "pending_base_appends (accumulated ps t) = pending_base_appends t @ concat (map ap_base_appends ps)"
  "pending_base_deletes (accumulated ps t) = pending_base_deletes t @ concat (map ap_base_deletes ps)"
  "dropped_storage_oids (accumulated ps t) = dropped_storage_oids t @ concat (map ap_dropped_storage_oids ps)"
  "created_storage_oids (accumulated ps t) = created_storage_oids t @ concat (map ap_created_storage_oids ps)"
  "created_indexes (accumulated ps t) = created_indexes t @ concat (map ap_created_indexes ps)"
  "pg_catalog_appends (accumulated ps t) = pg_catalog_appends t @ concat (map ap_pg_catalog_appends ps)"
  "set (pg_catalog_delete_tables (accumulated ps t)) =
     set (pg_catalog_delete_tables t) \<union> (\<Union>p \<in> set ps. set (ap_pg_catalog_delete_tables p))"
  "pg_attribute_commit_id_backfills (accumulated ps t) =
     pg_attribute_commit_id_backfills t @ concat (map ap_backfills ps)"
  "data (accumulated ps t) = data t"
proof -
  have set_fold: "set (fold set_insert os s) = set os \<union> set s" for os s
    using fold_set_insert [of "\<lambda>x. x" os s] by simp
  show "pending_base_appends (accumulated ps t) = pending_base_appends t @ concat (map ap_base_appends ps)"
    "pending_base_deletes (accumulated ps t) = pending_base_deletes t @ concat (map ap_base_deletes ps)"
    "dropped_storage_oids (accumulated ps t) = dropped_storage_oids t @ concat (map ap_dropped_storage_oids ps)"
    "created_storage_oids (accumulated ps t) = created_storage_oids t @ concat (map ap_created_storage_oids ps)"
    "created_indexes (accumulated ps t) = created_indexes t @ concat (map ap_created_indexes ps)"
    "pg_catalog_appends (accumulated ps t) = pg_catalog_appends t @ concat (map ap_pg_catalog_appends ps)"
    "set (pg_catalog_delete_tables (accumulated ps t)) =
       set (pg_catalog_delete_tables t) \<union> (\<Union>p \<in> set ps. set (ap_pg_catalog_delete_tables p))"
    "pg_attribute_commit_id_backfills (accumulated ps t) =
       pg_attribute_commit_id_backfills t @ concat (map ap_backfills ps)"
    by (induction ps arbitrary: t) (auto simp: accumulated_def accumulate_payload_eq set_fold)
  show "data (accumulated ps t) = data t"
    by (induction ps arbitrary: t) (simp_all add: accumulated_def data_accumulate_payload)
qed

lemma accumulate_msgs:
  assumes "find_transaction s (txn_mgr d) = Some t"
  shows "find_transaction s (txn_mgr (fold (txn_accumulate_msg s) ps d)) = Some (accumulated ps t)"
    and "current_timestamp (txn_mgr (fold (txn_accumulate_msg s) ps d)) = current_timestamp (txn_mgr d)"
    and "clock_room (txn_mgr (fold (txn_accumulate_msg s) ps d)) = clock_room (txn_mgr d)"
  using assms
  by (induction ps arbitrary: d t)
    (simp_all add: accumulated_def txn_accumulate_msg_def find_transaction_def find_set_transaction)

lemma commit_drain_accumulated:
  assumes "find_transaction s (txn_mgr d) = Some t" and "has_accumulated t" and "clock_room (txn_mgr d)"
    and "txn_commit_drain_msg s d = (out, d', msgs)"
  shows "out = (fst (drain_for_commit t))\<lparr>cd_commit_id := current_timestamp (txn_mgr d)\<rparr>"
    and "find_transaction s (txn_mgr d') = None"
    and "current_timestamp (txn_mgr d) \<in> set (in_flight_commits (txn_mgr d'))"
proof -
  let ?m = "set_transaction s (snd (drain_for_commit t)) (txn_mgr d)"
  have c: "commit s ?m = (current_timestamp (txn_mgr d), ?m\<lparr>current_timestamp := current_timestamp ?m + 1,
       active_start_times := set_erase (t_start_time (snd (drain_for_commit t))) (active_start_times ?m),
       active := AList.delete s (active ?m),
       in_flight_commits := set_insert (current_timestamp ?m) (in_flight_commits ?m)\<rparr>)"
    using commit_active [OF find_set_transaction] assms(3) by simp
  have "out = (fst (drain_for_commit t))\<lparr>cd_commit_id := fst (commit s ?m)\<rparr> \<and> txn_mgr d' = snd (commit s ?m)"
    using assms by (auto simp: txn_commit_drain_msg_def split: prod.splits)
  then show "out = (fst (drain_for_commit t))\<lparr>cd_commit_id := current_timestamp (txn_mgr d)\<rparr>"
    "find_transaction s (txn_mgr d') = None"
    "current_timestamp (txn_mgr d) \<in> set (in_flight_commits (txn_mgr d'))"
    by (simp_all add: c find_transaction_def AList.delete_conv')
qed

section \<open>Properties\<close>

text \<open>
  C18. Every sequence of dispatcher messages is a run of the transaction manager: each handler maps
  to zero, one or two atomic steps of the manager, with the commit ids the drains allocate and the
  publishes as the allocated and published sets.
\<close>

theorem dispatcher_refines_manager:
  assumes "mgr_reach (txn_mgr d, A, P)" and "disp_step\<^sup>*\<^sup>* (d, A, P) (d', A', P')"
  shows "mgr_step\<^sup>*\<^sup>* (txn_mgr d, A, P) (txn_mgr d', A', P')"
  using assms(2)
proof (induction "(d', A', P')" arbitrary: d' A' P' rule: rtranclp_induct)
  case base
  then show ?case by simp
next
  case (step y)
  obtain e B Q where y: "y = (e, B, Q)" by (cases y)
  have run: "mgr_step\<^sup>*\<^sup>* (txn_mgr d, A, P) (txn_mgr e, B, Q)" using step.hyps(3) y by simp
  have "mgr_inv (txn_mgr e, B, Q)" using mgr_steps_ids [OF run mgr_reach_inv [OF assms(1)]] by blast
  then have "0 < current_timestamp (txn_mgr e)" using mgr_invD(5) by fastforce
  then show ?case using handler_steps [of e B Q] step.hyps(2) y run by (meson rtranclp_trans)
qed

text \<open>
  C19. COMMIT drains everything a transaction accumulated: after any accumulation messages on a
  transaction with empty accumulators, the commit drain returns all ranges in order, the sets of
  tables, a commit id that is the current clock value, and the session is no longer active while the
  commit id is in flight.
\<close>

theorem commit_drain_complete:
  assumes "find_transaction s (txn_mgr d) = Some t" and "\<not> has_accumulated t" and "clock_room (txn_mgr d)"
    and "has_accumulated (accumulated ps t)"
    and "txn_commit_drain_msg s (fold (txn_accumulate_msg s) ps d) = (out, d', msgs)"
  shows "cd_commit_id out = current_timestamp (txn_mgr d) \<and> cd_txn out = data t \<and>
    cd_base_appends out = map to_append_range (concat (map ap_base_appends ps)) \<and>
    set (cd_base_delete_tables out) = dr_table_oid ` set (concat (map ap_base_deletes ps)) \<and>
    cd_swap_appends out = concat (map ap_pg_catalog_appends ps) \<and>
    set (cd_swap_deletes out) = (\<Union>p \<in> set ps. set (ap_pg_catalog_delete_tables p)) \<and>
    cd_swap_backfills out = concat (map ap_backfills ps) \<and>
    cd_dropped_storage_oids out = concat (map ap_dropped_storage_oids ps) \<and>
    cd_created_storage_oids out = concat (map ap_created_storage_oids ps) \<and>
    cd_created_indexes out = concat (map ap_created_indexes ps) \<and>
    find_transaction s (txn_mgr d') = None \<and> cd_commit_id out \<in> set (in_flight_commits (txn_mgr d'))"
proof -
  note a = accumulate_msgs [OF assms(1), of ps]
  note c = commit_drain_accumulated [OF a(1) assms(4) _ assms(5), unfolded a(2,3), OF assms(3)]
  have e: "pending_base_appends t = []" "pending_base_deletes t = []" "pg_catalog_appends t = []"
    "pg_catalog_delete_tables t = []" "pg_attribute_commit_id_backfills t = []"
    "dropped_storage_oids t = []" "created_storage_oids t = []" "created_indexes t = []"
    using assms(2) by (simp_all add: has_accumulated_def)
  have "fst (drain_for_commit (accumulated ps t)) = empty_commit_drain\<lparr>cd_txn := data t,
      cd_swap_appends := concat (map ap_pg_catalog_appends ps),
      cd_swap_deletes := pg_catalog_delete_tables (accumulated ps t),
      cd_swap_backfills := concat (map ap_backfills ps),
      cd_base_appends := map to_append_range (concat (map ap_base_appends ps)),
      cd_base_delete_tables := fold (\<lambda>r. set_insert (dr_table_oid r)) (concat (map ap_base_deletes ps)) [],
      cd_dropped_storage_oids := concat (map ap_dropped_storage_oids ps),
      cd_created_storage_oids := concat (map ap_created_storage_oids ps),
      cd_created_indexes := concat (map ap_created_indexes ps)\<rparr>"
    by (simp add: drain_for_commit_def txn_drain_defs Let_def accumulated_fields e)
  then show ?thesis
    using c accumulated_fields(7) [of ps t] by (simp add: e fold_set_insert)
qed

text \<open>
  C20. An empty COMMIT is an abort: with nothing accumulated, the drain allocates no commit id,
  leaves the clock, the horizon and the in-flight set alone and ends the transaction.
\<close>

theorem empty_commit_aborts:
  assumes "find_transaction s (txn_mgr d) = Some t" and "\<not> has_accumulated t"
    and "txn_commit_drain_msg s d = (out, d', msgs)"
  shows "out = empty_commit_drain \<and> txn_mgr d' = abort_txn s (txn_mgr d) \<and>
    current_timestamp (txn_mgr d') = current_timestamp (txn_mgr d) \<and>
    published_horizon (txn_mgr d') = published_horizon (txn_mgr d) \<and>
    in_flight_commits (txn_mgr d') = in_flight_commits (txn_mgr d) \<and>
    find_transaction s (txn_mgr d') = None"
proof -
  have m: "out = empty_commit_drain" "txn_mgr d' = abort_txn s (txn_mgr d)"
    using assms by (auto simp: txn_commit_drain_msg_def split: prod.splits dest!: cleanup_mgr)
  have "abort_txn s (txn_mgr d) = (txn_mgr d)\<lparr>
      active_start_times := set_erase (t_start_time t) (active_start_times (txn_mgr d)),
      active := AList.delete s (active (txn_mgr d))\<rparr>"
    using assms(1) by (simp add: abort_txn_def find_transaction_def Let_def mark_aborted_def)
  with m show ?thesis by (simp add: find_transaction_def AList.delete_conv')
qed

lemma lowest_horizon_small:
  assumes "mgr_inv (m, A, P)"
  shows "lowest_active_snapshot_horizon m < TRANSACTION_ID_START"
proof (cases "active m")
  case Nil
  then show ?thesis using mgr_invD(4,5) [OF assms] by (simp add: lowest_active_snapshot_horizon_def)
next
  case (Cons p ps)
  obtain s t where p: "p = (s, t)" by (cases p)
  then have in_active: "(s, t) \<in> set (active m)" using Cons by simp
  have "t_snapshot_horizon t < TRANSACTION_ID_START"
    using mgr_invD(4,5) [OF assms] mgr_invD(12) [OF assms in_active] unfolding snapshot_ok_def by linarith
  moreover have "\<not> TRANSACTION_ID_START \<le> lowest_active_snapshot_horizon m"
    if "\<not> TRANSACTION_ID_START \<le> t_snapshot_horizon t"
    using le_lowest_active_snapshot_horizon [of m TRANSACTION_ID_START] Cons in_active that
    by (auto simp: TRANSACTION_ID_START_def)
  ultimately show ?thesis by linarith
qed

text \<open>
  C21. A pending DROP survives every sweep: an entry stamped with a transaction id is kept by a sweep
  at the horizon the dispatcher broadcasts in any reachable state; after the abort of its
  transaction the entry is gone, after the commit it carries the commit id.
\<close>

theorem pending_drop_survives_sweep:
  assumes "mgr_reach (txn_mgr d, A, P)" and "Disk_on_horizon_advanced h \<in> set (snd (try_trigger_cleanup d))"
    and "e \<in> set entries" and "TRANSACTION_ID_START \<le> dropped_at_commit_id e"
  shows "e \<in> set (fst (on_horizon_advanced_inner wired h entries)) \<and>
    e \<notin> set (storage_drop_aborted_inner (dropped_at_commit_id e) entries) \<and>
    e\<lparr>dropped_at_commit_id := c\<rparr> \<in> set (storage_dropped_committed_inner (dropped_at_commit_id e) c entries)"
proof -
  have "h = lowest_active_snapshot_horizon (txn_mgr d)"
    using assms(2) by (auto simp: try_trigger_cleanup_def Let_def split: if_splits)
  then have "h < TRANSACTION_ID_START" using lowest_horizon_small [OF mgr_reach_inv [OF assms(1)]] by simp
  then have "e \<in> set (fst (on_horizon_advanced_inner wired h entries))"
    using assms(3,4) by (simp add: on_horizon_advanced_inner_def Let_def)
  moreover have "e\<lparr>dropped_at_commit_id := c\<rparr> \<in> set (storage_dropped_committed_inner (dropped_at_commit_id e) c entries)"
    unfolding storage_dropped_committed_inner_def set_map by (rule image_eqI [OF _ assms(3)]) simp
  ultimately show ?thesis by (simp add: storage_drop_aborted_inner_def)
qed

text \<open>
  C22. Without a commit in flight at their begin, the readers are safe from the sweep: a storage whose
  DROP is reclaimed at the broadcast horizon was dropped by a commit that every active transaction
  sees.
\<close>

theorem drop_sweep_safe:
  assumes "mgr_reach (txn_mgr d, A, P)" and "Disk_on_horizon_advanced h \<in> set (snd (try_trigger_cleanup d))"
    and "e \<in> set entries - set (fst (on_horizon_advanced_inner wired h entries))"
    and "(s, t) \<in> set (active (txn_mgr d))" and "t_in_flight_snapshot t = []"
  shows "use_inserted_version (data t) (dropped_at_commit_id e)"
proof -
  note inv = mgr_reach_inv [OF assms(1)]
  let ?h = "lowest_active_snapshot_horizon (txn_mgr d)"
  have "h = ?h" using assms(2) by (auto simp: try_trigger_cleanup_def Let_def split: if_splits)
  then have "dropped_at_commit_id e < ?h" using assms(3) by (auto simp: on_horizon_advanced_inner_def Let_def)
  moreover have "?h \<le> t_snapshot_horizon t"
    using le_lowest_active_snapshot_horizon [of "txn_mgr d" ?h] assms(4) lowest_horizon_small [OF inv]
      TIDS_bounds(1) [of ?h] by fastforce
  moreover have "?h < TRANSACTION_ID_START" by (rule lowest_horizon_small [OF inv])
  ultimately show ?thesis
    using visible_commit_id [of t "dropped_at_commit_id e"] mgr_invD(12) [OF inv assms(4)] assms(5)
    unfolding snapshot_ok_def by simp
qed

text \<open>Commits published out of order: sessions 1 and 2 commit (ids 3 and 4), commit 4 is published,
  session 3 begins with commit 3 still in flight, then commit 3 is published.\<close>

definition gc1 :: txn_manager where "gc1 = snd (begin_transaction 2 (snd (begin_transaction 1 run0)))"
definition gc2 :: txn_manager where "gc2 = snd (commit 2 (snd (commit 1 gc1)))"
definition gc3 :: txn_manager where "gc3 = snd (begin_transaction 3 (publish 4 gc2))"
definition gc4 :: txn_manager where "gc4 = publish 3 gc3"

lemmas gc_eval = gc1_def gc2_def gc3_def gc4_def run_eval set_insert_def insort_insert_key_def set_erase_def

lemma gc_facts:
  "clock_room run0" "clock_room (snd (begin_transaction 1 run0))" "clock_room gc1"
  "\<exists>t. map_of (active gc1) 1 = Some t" "fst (commit 1 gc1) = 3"
  "clock_room (snd (commit 1 gc1))" "\<exists>t. map_of (active (snd (commit 1 gc1))) 2 = Some t"
  "fst (commit 2 (snd (commit 1 gc1))) = 4" "4 \<in> set (in_flight_commits gc2)" "clock_room (publish 4 gc2)"
  "3 \<in> set (in_flight_commits gc3)"
  "lowest_active_snapshot_horizon gc4 = 4"
  "\<exists>t. map_of (active gc4) 3 = Some t \<and> t_snapshot_horizon t = 4 \<and> t_in_flight_snapshot t = [3] \<and>
     t_transaction_id t = TRANSACTION_ID_START + 2"
  by (simp_all add: gc_eval lowest_active_snapshot_horizon_def data_def)

lemma gc_reach: "mgr_reach (gc4, {3, 4}, {3, 4})"
proof -
  have "mgr_reach (snd (begin_transaction 1 run0), {}, {})"
    by (rule reach_step [OF run_reach(1) step_begin [OF gc_facts(1)]])
  then have r1: "mgr_reach (gc1, {}, {})"
    using reach_step [OF _ step_begin [OF gc_facts(2)]] by (simp add: gc1_def)
  obtain t where "map_of (active gc1) 1 = Some t" using gc_facts(4) by blast
  from reach_step [OF r1 step_commit [OF gc_facts(3) this]]
  have r2: "mgr_reach (snd (commit 1 gc1), {3}, {})" unfolding gc_facts(5) .
  obtain t where "map_of (active (snd (commit 1 gc1))) 2 = Some t" using gc_facts(7) by blast
  from reach_step [OF r2 step_commit [OF gc_facts(6) this]]
  have r3: "mgr_reach (gc2, {4, 3}, {})" unfolding gc_facts(8) gc2_def .
  have r4: "mgr_reach (publish 4 gc2, {4, 3}, {4})" by (rule reach_step [OF r3 step_publish [OF gc_facts(9)]])
  then have r5: "mgr_reach (gc3, {4, 3}, {4})"
    using reach_step [OF _ step_begin [OF gc_facts(10)]] by (simp add: gc3_def)
  have "mgr_reach (gc4, {4, 3}, {3, 4})"
    unfolding gc4_def by (rule reach_step [OF r5 step_publish [OF gc_facts(11)]])
  then show ?thesis by (simp add: insert_commute)
qed

text \<open>The same on the dispatcher, from its construction: session 9 begins and stays active, session 1
  drops a table and session 2 appends, both commit (ids 4 and 5), commit 5 is published, session 3 begins
  with commit 4 in flight, then commit 4 is published.\<close>

definition one_append :: txn_accumulate_payload where
  "one_append = \<lparr>ap_base_appends = [\<lparr>ar_table_oid = 16390, ar_row_start = 0, ar_row_count = 3\<rparr>],
     ap_base_deletes = [], ap_pg_catalog_appends = [], ap_pg_catalog_delete_tables = [], ap_backfills = [],
     ap_dropped_storage_oids = [], ap_created_storage_oids = [], ap_created_indexes = []\<rparr>"

definition one_drop :: txn_accumulate_payload where
  "one_drop = \<lparr>ap_base_appends = [], ap_base_deletes = [], ap_pg_catalog_appends = [],
     ap_pg_catalog_delete_tables = [], ap_backfills = [],
     ap_dropped_storage_oids = [16384], ap_created_storage_oids = [], ap_created_indexes = []\<rparr>"

definition dropped_entry :: "nat \<Rightarrow> dropped_storage_entry" where
  "dropped_entry at = \<lparr>ds_oid = 16384, dropped_at_commit_id = at, ds_path = ''t.otbx'', ds_sidecar_paths = []\<rparr>"

definition sw0 :: dispatcher where "sw0 = dispatcher_sync True True (dispatcher_new 0)"
definition sw1 :: dispatcher where "sw1 = snd (txn_begin_session_msg 9 sw0)"
definition sw2 :: dispatcher where "sw2 = snd (txn_begin_session_msg 1 sw1)"
definition sw3 :: dispatcher where "sw3 = snd (txn_begin_session_msg 2 sw2)"
definition sw4 :: dispatcher where "sw4 = on_drop_resource_marked DISK_KIND (txn_accumulate_msg 1 one_drop sw3)"
definition sw5 :: dispatcher where "sw5 = fst (snd (txn_commit_drain_msg 1 sw4))"
definition sw6 :: dispatcher where "sw6 = fst (snd (txn_commit_drain_msg 2 (txn_accumulate_msg 2 one_append sw5)))"
definition sw7 :: dispatcher where "sw7 = fst (snd (txn_publish_msg 5 sw6))"
definition sw8 :: dispatcher where "sw8 = snd (txn_begin_session_msg 3 sw7)"
definition sw9 :: dispatcher where "sw9 = fst (snd (txn_publish_msg 4 sw8))"

lemmas sw_defs = sw0_def sw1_def sw2_def sw3_def sw4_def sw5_def sw6_def sw7_def sw8_def sw9_def
  dispatcher_new_def dispatcher_sync_def manager_init_def

lemmas sw_ops = txn_begin_session_msg_def txn_accumulate_msg_def txn_commit_drain_msg_def
  txn_publish_msg_def on_drop_resource_marked_def try_trigger_cleanup_def accumulate_payload_def
  drain_for_commit_def empty_commit_drain_def has_accumulated_def find_transaction_def set_transaction_def
  one_append_def one_drop_def DISK_KIND_def INDEX_KIND_def txn_drain_defs txn_op_defs
  begin_transaction_def commit_def publish_def transaction_new_def wrap64_def Let_def
  set_insert_def insort_insert_key_def set_erase_def lowest_active_snapshot_horizon_def data_def
  clock_room_def TRANSACTION_ID_START_def NOT_DELETED_ID_def to_append_range_def transaction_data_of_def

lemma sw_rooms:
  "clock_room (txn_mgr sw0)" "clock_room (txn_mgr sw1)" "clock_room (txn_mgr sw2)" "clock_room (txn_mgr sw4)"
  "clock_room (txn_mgr (txn_accumulate_msg 2 one_append sw5))" "clock_room (txn_mgr sw7)"
  by (simp_all add: sw_defs sw_ops)

lemma sw_commits:
  "\<exists>out. txn_commit_drain_msg 1 sw4 = (out, sw5, []) \<and> cd_commit_id out = 4 \<and>
     cd_dropped_storage_oids out = [16384] \<and> transaction_id (cd_txn out) = TRANSACTION_ID_START + 1"
  "\<exists>out. txn_commit_drain_msg 2 (txn_accumulate_msg 2 one_append sw5) = (out, sw6, []) \<and> cd_commit_id out = 5"
  by (simp_all add: sw_defs sw_ops)

lemma sw_publishes:
  "5 \<in> set (in_flight_commits (txn_mgr sw6))" "\<exists>w msgs. txn_publish_msg 5 sw6 = (w, sw7, msgs)"
  "4 \<in> set (in_flight_commits (txn_mgr sw8))" "\<exists>w msgs. txn_publish_msg 4 sw8 = (w, sw9, msgs)"
  by (simp_all add: sw_defs sw_ops)

lemma sw_abort:
  "Disk_on_horizon_advanced 5 \<in> set (snd (txn_abort_msg 9 sw9))"
  "\<exists>t. map_of (active (txn_mgr (fst (txn_abort_msg 9 sw9)))) 3 = Some t \<and> \<not> use_inserted_version (data t) 4"
  by (simp_all add: sw_defs sw_ops txn_abort_msg_def abort_txn_def use_inserted_version_def binary_search_iff)

text \<open>
  C23. With commits published out of order the sweep reclaims too early. There is a run of the
  dispatcher from its construction in which a transaction drops a table and commits, its commit is
  published, and the end of another transaction broadcasts a horizon at which the disk agent removes
  the table's file, while a transaction is active that does not see the DROP.
\<close>

theorem drop_sweep_reclaims_visible_storage:
  "\<exists>d0 A0 P0 out d1 d A P t h.
     disp_step\<^sup>*\<^sup>* (dispatcher_sync True True (dispatcher_new 0), {}, {}) (d0, A0, P0) \<and>
     txn_commit_drain_msg 1 d0 = (out, d1, []) \<and> cd_dropped_storage_oids out = [16384] \<and>
     disp_step\<^sup>*\<^sup>* (d1, insert (cd_commit_id out) A0, P0) (d, A, P) \<and> cd_commit_id out \<in> P \<and>
     Disk_on_horizon_advanced h \<in> set (snd (txn_abort_msg 9 d)) \<and>
     map_of (active (txn_mgr (fst (txn_abort_msg 9 d)))) 3 = Some t \<and>
     \<not> use_inserted_version (data t) (cd_commit_id out) \<and>
     (let tid = transaction_id (cd_txn out);
          entries = storage_dropped_committed_inner tid (cd_commit_id out)
                      (mark_storage_dropped_one_local (\<lambda>oid. Some ''t.otbx'') tid 16384 [])
      in ''t.otbx'' \<in> set (fst (snd (on_horizon_advanced_inner True h entries))))"
proof -
  let ?acc = "txn_accumulate_msg 2 one_append sw5"
  obtain out1 out2 where c: "txn_commit_drain_msg 1 sw4 = (out1, sw5, [])" "cd_commit_id out1 = 4"
      "cd_dropped_storage_oids out1 = [16384]" "transaction_id (cd_txn out1) = TRANSACTION_ID_START + 1"
      "txn_commit_drain_msg 2 ?acc = (out2, sw6, [])" "cd_commit_id out2 = 5"
    using sw_commits by blast
  obtain w1 msgs1 w2 msgs2 where p: "txn_publish_msg 5 sw6 = (w1, sw7, msgs1)" "txn_publish_msg 4 sw8 = (w2, sw9, msgs2)"
    using sw_publishes(2,4) by blast
  have "disp_step\<^sup>*\<^sup>* (sw0, {}, {}) (sw3, {}, {})"
    using disp_begin [OF sw_rooms(1), of "{}" "{}" 9] disp_begin [OF sw_rooms(2), of "{}" "{}" 1]
      disp_begin [OF sw_rooms(3), of "{}" "{}" 2]
    unfolding sw1_def [symmetric] sw2_def [symmetric] sw3_def [symmetric]
    by (meson converse_rtranclp_into_rtranclp rtranclp.rtrancl_refl)
  then have r4: "disp_step\<^sup>*\<^sup>* (sw0, {}, {}) (sw4, {}, {})"
    using disp_accumulate [of sw3 "{}" "{}" 1 one_drop]
      disp_marked [of "txn_accumulate_msg 1 one_drop sw3" "{}" "{}" DISK_KIND]
    unfolding sw4_def by (meson rtranclp.rtrancl_into_rtrancl)
  have "disp_step (?acc, {4}, {}) (sw6, {5, 4}, {})"
    using disp_commit_drain [OF sw_rooms(5) c(5), of "{4}" "{}"] c(6) by simp
  moreover have "disp_step (sw6, {5, 4}, {}) (sw7, {5, 4}, {5})"
    by (rule disp_publish [OF sw_publishes(1) p(1)])
  moreover have "disp_step (sw7, {5, 4}, {5}) (sw8, {5, 4}, {5})"
    unfolding sw8_def by (rule disp_begin [OF sw_rooms(6)])
  moreover have "disp_step (sw8, {5, 4}, {5}) (sw9, {5, 4}, {4, 5})"
    by (rule disp_publish [OF sw_publishes(3) p(2)])
  ultimately have r9: "disp_step\<^sup>*\<^sup>* (sw5, {4}, {}) (sw9, {5, 4}, {4, 5})"
    using disp_accumulate [of sw5 "{4}" "{}" 2 one_append]
    by (meson converse_rtranclp_into_rtranclp rtranclp.rtrancl_refl)
  obtain t where t: "map_of (active (txn_mgr (fst (txn_abort_msg 9 sw9)))) 3 = Some t"
      "\<not> use_inserted_version (data t) 4"
    using sw_abort(2) by blast
  have "''t.otbx'' \<in> set (fst (snd (on_horizon_advanced_inner True 5
      (storage_dropped_committed_inner (TRANSACTION_ID_START + 1) 4
        (mark_storage_dropped_one_local (\<lambda>oid. Some ''t.otbx'') (TRANSACTION_ID_START + 1) 16384 [])))))"
    by (simp add: on_horizon_advanced_inner_def storage_dropped_committed_inner_def
        mark_storage_dropped_one_local_def register_dropped_storage_inner_def Let_def)
  then show ?thesis
    using r4 [unfolded sw0_def] r9 c(1-4) t sw_abort(1)
    by (intro exI [of _ sw4] exI [of _ "{}"] exI [of _ out1] exI [of _ sw5] exI [of _ sw9] exI [of _ "{5, 4}"]
        exI [of _ "{4, 5}"] exI [of _ t] exI [of _ 5]) (simp add: Let_def)
qed

text \<open>
  C24. One empty agent stops the collection: after a sweep that leaves an entry in one agent and
  another agent empty, the acknowledgement of the empty agent clears the flag of the disk subscriber,
  and no later horizon is broadcast to the disk until the next DROP is marked.
\<close>

theorem drop_gc_stalls:
  assumes "disk_on_horizon_advanced True h agents = (agents', removed, acks)"
    and "[] \<in> set agents'" and "e \<in> set (concat agents')"
    and "d' = ((on_subscriber_empty DISK_KIND) ^^ acks) d"
  shows "e \<in> set (concat agents) \<and> \<not> dropped_at_commit_id e < h \<and>
    Disk_on_horizon_advanced h' \<notin> set (snd (try_trigger_cleanup (d'\<lparr>txn_mgr := m\<rparr>)))"
proof -
  have agents': "agents' = map (filter (\<lambda>e. \<not> dropped_at_commit_id e < h)) agents"
    and acks: "acks = length (filter (\<lambda>entries. filter (\<lambda>e. \<not> dropped_at_commit_id e < h) entries = []) agents)"
    using assms(1) by (auto simp: disk_on_horizon_advanced_def on_horizon_advanced_inner_def Let_def filter_map comp_def)
  obtain a where "a \<in> set agents" "filter (\<lambda>e. \<not> dropped_at_commit_id e < h) a = []"
    using assms(2) agents' by auto
  then have "a \<in> set (filter (\<lambda>entries. filter (\<lambda>e. \<not> dropped_at_commit_id e < h) entries = []) agents)"
    by simp
  then have "0 < acks" unfolding acks by (rule length_pos_if_in_set)
  then obtain k where k: "acks = Suc k" using gr0_implies_Suc by blast
  have "\<not> disk_has_dropped d'" unfolding assms(4) k by (simp add: on_subscriber_empty_def DISK_KIND_def)
  moreover have "e \<in> set (concat agents) \<and> \<not> dropped_at_commit_id e < h"
    using assms(3) agents' by auto
  ultimately show ?thesis by (auto simp: try_trigger_cleanup_def Let_def)
qed

section \<open>Witnesses\<close>

text \<open>A dispatcher over the concrete run, with session 1 active in \<open>run1\<close>.\<close>

definition disp_of :: "txn_manager \<Rightarrow> dispatcher" where
  "disp_of m = \<lparr>txn_mgr = m, default_tz = 0, disk_wired = True, index_wired = True, disk_has_dropped = True,
     index_has_dropped = False, last_broadcast_horizon = 0\<rparr>"

theorem dispatcher_refines_manager_witness:
  "mgr_step\<^sup>*\<^sup>* (run0, {}, {}) (txn_mgr (snd (txn_begin_session_msg 1 (disp_of run0))), {}, {})"
proof -
  have "disp_step\<^sup>*\<^sup>* (disp_of run0, {}, {}) (snd (txn_begin_session_msg 1 (disp_of run0)), {}, {})"
    by (rule r_into_rtranclp, rule disp_begin) (simp add: disp_of_def run_facts(1))
  then show ?thesis
    using dispatcher_refines_manager [of "disp_of run0" "{}" "{}"] run_reach(1) by (simp add: disp_of_def)
qed

lemma run1_session: "\<exists>t. find_transaction 1 run1 = Some t \<and> \<not> has_accumulated t"
  by (simp add: run_eval find_transaction_def has_accumulated_def)

theorem commit_drain_complete_witness:
  "cd_base_appends (fst (txn_commit_drain_msg 1 (fold (txn_accumulate_msg 1) [one_append] (disp_of run1)))) =
     [\<lparr>pr_table_oid = 16390, pr_start_row = 0, pr_count = 3\<rparr>]"
proof -
  obtain t where t: "find_transaction 1 (txn_mgr (disp_of run1)) = Some t" "\<not> has_accumulated t"
    using run1_session by (auto simp: disp_of_def)
  obtain out d' msgs where msg:
    "txn_commit_drain_msg 1 (fold (txn_accumulate_msg 1) [one_append] (disp_of run1)) = (out, d', msgs)"
    by (metis prod_cases3)
  have room: "clock_room (txn_mgr (disp_of run1))" using run_facts(2) by (simp add: disp_of_def)
  have "has_accumulated (accumulated [one_append] t)"
    by (simp add: has_accumulated_def accumulated_fields one_append_def)
  from commit_drain_complete [OF t room this msg] show ?thesis
    unfolding msg by (simp add: one_append_def to_append_range_def)
qed

theorem empty_commit_aborts_witness:
  "cd_commit_id (fst (txn_commit_drain_msg 1 (disp_of run1))) = 0"
proof -
  obtain t where t: "find_transaction 1 (txn_mgr (disp_of run1)) = Some t" "\<not> has_accumulated t"
    using run1_session by (auto simp: disp_of_def)
  obtain out d' msgs where msg: "txn_commit_drain_msg 1 (disp_of run1) = (out, d', msgs)"
    by (metis prod_cases3)
  from empty_commit_aborts [OF t msg] show ?thesis unfolding msg by (simp add: empty_commit_drain_def)
qed

lemma gc4_broadcast: "Disk_on_horizon_advanced 4 \<in> set (snd (try_trigger_cleanup (disp_of gc4)))"
  by (simp add: try_trigger_cleanup_def gc_facts(12) Let_def disp_of_def)

theorem pending_drop_survives_sweep_witness:
  "dropped_entry TRANSACTION_ID_START \<in>
     set (fst (on_horizon_advanced_inner True 4 [dropped_entry TRANSACTION_ID_START]))"
  using pending_drop_survives_sweep [of "disp_of gc4" "{3, 4}" "{3, 4}" 4 "dropped_entry TRANSACTION_ID_START"
      "[dropped_entry TRANSACTION_ID_START]"] gc_reach gc4_broadcast
  by (simp add: disp_of_def dropped_entry_def)

text \<open>Session 2 ends, session 4 begins after commit 2 was published: its snapshot has no commit in
  flight and the broadcast horizon is 2.\<close>

definition quiet :: txn_manager where "quiet = snd (begin_transaction 4 (abort_txn 2 run4))"

lemma quiet_facts:
  "clock_room (abort_txn 2 run4)"
  "\<exists>t. (4, t) \<in> set (active quiet) \<and> t_in_flight_snapshot t = [] \<and> t_snapshot_horizon t = 2"
  "lowest_active_snapshot_horizon quiet = 2"
  by (simp_all add: quiet_def run_eval abort_txn_def mark_aborted_def set_insert_def insort_insert_key_def
      set_erase_def lowest_active_snapshot_horizon_def data_def)

theorem drop_sweep_safe_witness:
  "\<exists>t. (4, t) \<in> set (active quiet) \<and> use_inserted_version (data t) 1"
proof -
  have "mgr_reach (abort_txn 2 run4, {2}, {2})" by (rule reach_step [OF run_reach(4) step_abort])
  then have r: "mgr_reach (txn_mgr (disp_of quiet), {2}, {2})"
    using reach_step [OF _ step_begin [OF quiet_facts(1)]] by (simp add: quiet_def disp_of_def)
  obtain t where t: "(4, t) \<in> set (active quiet)" "t_in_flight_snapshot t = []" using quiet_facts(2) by blast
  have "Disk_on_horizon_advanced 2 \<in> set (snd (try_trigger_cleanup (disp_of quiet)))"
    by (simp add: try_trigger_cleanup_def quiet_facts(3) Let_def disp_of_def)
  from drop_sweep_safe [OF r this, of "dropped_entry 1" "[dropped_entry 1]" True 4 t] t
  have "use_inserted_version (data t) 1"
    by (simp add: on_horizon_advanced_inner_def Let_def dropped_entry_def disp_of_def)
  with t(1) show ?thesis by blast
qed

text \<open>Agent 0 is empty, agent 1 keeps the entry of commit 3 at horizon 3. Horizon 4, which would reclaim
  it, is broadcast by the manager of \<open>gc4\<close> while the flag is set, and not after the acknowledgement.\<close>

theorem drop_gc_stalls_witness:
  "disk_on_horizon_advanced True 3 [[], [dropped_entry 3]] = ([[], [dropped_entry 3]], [], 1) \<and>
   Disk_on_horizon_advanced 4 \<in> set (snd (try_trigger_cleanup (disp_of gc4))) \<and>
   Disk_on_horizon_advanced 4 \<notin>
     set (snd (try_trigger_cleanup ((on_subscriber_empty DISK_KIND (disp_of run0))\<lparr>txn_mgr := gc4\<rparr>)))"
proof -
  have sweep: "disk_on_horizon_advanced True 3 [[], [dropped_entry 3]] = ([[], [dropped_entry 3]], [], 1)"
    by (simp add: disk_on_horizon_advanced_def on_horizon_advanced_inner_def Let_def dropped_entry_def)
  from drop_gc_stalls [OF sweep, of "dropped_entry 3" "on_subscriber_empty DISK_KIND (disp_of run0)"
      "disp_of run0" 4 gc4]
  show ?thesis using sweep gc4_broadcast by simp
qed

end
