(* ===== verification/Chunk_Binary.thy ===== *)
theory Chunk_Binary
  imports Otter_Prelude
begin

text \<open>
  The binary form of a data chunk: \<open>components/vector/data_chunk_binary.cpp\<close>, with the part of
  \<open>components/types/types.cpp\<close> it uses (the physical type of a logical type, aliases, decimals).

  A column carries its type, its validity mask (absent when every row is valid) and its data: raw
  bytes for fixed-width types, one string per row, or nested children. The codec is used by the
  write-ahead log for the payload of INSERT, UPDATE and ADD COLUMN records.
\<close>

unbundle bit_operations_syntax

section \<open>Types\<close>

text \<open>\<open>logical_type\<close> is an enumeration over a byte and is read from a byte by a cast, so it is kept as
  its code.\<close>

type_synonym logical_type = nat

datatype physical_type =
    PT_BOOL | PT_UINT8 | PT_INT8 | PT_UINT16 | PT_INT16 | PT_UINT32 | PT_INT32 | PT_UINT64 | PT_INT64
  | PT_UINT128 | PT_INT128 | PT_FLOAT | PT_DOUBLE | PT_STRING | PT_LIST | PT_STRUCT | PT_UNION | PT_ARRAY
  | PT_NA | PT_UNKNOWN | PT_BIT | PT_INVALID

definition LT_INTEGER :: logical_type where "LT_INTEGER = 13"
definition LT_DECIMAL :: logical_type where "LT_DECIMAL = 22"
definition LT_STRING_LITERAL :: logical_type where "LT_STRING_LITERAL = 35"
definition LT_ARRAY :: logical_type where "LT_ARRAY = 109"
definition LT_INVALID :: logical_type where "LT_INVALID = 255"

text \<open>\<open>make_physical_type_table\<close>: NA, BOOLEAN, TINYINT, UTINYINT, SMALLINT, USMALLINT, ENUM, INTEGER,
  UINTEGER, BIGINT, DATE, TIME, TIME_TZ, TIMESTAMP, TIMESTAMP_TZ, INTERVAL, DECIMAL, UBIGINT, UHUGEINT,
  HUGEINT, UUID, FLOAT, DOUBLE, STRING_LITERAL, VALIDITY, ARRAY, STRUCT, UNION, VARIANT, LIST, MAP,
  UNKNOWN; every other code is INVALID.\<close>

definition physical_type_table :: "(logical_type \<times> physical_type) list" where
  "physical_type_table =
     [(0, PT_NA), (10, PT_BOOL), (11, PT_INT8), (27, PT_UINT8), (12, PT_INT16), (28, PT_UINT16),
      (104, PT_INT32), (13, PT_INT32), (29, PT_UINT32), (14, PT_INT64), (16, PT_INT32), (17, PT_INT64),
      (18, PT_STRUCT), (19, PT_INT64), (20, PT_INT64), (21, PT_STRUCT), (22, PT_INT64), (30, PT_UINT64),
      (31, PT_UINT128), (15, PT_INT128), (54, PT_INT128), (23, PT_FLOAT), (24, PT_DOUBLE), (35, PT_STRING),
      (53, PT_BIT), (109, PT_ARRAY), (100, PT_STRUCT), (107, PT_STRUCT), (108, PT_STRUCT), (101, PT_LIST),
      (102, PT_LIST), (127, PT_UNKNOWN)]"

definition to_physical_type0 :: "logical_type \<Rightarrow> physical_type" where
  "to_physical_type0 t = (case map_of physical_type_table t of None \<Rightarrow> PT_INVALID | Some p \<Rightarrow> p)"

text \<open>\<open>None\<close>: the constructor throws.\<close>

definition decimal_storage_type :: "nat \<Rightarrow> physical_type option" where
  "decimal_storage_type width =
     (if width \<le> 4 then Some PT_INT16 else if width \<le> 9 then Some PT_INT32
      else if width \<le> 18 then Some PT_INT64 else if width \<le> 38 then Some PT_INT128 else None)"

text \<open>A type with its optional extension, which also carries the alias. The extensions the codec does
  not write (MAP, LIST, STRUCT, ENUM, USER, FUNCTION, UNKNOWN) are one constructor.\<close>

datatype complex_logical_type = Complex_Type (ct_type: logical_type) (ct_ext: "(byte list \<times> extension) option")
  and extension = GENERIC_EXT | ARRAY_EXT complex_logical_type nat | DECIMAL_EXT nat nat | OTHER_EXT

definition has_alias :: "complex_logical_type \<Rightarrow> bool" where
  "has_alias t = (case ct_ext t of None \<Rightarrow> False | Some (al, e) \<Rightarrow> al \<noteq> [])"

definition alias_of :: "complex_logical_type \<Rightarrow> byte list" where
  "alias_of t = (case ct_ext t of None \<Rightarrow> [] | Some (al, e) \<Rightarrow> al)"

text \<open>The constructors: a non-empty alias sits in a generic extension when there is no other.\<close>

definition plain_type :: "logical_type \<Rightarrow> byte list \<Rightarrow> complex_logical_type" where
  "plain_type t al = Complex_Type t (if al = [] then None else Some (al, GENERIC_EXT))"

definition create_array :: "logical_type \<Rightarrow> nat \<Rightarrow> byte list \<Rightarrow> complex_logical_type" where
  "create_array inner n al = Complex_Type LT_ARRAY (Some (al, ARRAY_EXT (Complex_Type inner None) n))"

definition create_decimal :: "nat \<Rightarrow> nat \<Rightarrow> byte list \<Rightarrow> complex_logical_type outcome" where
  "create_decimal width scale al =
     (case decimal_storage_type width of None \<Rightarrow> Thrown
      | Some p \<Rightarrow> Done (Complex_Type LT_DECIMAL (Some (al, DECIMAL_EXT width scale))))"

text \<open>A decimal reads its extension; without a decimal extension that is a wrong-type access
  (\<open>None\<close>).\<close>

definition to_physical_type :: "complex_logical_type \<Rightarrow> physical_type option" where
  "to_physical_type t =
     (if ct_type t = LT_DECIMAL then
        (case ct_ext t of Some (al, DECIMAL_EXT w s) \<Rightarrow> decimal_storage_type w | _ \<Rightarrow> None)
      else Some (to_physical_type0 (ct_type t)))"

fun fixed_type_size :: "physical_type \<Rightarrow> nat" where
  "fixed_type_size PT_BOOL = 1"
| "fixed_type_size PT_INT8 = 1" | "fixed_type_size PT_UINT8 = 1"
| "fixed_type_size PT_INT16 = 2" | "fixed_type_size PT_UINT16 = 2"
| "fixed_type_size PT_INT32 = 4" | "fixed_type_size PT_UINT32 = 4" | "fixed_type_size PT_FLOAT = 4"
| "fixed_type_size PT_INT64 = 8" | "fixed_type_size PT_UINT64 = 8" | "fixed_type_size PT_DOUBLE = 8"
| "fixed_type_size PT_INT128 = 16" | "fixed_type_size PT_UINT128 = 16"
| "fixed_type_size _ = 0"

text \<open>\<open>complex_logical_type::size\<close>: the bytes a vector allocates per row. The 128-bit types fall into
  the default branch, which asserts and, with assertions compiled out, returns 0.\<close>

fun object_size :: "physical_type \<Rightarrow> nat" where
  "object_size PT_NA = 0"
| "object_size PT_BIT = 1" | "object_size PT_BOOL = 1"
| "object_size PT_INT8 = 1" | "object_size PT_UINT8 = 1"
| "object_size PT_INT16 = 2" | "object_size PT_UINT16 = 2"
| "object_size PT_INT32 = 4" | "object_size PT_UINT32 = 4" | "object_size PT_FLOAT = 4"
| "object_size PT_INT64 = 8" | "object_size PT_UINT64 = 8" | "object_size PT_DOUBLE = 8"
| "object_size PT_STRING = 16" | "object_size PT_LIST = 16"
| "object_size _ = 0"

text \<open>What the constructor of a vector of the type needs: a list, a struct or an array reads its
  element types from the extension, except for the two structs with built-in fields
  (TIME_TZ and INTERVAL); a decimal reads its storage type there.\<close>

fun vector_constructible :: "complex_logical_type \<Rightarrow> bool" where
  "vector_constructible (Complex_Type t (Some (al, ARRAY_EXT inner n))) =
     (if t = LT_ARRAY then vector_constructible inner
      else t \<noteq> LT_DECIMAL \<and> (to_physical_type0 t \<notin> {PT_LIST, PT_STRUCT} \<or> t \<in> {18, 21}))"
| "vector_constructible (Complex_Type t (Some (al, DECIMAL_EXT w s))) =
     (to_physical_type0 t \<notin> {PT_LIST, PT_STRUCT, PT_ARRAY} \<or> t \<in> {18, 21})"
| "vector_constructible (Complex_Type t (Some (al, OTHER_EXT))) =
     (t \<noteq> LT_DECIMAL \<and> t \<noteq> LT_ARRAY)"
| "vector_constructible (Complex_Type t ext) =
     (t \<noteq> LT_DECIMAL \<and> (to_physical_type0 t \<notin> {PT_LIST, PT_STRUCT, PT_ARRAY} \<or> t \<in> {18, 21}))"

definition is_variable_type :: "physical_type \<Rightarrow> bool" where
  "is_variable_type p \<longleftrightarrow> p = PT_STRING"

section \<open>The type header\<close>

definition compute_type_header_size :: "complex_logical_type \<Rightarrow> nat" where
  "compute_type_header_size t =
     wrap32 (3 + (if has_alias t then length (alias_of t) else 0) + 1 +
       (case ct_ext t of Some (al, ARRAY_EXT _ _) \<Rightarrow> 5 | Some (al, DECIMAL_EXT _ _) \<Rightarrow> 2 | _ \<Rightarrow> 0))"

definition write_type_header :: "complex_logical_type \<Rightarrow> byte list" where
  "write_type_header t =
     [word_of_nat (ct_type t)] @
     (if has_alias t
      then (let n = wrap16 (length (alias_of t)) in le 2 n @ take n (alias_of t)) else le 2 0) @
     (case ct_ext t of
        Some (al, ARRAY_EXT inner n) \<Rightarrow> [1, word_of_nat (ct_type inner)] @ le 4 (wrap32 n)
      | Some (al, DECIMAL_EXT w s) \<Rightarrow> [2, word_of_nat w, word_of_nat s]
      | _ \<Rightarrow> [0])"

definition read_extension ::
  "logical_type \<Rightarrow> byte list \<Rightarrow> byte list \<Rightarrow> (complex_logical_type \<times> byte list) outcome" where
  "read_extension lt al scan =
     (if scan = [] then Rejected
      else if hd scan = 1 then
        (if length (tl scan) < 5 then Rejected
         else Done (create_array (unat (hd (tl scan))) (rdp 4 (drop 2 scan)) al, drop 6 scan))
      else if hd scan = 2 then
        (if length (tl scan) < 2 then Rejected
         else then_do (create_decimal (unat (scan ! 1)) (unat (scan ! 2)) al) (\<lambda>t. Done (t, drop 3 scan)))
      else Done (plain_type lt al, tl scan))"

definition read_type_header :: "byte list \<Rightarrow> (complex_logical_type \<times> byte list) outcome" where
  "read_type_header scan =
     (if length scan < 4 then Rejected
      else let lt = unat (hd scan);
               alias_length = rdp 2 (drop 1 scan);
               scan = drop 3 scan
           in if alias_length > 0 \<and> length scan < alias_length then Rejected
              else read_extension lt (take alias_length scan) (drop alias_length scan))"

section \<open>Chunks\<close>

text \<open>A column is a flat vector: its type, its data and its validity mask. The codec reads
  \<open>column.data()\<close> of a flat vector. A nested vector has a data buffer of its own, which for a list
  holds the offset and length of each row, and its children live in the auxiliary buffer.\<close>

datatype column = Column (col_type: complex_logical_type) (col_data: payload) (col_validity: "bool list option")
  and payload = Fixed_Data "byte list" | String_Data "byte list list" | Nested_Data "byte list" "column list"

record data_chunk =
  chunk_columns :: "column list"
  chunk_size :: nat

definition row_is_valid :: "bool list option \<Rightarrow> nat \<Rightarrow> bool" where
  "row_is_valid v row = (case v of None \<Rightarrow> True | Some bs \<Rightarrow> bs ! row)"

definition strings_of :: "column \<Rightarrow> byte list list" where
  "strings_of c = (case col_data c of String_Data ss \<Rightarrow> ss | _ \<Rightarrow> [])"

definition raw_data_of :: "column \<Rightarrow> byte list" where
  "raw_data_of c = (case col_data c of Fixed_Data bs \<Rightarrow> bs | Nested_Data bs children \<Rightarrow> bs | String_Data ss \<Rightarrow> [])"

text \<open>\<open>column_data_sizes\<close>, 32-bit. The physical type of a column is defined when the column exists.\<close>

definition physical_type_of :: "column \<Rightarrow> physical_type" where
  "physical_type_of c = (case to_physical_type (col_type c) of None \<Rightarrow> PT_INVALID | Some p \<Rightarrow> p)"

definition column_data_size :: "nat \<Rightarrow> column \<Rightarrow> nat" where
  "column_data_size num_rows c =
     (if is_variable_type (physical_type_of c)
      then wrap32 (wrap32 (wrap32 (num_rows + 1) * 4) +
             foldl (\<lambda>n s. wrap32 (n + wrap32 (length s))) 0 (take num_rows (strings_of c)))
      else wrap32 (fixed_type_size (physical_type_of c) * num_rows))"

text \<open>Setting a bit of the null mask; the mask is zeroed and the bits of the valid cells are set.\<close>

definition mask_set :: "nat \<Rightarrow> byte list \<Rightarrow> byte list" where
  "mask_set k nmask = nmask[k div 8 := (nmask ! (k div 8)) OR push_bit (k mod 8) 1]"

definition write_null_mask :: "nat \<Rightarrow> nat \<Rightarrow> column list \<Rightarrow> nat \<Rightarrow> byte list" where
  "write_null_mask num_columns num_rows cols mask_bytes =
     fold (\<lambda>c nmask. fold (\<lambda>r nmask.
              if row_is_valid (col_validity (cols ! c)) r then mask_set (r * num_columns + c) nmask else nmask)
            [0..<num_rows] nmask)
       [0..<num_columns] (replicate mask_bytes 0)"

fun running_offsets :: "nat \<Rightarrow> byte list list \<Rightarrow> nat list" where
  "running_offsets off [] = [off]"
| "running_offsets off (s # ss) = off # running_offsets (wrap32 (off + wrap32 (length s))) ss"

definition write_column :: "nat \<Rightarrow> column \<Rightarrow> byte list" where
  "write_column num_rows c =
     write_type_header (col_type c) @ le 4 (column_data_size num_rows c) @
     (if is_variable_type (physical_type_of c)
      then concat (map (le 4) (running_offsets 0 (take num_rows (strings_of c)))) @
           concat (take num_rows (strings_of c))
      else take (column_data_size num_rows c) (raw_data_of c))"

definition serialize_binary :: "data_chunk \<Rightarrow> byte list" where
  "serialize_binary chunk =
     (let num_columns = wrap16 (length (chunk_columns chunk));
          num_rows = wrap32 (chunk_size chunk);
          cols = take num_columns (chunk_columns chunk);
          total_cells = num_columns * num_rows;
          null_mask_bytes = (if total_cells > 0 then wrap32 ((total_cells + 7) div 8) else 0);
          has_nulls = (\<exists>c \<in> set cols. col_validity c \<noteq> None);
          actual_mask_bytes = (if has_nulls then null_mask_bytes else 0);
          total = 10 + actual_mask_bytes + sum_list (map (\<lambda>c.
                    compute_type_header_size (col_type c) + 4 + column_data_size num_rows c) cols);
          out = le 2 num_columns @ le 4 num_rows @ le 4 actual_mask_bytes @
                (if has_nulls then write_null_mask num_columns num_rows cols actual_mask_bytes else []) @
                concat (map (write_column num_rows) cols)
      in out @ replicate (total - length out) 0)"

section \<open>Reading a chunk\<close>

text \<open>The first pass reads the types and skips the data.\<close>

fun read_types :: "nat \<Rightarrow> byte list \<Rightarrow> complex_logical_type list outcome" where
  "read_types 0 scan = Done []"
| "read_types (Suc n) scan =
     then_do (read_type_header scan) (\<lambda>(t, scan).
       if length scan < 4 then Rejected
       else let data_size = rdp 4 scan; scan = drop 4 scan
            in if length scan < data_size then Rejected
               else then_do (read_types n (drop data_size scan)) (\<lambda>ts. Done (t # ts)))"

text \<open>The strings of a column: the offsets lie at the read pointer, the characters behind them. A
  read outside the buffer is undefined.\<close>

fun read_strings :: "byte list \<Rightarrow> nat \<Rightarrow> nat list \<Rightarrow> byte list list outcome" where
  "read_strings pointer off [] = Done []"
| "read_strings pointer off (r # rs) =
     (if length pointer < wrap32 (r * 4) + 4 \<or> length pointer < wrap32 (wrap32 (r + 1) * 4) + 4 then Undefined
      else let offset_begin = rdp 4 (drop (wrap32 (r * 4)) pointer);
               offset_end = rdp 4 (drop (wrap32 (wrap32 (r + 1) * 4)) pointer);
               string_length = wrap32 (offset_end + 4294967296 - offset_begin)
           in if string_length = 0 then then_do (read_strings pointer off rs) (\<lambda>ss. Done ([] # ss))
              else if length pointer < off + offset_begin + string_length then Undefined
              else then_do (read_strings pointer off rs)
                     (\<lambda>ss. Done (take string_length (drop (off + offset_begin) pointer) # ss)))"

text \<open>The data of a column. Other types than strings are copied into the buffer the vector allocated,
  \<open>object_size\<close> bytes per row; a longer copy overruns it. \<open>Fixed_Data\<close> holds the bytes copied.\<close>

definition read_column_data ::
  "physical_type \<Rightarrow> nat \<Rightarrow> nat \<Rightarrow> byte list \<Rightarrow> payload outcome" where
  "read_column_data p num_rows data_size pointer =
     (if is_variable_type p then
        (let offsets_size = wrap32 (wrap32 (num_rows + 1) * 4)
         in if data_size < offsets_size then Rejected
            else then_do (read_strings pointer offsets_size [0..<num_rows]) (\<lambda>ss. Done (String_Data ss)))
      else if data_size > object_size p * num_rows then Undefined
      else Done (Fixed_Data (take data_size pointer)))"

text \<open>The null mask of a column: \<open>nmask\<close> is the pointer to the first mask byte. \<open>set_invalid\<close>
  allocates the validity mask at the first invalid row.\<close>

definition read_validity :: "nat \<Rightarrow> nat \<Rightarrow> nat \<Rightarrow> byte list \<Rightarrow> bool list option outcome" where
  "read_validity num_columns num_rows column_index nmask =
     (if \<exists>r \<in> set [0..<num_rows]. length nmask \<le> (r * num_columns + column_index) div 8 then Undefined
      else let vs = map (\<lambda>r. bit (nmask ! ((r * num_columns + column_index) div 8))
                           ((r * num_columns + column_index) mod 8)) [0..<num_rows]
           in Done (if list_all id vs then None else Some vs))"

fun read_columns ::
  "nat \<Rightarrow> nat \<Rightarrow> byte list option \<Rightarrow> nat \<Rightarrow> complex_logical_type list \<Rightarrow> byte list \<Rightarrow> column list outcome" where
  "read_columns num_columns num_rows nmask column_index [] pointer = Done []"
| "read_columns num_columns num_rows nmask column_index (t # ts) pointer =
     then_do (read_type_header pointer) (\<lambda>(t', pointer).
       let data_size = rdp 4 pointer; pointer = drop 4 pointer in
       case to_physical_type t of None \<Rightarrow> Undefined
       | Some p \<Rightarrow>
         then_do (read_column_data p num_rows data_size pointer) (\<lambda>payload.
         then_do (case nmask of None \<Rightarrow> Done None | Some mk \<Rightarrow> read_validity num_columns num_rows column_index mk)
         (\<lambda>v.
         then_do (read_columns num_columns num_rows nmask (column_index + 1) ts (drop data_size pointer))
         (\<lambda>cols. Done (Column t payload v # cols)))))"

definition deserialize_binary :: "byte list \<Rightarrow> data_chunk outcome" where
  "deserialize_binary data =
     (if length data < 10 then Rejected
      else let num_columns = rdp 2 data;
               num_rows = rdp 4 (drop 2 data);
               null_mask_size = rdp 4 (drop 6 data);
               pointer = drop 10 data
           in if null_mask_size > 0 \<and> length pointer < null_mask_size then Rejected
              else let nmask = (if null_mask_size > 0 then Some pointer else None);
                       pointer = drop null_mask_size pointer
                   in then_do (read_types num_columns pointer) (\<lambda>ts.
                      if \<not> list_all vector_constructible ts then Undefined else
                      then_do (read_columns num_columns num_rows nmask 0 ts pointer) (\<lambda>cols.
                      Done \<lparr>chunk_columns = cols, chunk_size = num_rows\<rparr>)))"

section \<open>Well-formed types and the type-header round trip\<close>

text \<open>The types the codec can carry, and what a type becomes on the way: an extension that is neither
  an array nor a decimal is reduced to the alias, and an array keeps only the code of its element
  type.\<close>

definition type_wf :: "complex_logical_type \<Rightarrow> bool" where
  "type_wf t \<longleftrightarrow> ct_type t < 256 \<and> length (alias_of t) \<le> UINT16_MAX \<and>
     (case ct_ext t of
        Some (al, ARRAY_EXT inner n) \<Rightarrow> ct_type t = LT_ARRAY \<and> ct_type inner < 256 \<and> n \<le> UINT32_MAX
      | Some (al, DECIMAL_EXT w s) \<Rightarrow> ct_type t = LT_DECIMAL \<and> w \<le> 38 \<and> s \<le> w
      | _ \<Rightarrow> True)"

definition norm_type :: "complex_logical_type \<Rightarrow> complex_logical_type" where
  "norm_type t =
     (case ct_ext t of
        Some (al, ARRAY_EXT inner n) \<Rightarrow> create_array (ct_type inner) n al
      | Some (al, DECIMAL_EXT w s) \<Rightarrow> Complex_Type LT_DECIMAL (Some (al, DECIMAL_EXT w s))
      | _ \<Rightarrow> plain_type (ct_type t) (alias_of t))"

lemma ct_type_norm: "type_wf t \<Longrightarrow> ct_type (norm_type t) = ct_type t"
  by (auto simp: type_wf_def norm_type_def create_array_def plain_type_def split: option.splits extension.splits)

lemma write_type_header_split:
  assumes "type_wf t"
  shows "write_type_header t = word_of_nat (ct_type t) # le 2 (length (alias_of t)) @ alias_of t @
     (case ct_ext t of
        Some (al, ARRAY_EXT inner n) \<Rightarrow> [1, word_of_nat (ct_type inner)] @ le 4 n
      | Some (al, DECIMAL_EXT w s) \<Rightarrow> [2, word_of_nat w, word_of_nat s]
      | _ \<Rightarrow> [0])"
proof -
  have "\<not> has_alias t \<Longrightarrow> alias_of t = []"
    by (auto simp: has_alias_def alias_of_def split: option.splits)
  moreover have "wrap16 (length (alias_of t)) = length (alias_of t)"
    using assms by (simp add: type_wf_def)
  ultimately show ?thesis
    using assms by (auto simp: write_type_header_def type_wf_def Let_def split: option.splits extension.splits)
qed

lemma length_write_type_header: "type_wf t \<Longrightarrow> length (write_type_header t) = compute_type_header_size t"
proof -
  assume wf: "type_wf t"
  have al: "(if has_alias t then length (alias_of t) else 0) = length (alias_of t)"
    by (auto simp: has_alias_def alias_of_def split: option.splits)
  have "length (alias_of t) \<le> 65535" using wf by (simp add: type_wf_def)
  then show ?thesis
    by (auto simp: write_type_header_split [OF wf] compute_type_header_size_def al
        split: option.splits extension.splits)
qed

lemma decimal_storage_ok: "w \<le> 38 \<Longrightarrow> decimal_storage_type w \<noteq> None"
  by (simp add: decimal_storage_type_def)

lemma read_extension_write:
  assumes "type_wf t"
  shows "read_extension (ct_type t) (alias_of t)
     ((case ct_ext t of
        Some (al, ARRAY_EXT inner n) \<Rightarrow> [1, word_of_nat (ct_type inner)] @ le 4 n
      | Some (al, DECIMAL_EXT w s) \<Rightarrow> [2, word_of_nat w, word_of_nat s]
      | _ \<Rightarrow> [0]) @ rest) = Done (norm_type t, rest)"
proof (cases "ct_ext t")
  case None
  then show ?thesis by (simp add: read_extension_def norm_type_def)
next
  case (Some p)
  obtain al e where p: "p = (al, e)" by fastforce
  have al: "alias_of t = al" by (simp add: alias_of_def Some p)
  show ?thesis
  proof (cases e)
    case (ARRAY_EXT inner n)
    then have "ct_type inner < 256" "n < 4294967296"
      using assms by (simp_all add: type_wf_def Some p)
    then show ?thesis using al
      by (simp add: read_extension_def norm_type_def Some p ARRAY_EXT)
  next
    case (DECIMAL_EXT w s)
    then have "w \<le> 38" "s \<le> w" using assms by (simp_all add: type_wf_def Some p)
    then show ?thesis using al decimal_storage_ok [of w]
      by (auto simp: read_extension_def norm_type_def Some p DECIMAL_EXT create_decimal_def)
  qed (simp_all add: read_extension_def norm_type_def Some p al)
qed

lemma read_write_type_header:
  assumes "type_wf t"
  shows "read_type_header (write_type_header t @ rest) = Done (norm_type t, rest)"
proof -
  define e where "e = (case ct_ext t of
        Some (al, ARRAY_EXT inner n) \<Rightarrow> [1, word_of_nat (ct_type inner)] @ le 4 n
      | Some (al, DECIMAL_EXT w s) \<Rightarrow> [2, word_of_nat w, word_of_nat s]
      | _ \<Rightarrow> [0 :: byte])"
  have e: "e \<noteq> []" by (auto simp: e_def split: option.splits extension.splits)
  have w: "write_type_header t @ rest =
      word_of_nat (ct_type t) # le 2 (length (alias_of t)) @ alias_of t @ e @ rest"
    by (simp add: write_type_header_split [OF assms] e_def)
  have len: "length (alias_of t) < 65536" and lt: "ct_type t < 256"
    using assms by (simp_all add: type_wf_def)
  have d: "drop 3 (write_type_header t @ rest) = alias_of t @ e @ rest"
    by (simp add: w numeral_3_eq_3)
  have r: "rdp 2 (drop 1 (write_type_header t @ rest)) = length (alias_of t)"
    using len by (simp add: w)
  have n4: "\<not> length (write_type_header t @ rest) < 4"
    using e by (cases e) (simp_all add: w)
  have h: "unat (hd (write_type_header t @ rest)) = ct_type t" using lt by (simp add: w)
  show ?thesis
    unfolding read_type_header_def Let_def d r h
    using n4 read_extension_write [OF assms, of rest] by (simp add: e_def)
qed

section \<open>String columns\<close>

lemma length_running_offsets [simp]: "length (running_offsets off ss) = Suc (length ss)"
  by (induction ss arbitrary: off) simp_all

lemma running_offsets_nth:
  assumes "off + length (concat ss) \<le> UINT32_MAX" and "r \<le> length ss"
  shows "running_offsets off ss ! r = off + length (concat (take r ss))"
  using assms
proof (induction ss arbitrary: off r)
  case Nil
  then show ?case by simp
next
  case (Cons s ss)
  have w: "wrap32 (off + wrap32 (length s)) = off + length s" using Cons.prems(1) by simp
  show ?case
  proof (cases r)
    case 0
    then show ?thesis by simp
  next
    case (Suc q)
    have "off + length s + length (concat ss) \<le> UINT32_MAX" and "q \<le> length ss"
      using Cons.prems Suc by simp_all
    then show ?thesis using Cons.IH [of "off + length s" q] Suc w by simp
  qed
qed

lemma length_concat_le [simp]: "length (concat (map (le k) xs)) = k * length xs"
  by (induction xs) simp_all

lemma rdp_concat_le:
  "r < length xs \<Longrightarrow> rdp k (drop (k * r) (concat (map (le k) xs) @ rest)) = xs ! r mod 256 ^ k"
proof (induction xs arbitrary: r)
  case Nil
  then show ?case by simp
next
  case (Cons x xs)
  then show ?case by (cases r) (simp_all add: algebra_simps)
qed

lemma concat_split_nth:
  "r < length ss \<Longrightarrow> concat ss = concat (take r ss) @ ss ! r @ concat (drop (Suc r) ss)"
  by (metis concat.simps(2) concat_append id_take_nth_drop)

lemma length_concat_take_Suc:
  "r < length ss \<Longrightarrow> length (concat (take (Suc r) ss)) = length (concat (take r ss)) + length (ss ! r)"
  by (simp add: take_Suc_conv_app_nth)

lemma length_concat_take_le: "length (concat (take r ss)) \<le> length (concat ss)"
  by (metis append_take_drop_id concat_append le_add1 length_append)

lemma read_strings_write:
  assumes n: "4 * (length ss + 1) + length (concat ss) \<le> UINT32_MAX"
    and pointer: "pointer = concat (map (le 4) (running_offsets 0 ss)) @ concat ss @ rest"
    and rs: "\<forall>r \<in> set rs. r < length ss"
  shows "read_strings pointer (4 * (length ss + 1)) rs = Done (map (\<lambda>r. ss ! r) rs)"
  using rs
proof (induction rs)
  case Nil
  then show ?case by simp
next
  case (Cons r rs)
  then have r: "r < length ss" by simp
  have off: "rdp 4 (drop (4 * q) pointer) = length (concat (take q ss))" if "q \<le> length ss" for q
  proof -
    have "rdp 4 (drop (4 * q) pointer) = running_offsets 0 ss ! q mod 256 ^ 4"
      unfolding pointer using that by (intro rdp_concat_le) simp
    also have "running_offsets 0 ss ! q = length (concat (take q ss))"
      using running_offsets_nth [of 0 ss q] n that by simp
    also have "length (concat (take q ss)) mod 256 ^ 4 = length (concat (take q ss))"
      using length_concat_take_le [of q ss] n by simp
    finally show ?thesis .
  qed
  have w: "wrap32 (r * 4) = 4 * r" "wrap32 (r + 1) = r + 1" "wrap32 ((r + 1) * 4) = 4 * (r + 1)"
    using r n by simp_all
  have len: "length pointer = 4 * (length ss + 1) + length (concat ss) + length rest"
    by (simp add: pointer)
  define a where "a = length (concat (take r ss))"
  have b: "length (concat (take (r + 1) ss)) = a + length (ss ! r)"
    using length_concat_take_Suc [OF r] by (simp add: a_def)
  have le_all: "a + length (ss ! r) \<le> length (concat ss)"
    using length_concat_take_le [of "r + 1" ss] b by simp
  have sl: "wrap32 (a + length (ss ! r) + 4294967296 - a) = length (ss ! r)"
  proof -
    have "length (ss ! r) < 4294967296" using le_all n by simp
    then show ?thesis by (simp add: wrap32_def)
  qed
  have "drop (4 * (length ss + 1) + a) pointer = drop a (concat ss @ rest)"
    unfolding pointer by simp
  also have "concat ss @ rest = concat (take r ss) @ ss ! r @ concat (drop (Suc r) ss) @ rest"
    using concat_split_nth [OF r] by simp
  also have "drop a \<dots> = ss ! r @ concat (drop (Suc r) ss) @ rest" by (simp add: a_def)
  finally have str: "take (length (ss ! r)) (drop (4 * (length ss + 1) + a) pointer) = ss ! r" by simp
  have o1: "rdp 4 (drop (4 * r) pointer) = a" using off [of r] r by (simp add: a_def)
  have o2: "rdp 4 (drop (4 * (r + 1)) pointer) = a + length (ss ! r)" using off [of "r + 1"] r b by simp
  have in_bounds: "\<not> (length pointer < 4 * r + 4 \<or> length pointer < 4 * (r + 1) + 4)"
    "\<not> length pointer < 4 * (length ss + 1) + a + length (ss ! r)"
    using len r le_all by simp_all
  have IH: "read_strings pointer (4 * (length ss + 1)) rs = Done (map (\<lambda>r. ss ! r) rs)"
    using Cons by simp
  show ?case
    unfolding read_strings.simps w Let_def o1 o2 sl
    using in_bounds str by (auto simp only: IH then_do.simps if_False list.map split: if_split)
qed

section \<open>The null mask\<close>

definition mask_bit :: "byte list \<Rightarrow> nat \<Rightarrow> bool" where
  "mask_bit m k = bit (m ! (k div 8)) (k mod 8)"

lemma length_mask_set [simp]: "length (mask_set k m) = length m"
  by (simp add: mask_set_def)

lemma mask_bit_set:
  assumes "j < 8 * length m" "k < 8 * length m"
  shows "mask_bit (mask_set j m) k \<longleftrightarrow> mask_bit m k \<or> k = j"
proof (cases "j div 8 = k div 8")
  case True
  have "j div 8 < length m" using assms by (simp add: less_mult_imp_div_less mult.commute)
  moreover have "bit (push_bit (j mod 8) (1 :: byte)) (k mod 8) \<longleftrightarrow> k mod 8 = j mod 8"
    by (auto simp: bit_exp_iff)
  moreover have "k = j \<longleftrightarrow> k mod 8 = j mod 8" using True by (metis div_mult_mod_eq)
  ultimately show ?thesis
    by (simp add: mask_bit_def mask_set_def True bit_or_iff)
next
  case False
  then show ?thesis by (auto simp: mask_bit_def mask_set_def)
qed

lemma length_mask_fold [simp]:
  "length (fold (\<lambda>r m. if P r then mask_set (f r) m else m) rs m) = length m"
  by (induction rs arbitrary: m) simp_all

lemma mask_bit_fold:
  assumes "\<forall>r \<in> set rs. f r < 8 * length m" "k < 8 * length m"
  shows "mask_bit (fold (\<lambda>r m. if P r then mask_set (f r) m else m) rs m) k \<longleftrightarrow>
    mask_bit m k \<or> (\<exists>r \<in> set rs. P r \<and> f r = k)"
  using assms
proof (induction rs arbitrary: m)
  case Nil
  then show ?case by simp
next
  case (Cons r rs)
  then show ?case by (auto simp: mask_bit_set)
qed

lemma length_mask_fold2 [simp]:
  "length (fold (\<lambda>c m. fold (\<lambda>r m. if P c r then mask_set (f c r) m else m) rs m) cs m) = length m"
  by (induction cs arbitrary: m) simp_all

lemma mask_bit_fold2:
  assumes "\<forall>c \<in> set cs. \<forall>r \<in> set rs. f c r < 8 * length m" "k < 8 * length m"
  shows "mask_bit (fold (\<lambda>c m. fold (\<lambda>r m. if P c r then mask_set (f c r) m else m) rs m) cs m) k \<longleftrightarrow>
    mask_bit m k \<or> (\<exists>c \<in> set cs. \<exists>r \<in> set rs. P c r \<and> f c r = k)"
  using assms
proof (induction cs arbitrary: m)
  case Nil
  then show ?case by simp
next
  case (Cons c cs)
  then show ?case by (auto simp: mask_bit_fold)
qed

lemma cell_unique:
  assumes "c < n" "c' < n" "r * n + c = r' * n + (c' :: nat)"
  shows "r = r' \<and> c = c'"
proof -
  have "(r * n + c) div n = (r' * n + c') div n" "(r * n + c) mod n = (r' * n + c') mod n"
    using assms(3) by simp_all
  then show ?thesis using assms(1,2) by simp
qed

lemma cell_bound: "c < n \<Longrightarrow> r < m \<Longrightarrow> r * n + c < n * (m :: nat)"
proof -
  assume "c < n" "r < m"
  then have "r * n + c < (r + 1) * n" by simp
  also have "\<dots> \<le> m * n" using \<open>r < m\<close> by (intro mult_right_mono) simp_all
  finally show ?thesis by (simp add: mult.commute)
qed

lemma write_null_mask_bit:
  assumes "num_columns * num_rows \<le> 8 * mb" "c < num_columns" "r < num_rows"
  shows "mask_bit (write_null_mask num_columns num_rows cols mb) (r * num_columns + c) \<longleftrightarrow>
    row_is_valid (col_validity (cols ! c)) r"
proof -
  have z: "\<not> mask_bit (replicate mb 0) (r * num_columns + c)"
    using cell_bound [OF assms(2,3)] assms(1)
    by (simp add: mask_bit_def less_mult_imp_div_less mult.commute)
  have b: "\<forall>c \<in> set [0..<num_columns]. \<forall>r \<in> set [0..<num_rows].
      r * num_columns + c < 8 * length (replicate mb (0 :: byte))"
  proof (intro ballI)
    fix c r assume "c \<in> set [0..<num_columns]" "r \<in> set [0..<num_rows]"
    then have "r * num_columns + c < num_columns * num_rows" by (intro cell_bound) simp_all
    then show "r * num_columns + c < 8 * length (replicate mb (0 :: byte))" using assms(1) by simp
  qed
  have k: "r * num_columns + c < 8 * length (replicate mb (0 :: byte))"
    using b assms(2,3) by simp
  have "(\<exists>c' \<in> set [0..<num_columns]. \<exists>r' \<in> set [0..<num_rows].
      row_is_valid (col_validity (cols ! c')) r' \<and> r' * num_columns + c' = r * num_columns + c) \<longleftrightarrow>
    row_is_valid (col_validity (cols ! c)) r" (is "?l \<longleftrightarrow> ?v")
  proof
    assume ?l
    then obtain c' r' where "c' < num_columns" "row_is_valid (col_validity (cols ! c')) r'"
      "r' * num_columns + c' = r * num_columns + c" by (auto simp only: atLeastLessThan_iff set_upt)
    with cell_unique [of c' num_columns c r' r] assms(2) show ?v by blast
  next
    assume v: ?v
    have "c \<in> set [0..<num_columns]" "r \<in> set [0..<num_rows]" using assms(2,3) by simp_all
    with v show ?l by blast
  qed
  then show ?thesis
    unfolding write_null_mask_def mask_bit_fold2 [OF b k] using z by blast
qed

section \<open>Well-formed columns\<close>

text \<open>\<open>column_sized\<close> is what makes the column's section as long as its size field says;
  \<open>column_wf\<close> is a string column, or a column of a fixed-width type of at most 8 bytes, with as many
  values and validity bits as the chunk has rows.\<close>

definition column_sized :: "nat \<Rightarrow> column \<Rightarrow> bool" where
  "column_sized num_rows c \<longleftrightarrow> type_wf (col_type c) \<and>
     (if is_variable_type (physical_type_of c)
      then length (strings_of c) = num_rows \<and> 4 * (num_rows + 1) + length (concat (strings_of c)) \<le> UINT32_MAX
      else fixed_type_size (physical_type_of c) * num_rows \<le> UINT32_MAX \<and>
           fixed_type_size (physical_type_of c) * num_rows \<le> length (raw_data_of c))"

definition column_wf :: "nat \<Rightarrow> column \<Rightarrow> bool" where
  "column_wf num_rows c \<longleftrightarrow> column_sized num_rows c \<and> to_physical_type (col_type c) \<noteq> None \<and>
     (case col_data c of
        String_Data ss \<Rightarrow> physical_type_of c = PT_STRING
      | Fixed_Data bs \<Rightarrow> 0 < fixed_type_size (physical_type_of c) \<and>
          object_size (physical_type_of c) = fixed_type_size (physical_type_of c) \<and>
          length bs = fixed_type_size (physical_type_of c) * num_rows
      | Nested_Data bs cs \<Rightarrow> False) \<and>
     (case col_validity c of None \<Rightarrow> True | Some vs \<Rightarrow> length vs = num_rows)"

definition norm_validity :: "bool list option \<Rightarrow> bool list option" where
  "norm_validity v = (case v of None \<Rightarrow> None | Some vs \<Rightarrow> if list_all id vs then None else Some vs)"

definition norm_column :: "column \<Rightarrow> column" where
  "norm_column c = Column (norm_type (col_type c)) (col_data c) (norm_validity (col_validity c))"

lemma foldl_string_sizes:
  "a + length (concat ss) \<le> UINT32_MAX \<Longrightarrow>
   foldl (\<lambda>n s. wrap32 (n + wrap32 (length s))) a ss = a + length (concat ss)"
  by (induction ss arbitrary: a) simp_all

lemma column_data_size_string:
  assumes "column_sized num_rows c" "is_variable_type (physical_type_of c)"
  shows "column_data_size num_rows c = 4 * (num_rows + 1) + length (concat (strings_of c))"
proof -
  have s: "length (strings_of c) = num_rows" "4 * (num_rows + 1) + length (concat (strings_of c)) \<le> UINT32_MAX"
    using assms by (simp_all add: column_sized_def)
  then have "foldl (\<lambda>n s. wrap32 (n + wrap32 (length s))) 0 (take num_rows (strings_of c)) =
      length (concat (strings_of c))"
    by (simp add: foldl_string_sizes)
  then show ?thesis using s assms(2) by (simp add: column_data_size_def)
qed

lemma column_data_size_fixed:
  "column_sized num_rows c \<Longrightarrow> \<not> is_variable_type (physical_type_of c) \<Longrightarrow>
   column_data_size num_rows c = fixed_type_size (physical_type_of c) * num_rows"
  by (simp add: column_sized_def column_data_size_def)

definition column_bytes :: "nat \<Rightarrow> column \<Rightarrow> byte list" where
  "column_bytes num_rows c =
     (if is_variable_type (physical_type_of c)
      then concat (map (le 4) (running_offsets 0 (take num_rows (strings_of c)))) @
           concat (take num_rows (strings_of c))
      else take (column_data_size num_rows c) (raw_data_of c))"

lemma write_column_split:
  "write_column num_rows c =
     write_type_header (col_type c) @ le 4 (column_data_size num_rows c) @ column_bytes num_rows c"
  by (simp add: write_column_def column_bytes_def)

lemma length_column_bytes:
  "column_sized num_rows c \<Longrightarrow> length (column_bytes num_rows c) = column_data_size num_rows c"
proof (cases "is_variable_type (physical_type_of c)")
  case True
  assume s: "column_sized num_rows c"
  then have "length (strings_of c) = num_rows" using True by (simp add: column_sized_def)
  then show ?thesis using column_data_size_string [OF s True] True by (simp add: column_bytes_def)
next
  case False
  assume s: "column_sized num_rows c"
  then show ?thesis using column_data_size_fixed [OF s False] False
    by (simp add: column_bytes_def column_sized_def)
qed

lemma column_data_size_bound: "column_sized num_rows c \<Longrightarrow> column_data_size num_rows c < 4294967296"
  using column_data_size_string [of num_rows c] column_data_size_fixed [of num_rows c]
  by (cases "is_variable_type (physical_type_of c)") (simp_all add: column_sized_def)

lemma length_write_column:
  "column_sized num_rows c \<Longrightarrow>
   length (write_column num_rows c) = compute_type_header_size (col_type c) + 4 + column_data_size num_rows c"
  using length_column_bytes [of num_rows c] length_write_type_header [of "col_type c"]
  by (simp add: write_column_split) (simp add: column_sized_def)

section \<open>The first pass\<close>

lemma read_types_write:
  "list_all (column_sized num_rows) cols \<Longrightarrow>
   read_types (length cols) (concat (map (write_column num_rows) cols) @ rest) =
     Done (map (\<lambda>c. norm_type (col_type c)) cols)"
proof (induction cols)
  case Nil
  then show ?case by simp
next
  case (Cons c cols)
  then have s: "column_sized num_rows c" by simp
  then have t: "type_wf (col_type c)" by (simp add: column_sized_def)
  let ?rest = "concat (map (write_column num_rows) cols) @ rest"
  have d: "column_data_size num_rows c mod 4294967296 = column_data_size num_rows c"
    using column_data_size_bound [OF s] by simp
  show ?case
    using Cons length_column_bytes [OF s] d
    by (simp add: write_column_split read_write_type_header [OF t])
qed

section \<open>The second pass\<close>

lemma physical_type_norm:
  assumes "type_wf t" "to_physical_type t = Some p" "p = PT_STRING \<or> 0 < fixed_type_size p"
  shows "to_physical_type (norm_type t) = Some p \<and> vector_constructible (norm_type t)"
proof (cases "ct_ext t")
  case None
  then show ?thesis using assms
    by (auto simp: to_physical_type_def norm_type_def plain_type_def alias_of_def split: if_splits)
next
  case (Some q)
  obtain al e where q: "q = (al, e)" by fastforce
  show ?thesis
  proof (cases e)
    case (ARRAY_EXT inner n)
    then have "ct_type t = LT_ARRAY" using assms(1) by (simp add: type_wf_def Some q)
    then have "p = PT_ARRAY" using assms(2)
      by (simp add: to_physical_type_def LT_ARRAY_def LT_DECIMAL_def to_physical_type0_def physical_type_table_def)
    then show ?thesis using assms(3) by simp
  next
    case (DECIMAL_EXT w s)
    then show ?thesis using assms
      by (auto simp: to_physical_type_def norm_type_def type_wf_def Some q LT_DECIMAL_def
          to_physical_type0_def physical_type_table_def)
  next
    case GENERIC_EXT
    then show ?thesis using assms
      by (auto simp: to_physical_type_def norm_type_def plain_type_def alias_of_def Some q split: if_splits)
  next
    case OTHER_EXT
    then show ?thesis using assms
      by (auto simp: to_physical_type_def norm_type_def plain_type_def alias_of_def Some q split: if_splits)
  qed
qed

lemma read_column_data_write:
  assumes "column_wf num_rows c"
  shows "read_column_data (physical_type_of c) num_rows (column_data_size num_rows c)
           (column_bytes num_rows c @ rest) = Done (col_data c)"
proof (cases "is_variable_type (physical_type_of c)")
  case True
  have s: "column_sized num_rows c" using assms by (simp add: column_wf_def)
  obtain ss where ss: "col_data c = String_Data ss"
    using assms True by (auto simp: column_wf_def is_variable_type_def split: payload.splits)
  then have str: "strings_of c = ss" by (simp add: strings_of_def)
  have n: "length ss = num_rows" "4 * (length ss + 1) + length (concat ss) \<le> UINT32_MAX"
    using s True str by (simp_all add: column_sized_def)
  have w: "wrap32 (wrap32 (num_rows + 1) * 4) = 4 * (num_rows + 1)" using n by simp
  have "read_strings (column_bytes num_rows c @ rest) (4 * (length ss + 1)) [0..<num_rows] =
      Done (map (\<lambda>r. ss ! r) [0..<num_rows])"
    using n by (intro read_strings_write [where rest = rest]) (simp_all add: column_bytes_def True str)
  moreover have "map (\<lambda>r. ss ! r) [0..<num_rows] = ss" using n(1) map_nth [of ss] by simp
  moreover have "\<not> column_data_size num_rows c < 4 * (num_rows + 1)"
    using column_data_size_string [OF s True] by simp
  ultimately show ?thesis using True n(1)
    by (simp only: read_column_data_def Let_def w if_True if_False then_do.simps ss)
next
  case False
  have s: "column_sized num_rows c" using assms by (simp add: column_wf_def)
  then obtain bs where bs: "col_data c = Fixed_Data bs"
    using assms False by (auto simp: column_wf_def is_variable_type_def split: payload.splits)
  then have "length bs = fixed_type_size (physical_type_of c) * num_rows"
    "object_size (physical_type_of c) = fixed_type_size (physical_type_of c)"
    using assms by (simp_all add: column_wf_def)
  then show ?thesis using column_data_size_fixed [OF s False] False bs
    by (simp add: read_column_data_def column_bytes_def raw_data_of_def)
qed

lemma read_validity_write:
  assumes m: "num_columns * num_rows \<le> 8 * mb" and c: "c < num_columns"
    and v: "case col_validity (cols ! c) of None \<Rightarrow> True | Some vs \<Rightarrow> length vs = num_rows"
  shows "read_validity num_columns num_rows c (write_null_mask num_columns num_rows cols mb @ rest) =
    Done (norm_validity (col_validity (cols ! c)))"
proof -
  let ?m = "write_null_mask num_columns num_rows cols mb"
  have len: "length ?m = mb" by (simp add: write_null_mask_def)
  have in_mask: "(r * num_columns + c) div 8 < mb" if "r < num_rows" for r
    using cell_bound [OF c that] m by (simp add: less_mult_imp_div_less mult.commute)
  have bits: "bit ((?m @ rest) ! ((r * num_columns + c) div 8)) ((r * num_columns + c) mod 8) =
      row_is_valid (col_validity (cols ! c)) r" if "r < num_rows" for r
    using write_null_mask_bit [OF m c that, of cols] in_mask [OF that] len
    by (simp add: mask_bit_def nth_append)
  have "\<not> (\<exists>r \<in> set [0..<num_rows]. length (?m @ rest) \<le> (r * num_columns + c) div 8)"
  proof
    assume "\<exists>r \<in> set [0..<num_rows]. length (?m @ rest) \<le> (r * num_columns + c) div 8"
    then obtain r where "r < num_rows" "length (?m @ rest) \<le> (r * num_columns + c) div 8" by auto
    with in_mask [of r] len show False by simp
  qed
  moreover have "map (\<lambda>r. bit ((?m @ rest) ! ((r * num_columns + c) div 8)) ((r * num_columns + c) mod 8))
      [0..<num_rows] = map (row_is_valid (col_validity (cols ! c))) [0..<num_rows]" (is "?vs = _")
    using bits by simp
  moreover have "(if list_all id (map (row_is_valid v) [0..<num_rows]) then None
      else Some (map (row_is_valid v) [0..<num_rows])) = norm_validity v"
    if "case v of None \<Rightarrow> True | Some vs \<Rightarrow> length vs = num_rows" for v
  proof (cases v)
    case None
    then show ?thesis by (simp add: norm_validity_def row_is_valid_def list_all_iff)
  next
    case (Some vs)
    then have "row_is_valid v = (\<lambda>r. vs ! r)" by (simp add: row_is_valid_def fun_eq_iff)
    then have "map (row_is_valid v) [0..<num_rows] = vs" using that map_nth [of vs] Some by simp
    then show ?thesis by (simp add: norm_validity_def Some)
  qed
  ultimately show ?thesis using v by (simp only: read_validity_def Let_def if_False)
qed

lemma column_wf_physical:
  assumes "column_wf num_rows c"
  shows "to_physical_type (norm_type (col_type c)) = Some (physical_type_of c) \<and>
    vector_constructible (norm_type (col_type c))"
proof (rule physical_type_norm)
  show "type_wf (col_type c)" using assms by (simp add: column_wf_def column_sized_def)
  show "to_physical_type (col_type c) = Some (physical_type_of c)"
    using assms by (auto simp: column_wf_def physical_type_of_def)
  show "physical_type_of c = PT_STRING \<or> 0 < fixed_type_size (physical_type_of c)"
    using assms by (auto simp: column_wf_def split: payload.splits)
qed

lemma read_columns_write:
  assumes wf: "list_all (column_wf num_rows) cols"
    and nmask: "\<forall>i < length cols.
      (case nmask of None \<Rightarrow> Done None | Some mk \<Rightarrow> read_validity num_columns num_rows (column_index + i) mk) =
        Done (norm_validity (col_validity (cols ! i)))"
  shows "read_columns num_columns num_rows nmask column_index (map (\<lambda>c. norm_type (col_type c)) cols)
      (concat (map (write_column num_rows) cols) @ rest) = Done (map norm_column cols)"
  using assms
proof (induction cols arbitrary: column_index)
  case Nil
  then show ?case by simp
next
  case (Cons c cols)
  have w: "column_wf num_rows c" using Cons.prems by simp
  then have s: "column_sized num_rows c" by (simp add: column_wf_def)
  then have t: "type_wf (col_type c)" by (simp add: column_sized_def)
  have d: "column_data_size num_rows c mod 4294967296 = column_data_size num_rows c"
    using column_data_size_bound [OF s] by simp
  have v: "(case nmask of None \<Rightarrow> Done None | Some mk \<Rightarrow> read_validity num_columns num_rows column_index mk) =
      Done (norm_validity (col_validity c))"
    using Cons.prems(2) [rule_format, of 0] by (cases nmask) simp_all
  have IH: "read_columns num_columns num_rows nmask (column_index + 1) (map (\<lambda>c. norm_type (col_type c)) cols)
      (concat (map (write_column num_rows) cols) @ rest) = Done (map norm_column cols)"
  proof (rule Cons.IH)
    show "list_all (column_wf num_rows) cols" using Cons.prems by simp
    show "\<forall>i < length cols. (case nmask of None \<Rightarrow> Done None
        | Some mk \<Rightarrow> read_validity num_columns num_rows (column_index + 1 + i) mk) =
          Done (norm_validity (col_validity (cols ! i)))"
    proof (intro allI impI)
      fix i assume "i < length cols"
      then show "(case nmask of None \<Rightarrow> Done None
        | Some mk \<Rightarrow> read_validity num_columns num_rows (column_index + 1 + i) mk) =
          Done (norm_validity (col_validity (cols ! i)))"
        using Cons.prems(2) [rule_format, of "Suc i"] by (cases nmask) simp_all
    qed
  qed
  show ?case
    using IH v d length_column_bytes [OF s] column_wf_physical [OF w] read_column_data_write [OF w]
    by (simp add: write_column_split [of num_rows c] read_write_type_header [OF t] norm_column_def [of c] Let_def)
qed

section \<open>The whole chunk\<close>

text \<open>\<open>chunk_sized\<close>: the counts and sizes of the chunk fit the fields of its binary form;
  \<open>chunk_wf\<close>: every column is well-formed as well.\<close>

definition chunk_sized :: "data_chunk \<Rightarrow> bool" where
  "chunk_sized chunk \<longleftrightarrow> length (chunk_columns chunk) \<le> UINT16_MAX \<and> chunk_size chunk \<le> UINT32_MAX \<and>
     length (chunk_columns chunk) * chunk_size chunk \<le> UINT32_MAX \<and>
     list_all (column_sized (chunk_size chunk)) (chunk_columns chunk)"

definition chunk_wf :: "data_chunk \<Rightarrow> bool" where
  "chunk_wf chunk \<longleftrightarrow> chunk_sized chunk \<and> list_all (column_wf (chunk_size chunk)) (chunk_columns chunk)"

definition norm_chunk :: "data_chunk \<Rightarrow> data_chunk" where
  "norm_chunk chunk = \<lparr>chunk_columns = map norm_column (chunk_columns chunk), chunk_size = chunk_size chunk\<rparr>"

definition has_nulls :: "data_chunk \<Rightarrow> bool" where
  "has_nulls chunk = (\<exists>c \<in> set (chunk_columns chunk). col_validity c \<noteq> None)"

definition mask_size :: "data_chunk \<Rightarrow> nat" where
  "mask_size chunk =
     (if has_nulls chunk then (length (chunk_columns chunk) * chunk_size chunk + 7) div 8 else 0)"

definition mask_of :: "data_chunk \<Rightarrow> byte list" where
  "mask_of chunk =
     (if has_nulls chunk
      then write_null_mask (length (chunk_columns chunk)) (chunk_size chunk) (chunk_columns chunk) (mask_size chunk)
      else [])"

lemma length_mask_of [simp]: "length (mask_of chunk) = mask_size chunk"
  by (simp add: mask_of_def write_null_mask_def mask_size_def)

lemma serialize_binary_split:
  assumes "chunk_sized chunk"
  shows "serialize_binary chunk =
    le 2 (length (chunk_columns chunk)) @ le 4 (chunk_size chunk) @ le 4 (mask_size chunk) @ mask_of chunk @
    concat (map (write_column (chunk_size chunk)) (chunk_columns chunk))"
proof -
  let ?cols = "chunk_columns chunk" and ?n = "chunk_size chunk"
  have b: "wrap16 (length ?cols) = length ?cols" "wrap32 ?n = ?n" and cells: "length ?cols * ?n \<le> UINT32_MAX"
    and sized: "list_all (column_sized ?n) ?cols"
    using assms by (simp_all add: chunk_sized_def)
  have len: "length (concat (map (write_column ?n) ?cols)) = sum_list (map (\<lambda>c.
      compute_type_header_size (col_type c) + 4 + column_data_size ?n c) ?cols)"
    using sized by (simp add: length_concat comp_def list_all_iff length_write_column cong: map_cong)
  have "(length ?cols * ?n + 7) div 8 \<le> UINT32_MAX" using cells by simp
  then have mb: "(if has_nulls chunk
      then if length ?cols * ?n > 0 then wrap32 ((length ?cols * ?n + 7) div 8) else 0 else 0) = mask_size chunk"
    by (auto simp: mask_size_def)
  show ?thesis
    unfolding serialize_binary_def Let_def b take_all [OF le_refl] has_nulls_def [symmetric] mb
    using len by (simp add: mask_of_def [symmetric])
qed

text \<open>What the reader makes of a sized chunk: it finds the types, and then the columns if vectors of
  these types can be built.\<close>

lemma deserialize_serialize:
  assumes "chunk_sized chunk"
  shows "deserialize_binary (serialize_binary chunk @ rest) =
    (let ts = map (\<lambda>c. norm_type (col_type c)) (chunk_columns chunk) in
     if \<not> list_all vector_constructible ts then Undefined
     else then_do (read_columns (length (chunk_columns chunk)) (chunk_size chunk)
            (if mask_size chunk > 0
             then Some (mask_of chunk @ concat (map (write_column (chunk_size chunk)) (chunk_columns chunk)) @ rest)
             else None) 0 ts
            (concat (map (write_column (chunk_size chunk)) (chunk_columns chunk)) @ rest))
          (\<lambda>cols. Done \<lparr>chunk_columns = cols, chunk_size = chunk_size chunk\<rparr>))"
proof -
  let ?cols = "chunk_columns chunk" and ?n = "chunk_size chunk"
  let ?body = "concat (map (write_column ?n) ?cols) @ rest"
  let ?data = "le 2 (length ?cols) @ le 4 ?n @ le 4 (mask_size chunk) @ mask_of chunk @ ?body"
  have b: "length ?cols < 65536" "?n < 4294967296" "length ?cols * ?n \<le> UINT32_MAX"
    and sized: "list_all (column_sized ?n) ?cols"
    using assms by (simp_all add: chunk_sized_def)
  have "mask_size chunk \<le> (length ?cols * ?n + 7) div 8" by (simp add: mask_size_def)
  also have "\<dots> < 4294967296" using b(3) by simp
  finally have mb: "mask_size chunk < 4294967296" .
  have data: "serialize_binary chunk @ rest = ?data"
    by (simp add: serialize_binary_split [OF assms])
  have d2: "drop 2 ?data = le 4 ?n @ le 4 (mask_size chunk) @ mask_of chunk @ ?body" by simp
  have d6: "drop 6 ?data = le 4 (mask_size chunk) @ mask_of chunk @ ?body" by simp
  have d10: "drop 10 ?data = mask_of chunk @ ?body" by simp
  have r: "rdp 2 ?data = length ?cols" "rdp 4 (drop 2 ?data) = ?n" "rdp 4 (drop 6 ?data) = mask_size chunk"
    using b mb by (simp_all only: d2 d6 rdp_le) simp_all
  have l: "\<not> length ?data < 10" by simp
  have l2: "\<not> (mask_size chunk > 0 \<and> length (mask_of chunk @ ?body) < mask_size chunk)" by simp
  have d: "drop (mask_size chunk) (mask_of chunk @ ?body) = ?body" by simp
  show ?thesis
    unfolding data deserialize_binary_def Let_def r d10 d
    using l l2 read_types_write [OF sized, of rest] by (simp only: if_False then_do.simps)
qed

lemma read_columns_serialized:
  assumes "chunk_wf chunk"
  shows "read_columns (length (chunk_columns chunk)) (chunk_size chunk)
      (if mask_size chunk > 0 then Some (mask_of chunk @ mrest) else None) 0
      (map (\<lambda>c. norm_type (col_type c)) (chunk_columns chunk))
      (concat (map (write_column (chunk_size chunk)) (chunk_columns chunk)) @ rest) =
    Done (map norm_column (chunk_columns chunk))"
proof (rule read_columns_write)
  let ?cols = "chunk_columns chunk" and ?n = "chunk_size chunk"
  show wf: "list_all (column_wf ?n) ?cols" using assms by (simp add: chunk_wf_def)
  show "\<forall>i < length ?cols. (case if mask_size chunk > 0 then Some (mask_of chunk @ mrest) else None of
        None \<Rightarrow> Done None | Some mk \<Rightarrow> read_validity (length ?cols) ?n (0 + i) mk) =
      Done (norm_validity (col_validity (?cols ! i)))"
  proof (intro allI impI)
    fix i assume i: "i < length ?cols"
    then have v: "case col_validity (?cols ! i) of None \<Rightarrow> True | Some vs \<Rightarrow> length vs = ?n"
      using wf by (auto simp: list_all_length column_wf_def)
    show "(case if mask_size chunk > 0 then Some (mask_of chunk @ mrest) else None of
        None \<Rightarrow> Done None | Some mk \<Rightarrow> read_validity (length ?cols) ?n (0 + i) mk) =
      Done (norm_validity (col_validity (?cols ! i)))"
    proof (cases "mask_size chunk > 0")
      case True
      then have "has_nulls chunk" by (auto simp: mask_size_def split: if_splits)
      then have m: "mask_of chunk = write_null_mask (length ?cols) ?n ?cols (mask_size chunk)"
        and "length ?cols * ?n \<le> 8 * mask_size chunk"
        by (simp_all add: mask_of_def mask_size_def)
      then show ?thesis using True read_validity_write [OF _ i v, of "mask_size chunk" mrest] by simp
    next
      case False
      have "norm_validity (col_validity (?cols ! i)) = None"
      proof (cases "has_nulls chunk")
        case True
        have "?n = 0"
        proof (rule ccontr)
          assume "?n \<noteq> 0"
          then have "0 < length ?cols * ?n" using i by auto
          then have "8 \<le> length ?cols * ?n + 7" by linarith
          then have "0 < (length ?cols * ?n + 7) div 8" by (simp add: div_greater_zero_iff)
          then show False using False True by (simp add: mask_size_def)
        qed
        then show ?thesis using v by (auto simp: norm_validity_def split: option.splits)
      next
        case False
        then show ?thesis using i by (auto simp: has_nulls_def norm_validity_def)
      qed
      then show ?thesis using False by simp
    qed
  qed
qed

lemma chunk_wf_constructible:
  "chunk_wf chunk \<Longrightarrow> list_all vector_constructible (map (\<lambda>c. norm_type (col_type c)) (chunk_columns chunk))"
  using column_wf_physical by (auto simp: chunk_wf_def list_all_iff)

lemma deserialize_serialize_wf:
  assumes "chunk_wf chunk"
  shows "deserialize_binary (serialize_binary chunk @ rest) = Done (norm_chunk chunk)"
proof -
  have s: "chunk_sized chunk" using assms by (simp add: chunk_wf_def)
  show ?thesis
    using read_columns_serialized [OF assms] chunk_wf_constructible [OF assms]
    by (simp add: deserialize_serialize [OF s] Let_def norm_chunk_def)
qed

section \<open>Properties of the codec\<close>

text \<open>A chunk is canonical when its types and validity masks are in the form the reader builds: no
  extension beyond alias, array of a plain type, or decimal; no mask without an invalid row.\<close>

definition chunk_canonical :: "data_chunk \<Rightarrow> bool" where
  "chunk_canonical chunk \<longleftrightarrow> list_all (\<lambda>c. norm_type (col_type c) = col_type c \<and>
     norm_validity (col_validity c) = col_validity c) (chunk_columns chunk)"

lemma norm_chunk_canonical: "chunk_canonical chunk \<Longrightarrow> norm_chunk chunk = chunk"
proof -
  assume "chunk_canonical chunk"
  then have "map norm_column (chunk_columns chunk) = chunk_columns chunk"
    by (intro map_idI) (auto simp: chunk_canonical_def norm_column_def list_all_iff)
  then show ?thesis by (simp add: norm_chunk_def)
qed

definition sample_chunk :: data_chunk where
  "sample_chunk = \<lparr>chunk_columns =
     [Column (Complex_Type LT_INTEGER None) (Fixed_Data [7, 0, 0, 0, 9, 0, 0, 0]) (Some [True, False]),
      Column (Complex_Type LT_STRING_LITERAL (Some ([110, 49], GENERIC_EXT))) (String_Data [[97, 98], []]) None],
     chunk_size = 2\<rparr>"

lemma sample_chunk_wf: "chunk_wf sample_chunk" and sample_chunk_canonical: "chunk_canonical sample_chunk"
  by (simp_all add: chunk_wf_def chunk_sized_def sample_chunk_def column_wf_def column_sized_def
      physical_type_of_def to_physical_type_def to_physical_type0_def physical_type_table_def
      LT_INTEGER_def LT_STRING_LITERAL_def LT_DECIMAL_def is_variable_type_def type_wf_def alias_of_def
      raw_data_of_def strings_of_def chunk_canonical_def norm_type_def plain_type_def norm_validity_def)



text \<open>The columns whose rows are lists, structs, unions or arrays, and a column with its data replaced.\<close>

definition nested_column :: "column \<Rightarrow> bool" where
  "nested_column c \<longleftrightarrow> physical_type_of c \<in> {PT_LIST, PT_STRUCT, PT_UNION, PT_ARRAY}"

definition with_data :: "payload \<Rightarrow> column \<Rightarrow> column" where
  "with_data p c = Column (col_type c) p (col_validity c)"

lemma with_data_simps [simp]:
  "col_type (with_data p c) = col_type c" "col_validity (with_data p c) = col_validity c"
  "physical_type_of (with_data p c) = physical_type_of c"
  by (simp_all add: with_data_def physical_type_of_def)

lemma nested_column_empty:
  assumes "nested_column c"
  shows "column_data_size n c = 0" "write_column n c = write_type_header (col_type c) @ le 4 0"
proof -
  have "\<not> is_variable_type (physical_type_of c)" "fixed_type_size (physical_type_of c) = 0"
    using assms by (auto simp: nested_column_def is_variable_type_def)
  then show size: "column_data_size n c = 0" by (simp add: column_data_size_def wrap32_def)
  show "write_column n c = write_type_header (col_type c) @ le 4 0"
    using \<open>\<not> is_variable_type (physical_type_of c)\<close> by (simp add: write_column_def size)
qed

lemma write_null_mask_validity:
  assumes "\<forall>i < n. col_validity (cols' ! i) = col_validity (cols ! i)"
  shows "write_null_mask n num_rows cols' mb = write_null_mask n num_rows cols mb"
  unfolding write_null_mask_def using assms by (intro fold_cong) simp_all

lemma take_replaced_column:
  assumes "i < length cs" "f x = f (cs ! i)"
  shows "map f (take n (cs[i := x])) = map f (take n cs)"
proof -
  have "map f (cs[i := x]) = map f cs"
    using assms list_update_id [of "map f cs" i] by (simp add: map_update)
  then show ?thesis by (simp only: take_map [symmetric])
qed

text \<open>C37. The data of a list, struct, union or array column never reaches the bytes: neither its own
  buffer nor its children. Whatever data replaces it, the chunk is written to the same bytes.\<close>

theorem nested_data_not_written:
  assumes "i < length (chunk_columns chunk)" and "nested_column (chunk_columns chunk ! i)"
  shows "serialize_binary (chunk\<lparr>chunk_columns :=
      (chunk_columns chunk)[i := with_data p (chunk_columns chunk ! i)]\<rparr>) = serialize_binary chunk"
proof -
  let ?cs = "chunk_columns chunk"
  let ?cs' = "?cs[i := with_data p (?cs ! i)]"
  have nested: "nested_column (with_data p (?cs ! i))" using assms(2) by (simp add: nested_column_def)
  note same = take_replaced_column [OF assms(1)]
  have valid: "map col_validity (take n ?cs') = map col_validity (take n ?cs)" for n by (rule same) simp
  have cols: "map (write_column r) (take n ?cs') = map (write_column r) (take n ?cs)" for n r
    by (rule same) (simp add: nested_column_empty [OF nested] nested_column_empty [OF assms(2)])
  have sizes: "map (\<lambda>c. compute_type_header_size (col_type c) + 4 + column_data_size r c) (take n ?cs') =
      map (\<lambda>c. compute_type_header_size (col_type c) + 4 + column_data_size r c) (take n ?cs)" for n r
    by (rule same) (simp add: nested_column_empty [OF nested] nested_column_empty [OF assms(2)])
  have nulls: "(\<exists>c \<in> set (take n ?cs'). col_validity c \<noteq> None) \<longleftrightarrow>
      (\<exists>c \<in> set (take n ?cs). col_validity c \<noteq> None)" for n
    using arg_cong [OF valid [of n], of "list_ex (\<lambda>v. v \<noteq> None)"] by (simp add: list_ex_iff)
  have mask: "write_null_mask n r (take n ?cs') mb = write_null_mask n r (take n ?cs) mb" for n r mb
    by (rule write_null_mask_validity) (use assms(1) in \<open>auto simp: nth_list_update\<close>)
  have sel: "chunk_columns (chunk\<lparr>chunk_columns := cs\<rparr>) = cs" "chunk_size (chunk\<lparr>chunk_columns := cs\<rparr>) = chunk_size chunk"
    for cs by simp_all
  show ?thesis
    by (simp only: serialize_binary_def Let_def sel length_list_update mask nulls cols sizes)
qed

text \<open>A list column with one row: the list entry (offset 0, length 1) and the element.\<close>

definition list_chunk :: data_chunk where
  "list_chunk = \<lparr>chunk_columns =
     [Column (Complex_Type 101 (Some ([], OTHER_EXT)))
        (Nested_Data (le 8 0 @ le 8 1) [Column (Complex_Type LT_INTEGER None) (Fixed_Data [1, 0, 0, 0]) None]) None],
     chunk_size = 1\<rparr>"

theorem nested_data_not_written_witness:
  "list_chunk\<lparr>chunk_columns := [with_data (Nested_Data (le 8 0 @ le 8 0) []) (hd (chunk_columns list_chunk))]\<rparr>
     \<noteq> list_chunk \<and>
   serialize_binary (list_chunk\<lparr>chunk_columns :=
     [with_data (Nested_Data (le 8 0 @ le 8 0) []) (hd (chunk_columns list_chunk))]\<rparr>) = serialize_binary list_chunk"
proof
  show "list_chunk\<lparr>chunk_columns := [with_data (Nested_Data (le 8 0 @ le 8 0) []) (hd (chunk_columns list_chunk))]\<rparr>
     \<noteq> list_chunk"
    by (simp add: list_chunk_def with_data_def)
  have "nested_column (chunk_columns list_chunk ! 0)"
    by (simp add: nested_column_def list_chunk_def physical_type_of_def to_physical_type_def
        to_physical_type0_def physical_type_table_def LT_DECIMAL_def)
  from nested_data_not_written [OF _ this, of "Nested_Data (le 8 0 @ le 8 0) []"]
  show "serialize_binary (list_chunk\<lparr>chunk_columns :=
     [with_data (Nested_Data (le 8 0 @ le 8 0) []) (hd (chunk_columns list_chunk))]\<rparr>) = serialize_binary list_chunk"
    by (simp add: list_chunk_def)
qed

text \<open>C36. A chunk with a list, map, struct, union or variant column can be written but not read: the
  reader gets the bare type code, and building a vector of that type reads the missing extension.\<close>

theorem list_column_unreadable:
  assumes "chunk_sized chunk" and "c \<in> set (chunk_columns chunk)"
    and "ct_ext (col_type c) = Some (al, OTHER_EXT)"
    and "ct_type (col_type c) \<in> {100, 101, 102, 107, 108}"
  shows "deserialize_binary (serialize_binary chunk @ rest) = Undefined"
proof -
  have "\<not> vector_constructible (norm_type (col_type c))"
    using assms(3,4)
    by (cases "al = []") (auto simp: norm_type_def plain_type_def alias_of_def LT_DECIMAL_def
        to_physical_type0_def physical_type_table_def)
  then have "\<not> list_all vector_constructible (map (\<lambda>c. norm_type (col_type c)) (chunk_columns chunk))"
    using assms(2) by (auto simp: list_all_iff)
  then show ?thesis by (simp add: deserialize_serialize [OF assms(1)] Let_def)
qed

theorem list_column_unreadable_witness:
  "chunk_sized list_chunk \<and> deserialize_binary (serialize_binary list_chunk) = Undefined"
proof -
  have s: "chunk_sized list_chunk"
    by (simp add: chunk_sized_def list_chunk_def column_sized_def physical_type_of_def to_physical_type_def
        to_physical_type0_def physical_type_table_def LT_DECIMAL_def is_variable_type_def type_wf_def alias_of_def)
  have "deserialize_binary (serialize_binary list_chunk @ []) = Undefined"
    by (rule list_column_unreadable [OF s, of "hd (chunk_columns list_chunk)" "[]"])
      (simp_all add: list_chunk_def)
  with s show ?thesis by simp
qed

end
