(* ===== verification/Wal_Binary.thy ===== *)
theory Wal_Binary
  imports Chunk_Binary
begin

text \<open>
  The records of the write-ahead log: \<open>services/wal/wal_binary.cpp\<close> and \<open>record.hpp\<close>. The four
  encoders of data records and the COMMIT encoder append to a buffer; \<open>decode_record\<close> reads one
  record back.

  The CRC-32C function of the abseil library is the parameter \<open>crc\<close>, a function from bytes to a
  32-bit word; nothing else is assumed of it. A 64-bit signed row id is its bit pattern. A read outside
  the buffer handed to the decoder, or a copy beyond a vector's end, is \<open>Undefined\<close>.
\<close>

section \<open>Records\<close>

text \<open>\<open>wal_record_type\<close> is an enumeration over a byte, cast from the byte on disk.\<close>

type_synonym wal_record_type = nat

definition COMMIT :: wal_record_type where "COMMIT = 1"
definition PHYSICAL_INSERT :: wal_record_type where "PHYSICAL_INSERT = 10"
definition PHYSICAL_DELETE :: wal_record_type where "PHYSICAL_DELETE = 11"
definition PHYSICAL_UPDATE :: wal_record_type where "PHYSICAL_UPDATE = 12"
definition PHYSICAL_ADD_COLUMN :: wal_record_type where "PHYSICAL_ADD_COLUMN = 13"

lemmas record_types = COMMIT_def PHYSICAL_INSERT_def PHYSICAL_DELETE_def PHYSICAL_UPDATE_def
  PHYSICAL_ADD_COLUMN_def

record record_t =
  rec_size :: nat
  rec_crc32 :: "32 word"
  rec_last_crc32 :: nat
  rec_id :: nat
  rec_transaction_id :: nat
  rec_commit_id :: nat
  rec_type :: wal_record_type
  rec_table_oid :: nat
  rec_physical_data :: "data_chunk option"
  rec_row_ids :: "nat list"
  rec_row_start :: nat
  rec_row_count :: nat
  rec_is_corrupt :: bool

text \<open>A default-initialised record. The source leaves size, crc32, last_crc32 and id uninitialised; they
  are 0 here, and are read only after the decoder has set them.\<close>

definition fresh_record :: record_t where
  "fresh_record = \<lparr>rec_size = 0, rec_crc32 = 0, rec_last_crc32 = 0, rec_id = 0, rec_transaction_id = 0,
     rec_commit_id = 0, rec_type = COMMIT, rec_table_oid = 0, rec_physical_data = None, rec_row_ids = [],
     rec_row_start = 0, rec_row_count = 0, rec_is_corrupt = False\<rparr>"

definition is_valid :: "record_t \<Rightarrow> bool" where
  "is_valid r \<longleftrightarrow> rec_size r > 0 \<and> \<not> rec_is_corrupt r"

definition is_commit_marker :: "record_t \<Rightarrow> bool" where
  "is_commit_marker r \<longleftrightarrow> rec_type r = COMMIT"

definition is_physical :: "record_t \<Rightarrow> bool" where
  "is_physical r \<longleftrightarrow> rec_type r = PHYSICAL_INSERT \<or> rec_type r = PHYSICAL_DELETE \<or>
     rec_type r = PHYSICAL_UPDATE \<or> rec_type r = PHYSICAL_ADD_COLUMN"

section \<open>Encoders\<close>

definition DML_FIXED_HEADER :: nat where
  "DML_FIXED_HEADER = 4 + 8 + 8 + 1 + 4 + 8 + 8 + 4"

text \<open>The part of a data record its checksum covers.\<close>

definition dml_body ::
  "32 word \<Rightarrow> nat \<Rightarrow> nat \<Rightarrow> wal_record_type \<Rightarrow> nat \<Rightarrow> nat \<Rightarrow> nat \<Rightarrow> byte list \<Rightarrow> byte list" where
  "dml_body last_crc32 wal_id txn_id rtype table_oid row_start row_count payload =
     le 4 (unat last_crc32) @ le 8 wal_id @ le 8 txn_id @ [word_of_nat rtype] @ le 4 table_oid @
     le 8 row_start @ le 8 row_count @ le 4 (length payload) @ payload"

text \<open>\<open>size_field\<close> is 32 bits: where it wraps the copies overrun the resized buffer.\<close>

definition write_dml_record ::
  "(byte list \<Rightarrow> 32 word) \<Rightarrow> byte list \<Rightarrow> 32 word \<Rightarrow> nat \<Rightarrow> nat \<Rightarrow> wal_record_type \<Rightarrow> nat \<Rightarrow> nat \<Rightarrow> nat \<Rightarrow>
   byte list \<Rightarrow> nat \<Rightarrow> (byte list \<times> 32 word) outcome" where
  "write_dml_record crc buffer last_crc32 wal_id txn_id rtype table_oid row_start row_count payload payload_size =
     (let size_field = wrap32 (DML_FIXED_HEADER + payload_size);
          body = dml_body last_crc32 wal_id txn_id rtype table_oid row_start row_count (take payload_size payload)
      in if size_field < DML_FIXED_HEADER + payload_size \<or> length payload < payload_size then Undefined
         else Done (buffer @ le 4 size_field @ body @ le 4 (unat (crc body)), crc body))"

definition encode_insert ::
  "(byte list \<Rightarrow> 32 word) \<Rightarrow> byte list \<Rightarrow> 32 word \<Rightarrow> nat \<Rightarrow> nat \<Rightarrow> nat \<Rightarrow> data_chunk \<Rightarrow> nat \<Rightarrow> nat \<Rightarrow>
   (byte list \<times> 32 word) outcome" where
  "encode_insert crc buffer last_crc32 wal_id txn_id table_oid chunk row_start row_count =
     (let payload_buf = serialize_binary chunk
      in write_dml_record crc buffer last_crc32 wal_id txn_id PHYSICAL_INSERT table_oid row_start row_count
           payload_buf (wrap32 (length payload_buf)))"

definition encode_add_column ::
  "(byte list \<Rightarrow> 32 word) \<Rightarrow> byte list \<Rightarrow> 32 word \<Rightarrow> nat \<Rightarrow> nat \<Rightarrow> nat \<Rightarrow> data_chunk \<Rightarrow> nat \<Rightarrow>
   (byte list \<times> 32 word) outcome" where
  "encode_add_column crc buffer last_crc32 wal_id txn_id table_oid schema_chunk column_count =
     (let payload_buf = serialize_binary schema_chunk
      in write_dml_record crc buffer last_crc32 wal_id txn_id PHYSICAL_ADD_COLUMN table_oid 0 column_count
           payload_buf (wrap32 (length payload_buf)))"

text \<open>An array of 64-bit row ids in memory.\<close>

definition row_ids_bytes :: "nat list \<Rightarrow> byte list" where
  "row_ids_bytes ids = concat (map (le 8) ids)"

definition encode_delete ::
  "(byte list \<Rightarrow> 32 word) \<Rightarrow> byte list \<Rightarrow> 32 word \<Rightarrow> nat \<Rightarrow> nat \<Rightarrow> nat \<Rightarrow> nat list \<Rightarrow> nat \<Rightarrow>
   (byte list \<times> 32 word) outcome" where
  "encode_delete crc buffer last_crc32 wal_id txn_id table_oid row_ids cnt =
     write_dml_record crc buffer last_crc32 wal_id txn_id PHYSICAL_DELETE table_oid 0 cnt
       (row_ids_bytes row_ids) (wrap32 (cnt * 8))"

definition encode_update ::
  "(byte list \<Rightarrow> 32 word) \<Rightarrow> byte list \<Rightarrow> 32 word \<Rightarrow> nat \<Rightarrow> nat \<Rightarrow> nat \<Rightarrow> nat list \<Rightarrow> data_chunk \<Rightarrow> nat \<Rightarrow>
   (byte list \<times> 32 word) outcome" where
  "encode_update crc buffer last_crc32 wal_id txn_id table_oid row_ids new_data cnt =
     (let ids_size = wrap32 (cnt * 8);
          payload_buf = le 4 ids_size @ take ids_size (row_ids_bytes row_ids) @ serialize_binary new_data
      in if length (row_ids_bytes row_ids) < ids_size then Undefined
         else write_dml_record crc buffer last_crc32 wal_id txn_id PHYSICAL_UPDATE table_oid 0 cnt
                payload_buf (wrap32 (length payload_buf)))"

definition commit_body :: "32 word \<Rightarrow> nat \<Rightarrow> nat \<Rightarrow> nat \<Rightarrow> byte list" where
  "commit_body last_crc32 wal_id txn_id commit_id =
     le 4 (unat last_crc32) @ le 8 wal_id @ le 8 txn_id @ [word_of_nat COMMIT] @ le 8 commit_id"

definition COMMIT_BODY_SIZE :: nat where
  "COMMIT_BODY_SIZE = 4 + 8 + 8 + 1 + 8"

definition encode_commit ::
  "(byte list \<Rightarrow> 32 word) \<Rightarrow> byte list \<Rightarrow> 32 word \<Rightarrow> nat \<Rightarrow> nat \<Rightarrow> nat \<Rightarrow> byte list \<times> 32 word" where
  "encode_commit crc buffer last_crc32 wal_id txn_id commit_id =
     (let body = commit_body last_crc32 wal_id txn_id commit_id
      in (buffer @ le 4 COMMIT_BODY_SIZE @ body @ le 4 (unat (crc body)), crc body))"

section \<open>Decoder\<close>

definition corrupt :: "record_t \<Rightarrow> record_t" where
  "corrupt r = r\<lparr>rec_is_corrupt := True\<rparr>"

definition read_row_ids :: "nat \<Rightarrow> byte list \<Rightarrow> nat list" where
  "read_row_ids n bs = map (\<lambda>i. rd 8 (8 * i) bs) [0..<n]"

text \<open>A data chunk in a payload; an empty one leaves \<open>physical_data\<close> null.\<close>

definition decode_chunk :: "record_t \<Rightarrow> byte list \<Rightarrow> record_t outcome" where
  "decode_chunk r bs =
     (if bs = [] then Done r
      else case deserialize_binary bs of
             Done chunk \<Rightarrow> Done (r\<lparr>rec_physical_data := Some chunk\<rparr>)
           | Rejected \<Rightarrow> Done (corrupt r)
           | Thrown \<Rightarrow> Thrown
           | Undefined \<Rightarrow> Undefined)"

definition decode_payload :: "record_t \<Rightarrow> byte list \<Rightarrow> record_t outcome" where
  "decode_payload r payload =
     (if rec_type r = PHYSICAL_INSERT \<or> rec_type r = PHYSICAL_ADD_COLUMN then decode_chunk r payload
      else if rec_type r = PHYSICAL_DELETE then
        (let cnt = length payload div 8
         in if 8 * cnt < length payload then Undefined
            else Done (r\<lparr>rec_row_ids := read_row_ids cnt payload\<rparr>))
      else if rec_type r = PHYSICAL_UPDATE then
        (if length payload < 4 then Done (corrupt r)
         else let ids_size = rd 4 0 payload
              in if wrap32 (4 + ids_size) > length payload then Done (corrupt r)
                 else if 8 * (ids_size div 8) < ids_size \<or> length payload < 4 + ids_size then Undefined
                 else decode_chunk (r\<lparr>rec_row_ids := read_row_ids (ids_size div 8) (drop 4 payload)\<rparr>)
                        (drop (4 + ids_size) payload))
      else Done (corrupt r))"

text \<open>\<open>ptr\<close> after the checksum test: the body of the record, followed by the rest of the buffer.\<close>

definition decode_body :: "record_t \<Rightarrow> nat \<Rightarrow> byte list \<Rightarrow> record_t outcome" where
  "decode_body r body_size ptr =
     (let r = r\<lparr>rec_last_crc32 := rd 4 0 ptr, rec_id := rd 8 4 ptr, rec_transaction_id := rd 8 12 ptr,
                rec_type := rd 1 20 ptr\<rparr>
      in if rec_type r = COMMIT then Done (r\<lparr>rec_commit_id := rd 8 21 ptr\<rparr>)
         else if body_size < DML_FIXED_HEADER then Done (corrupt r)
         else let r = r\<lparr>rec_table_oid := rd 4 21 ptr, rec_row_start := rd 8 25 ptr, rec_row_count := rd 8 33 ptr\<rparr>;
                  payload_size = rd 4 41 ptr
              in if DML_FIXED_HEADER + payload_size \<noteq> body_size then Done (corrupt r)
                 else decode_payload r (bslice 45 payload_size ptr))"

text \<open>The test \<open>4 + body_size + 4 > len\<close> is evaluated in 32 bits.\<close>

definition decode_record :: "(byte list \<Rightarrow> 32 word) \<Rightarrow> byte list \<Rightarrow> record_t outcome" where
  "decode_record crc data =
     (if length data < 37 then Done (corrupt fresh_record)
      else let body_size = rd 4 0 data
           in if wrap32 (4 + body_size + 4) > length data then Done (corrupt fresh_record)
              else if length data < 4 + body_size + 4 then Undefined
              else let r = fresh_record\<lparr>rec_size := wrap32 (4 + body_size + 4)\<rparr>;
                       expected_crc = word_of_nat (rd 4 (4 + body_size) data);
                       actual_crc = crc (bslice 4 body_size data)
                   in if expected_crc \<noteq> actual_crc then Done (corrupt (r\<lparr>rec_crc32 := expected_crc\<rparr>))
                      else decode_body (r\<lparr>rec_crc32 := actual_crc\<rparr>) body_size (drop 4 data))"

definition extract_crc :: "byte list \<Rightarrow> nat" where
  "extract_crc data = (if length data < 4 then 0 else rd 4 (length data - 4) data)"

section \<open>Framing\<close>

lemma rd_skip [buf_simps]: "length as \<le> off \<Longrightarrow> rd k off (as @ bs) = rd k (off - length as) bs"
  by (simp add: rd_def buf_simps)

lemma rd_le_0 [buf_simps]: "rd k 0 (le k n @ bs) = n mod 256 ^ k"
  by (simp add: rd_def buf_simps)

lemma rd_le_all [buf_simps]: "rd k 0 (le k n) = n mod 256 ^ k"
  by (simp add: rd_def buf_simps)

lemma rd_byte [buf_simps]: "rd 1 0 (b # bs) = unat b"
  by (simp add: rd_def bslice_def)

lemma rd_Cons [buf_simps]: "0 < off \<Longrightarrow> rd k off (b # bs) = rd k (off - 1) bs"
  by (cases off) (simp_all add: rd_def bslice_def)

lemma unat_32_less: "unat (w :: 32 word) < 4294967296"
  using unsigned_less [of w, where 'a = nat] by simp

text \<open>A record on disk: the size, the body, the checksum of the body.\<close>

definition framed :: "(byte list \<Rightarrow> 32 word) \<Rightarrow> byte list \<Rightarrow> byte list" where
  "framed crc body = le 4 (length body) @ body @ le 4 (unat (crc body))"

lemma length_framed [simp]: "length (framed crc body) = length body + 8"
  by (simp add: framed_def)

lemma decode_framed:
  assumes "29 \<le> length body" "length body + 8 \<le> UINT32_MAX"
  shows "decode_record crc (framed crc body @ rest) =
    decode_body (fresh_record\<lparr>rec_size := length body + 8, rec_crc32 := crc body\<rparr>) (length body)
      (body @ le 4 (unat (crc body)) @ rest)"
proof -
  let ?data = "framed crc body @ rest"
  have split: "?data = le 4 (length body) @ body @ le 4 (unat (crc body)) @ rest" by (simp add: framed_def)
  have size: "rd 4 0 ?data = length body" using assms by (simp add: split buf_simps)
  have w: "wrap32 (4 + length body + 4) = length body + 8" using assms by simp
  have crc: "rd 4 (4 + length body) ?data = unat (crc body)"
    using unat_32_less [of "crc body"] by (simp add: split buf_simps)
  have body: "bslice 4 (length body) ?data = body" by (simp add: split buf_simps)
  have d: "drop 4 ?data = body @ le 4 (unat (crc body)) @ rest" by (simp add: split)
  have len: "\<not> length ?data < 37" "\<not> length body + 8 > length ?data" "\<not> length ?data < 4 + length body + 4"
    using assms by simp_all
  show ?thesis
    unfolding decode_record_def Let_def size w crc body d using len by simp
qed

section \<open>Log entries\<close>

text \<open>What the worker logs, with the encoder it uses for it and the record it stands for.\<close>

datatype log_entry =
    Insert_Entry nat data_chunk nat nat
  | Add_Column_Entry nat data_chunk nat
  | Delete_Entry nat "nat list"
  | Update_Entry nat "nat list" data_chunk
  | Commit_Entry nat

definition encode_entry ::
  "(byte list \<Rightarrow> 32 word) \<Rightarrow> byte list \<Rightarrow> 32 word \<Rightarrow> nat \<Rightarrow> nat \<Rightarrow> log_entry \<Rightarrow> (byte list \<times> 32 word) outcome" where
  "encode_entry crc buffer last_crc32 wal_id txn_id e =
     (case e of
        Insert_Entry oid chunk start n \<Rightarrow> encode_insert crc buffer last_crc32 wal_id txn_id oid chunk start n
      | Add_Column_Entry oid chunk n \<Rightarrow> encode_add_column crc buffer last_crc32 wal_id txn_id oid chunk n
      | Delete_Entry oid ids \<Rightarrow> encode_delete crc buffer last_crc32 wal_id txn_id oid ids (length ids)
      | Update_Entry oid ids chunk \<Rightarrow> encode_update crc buffer last_crc32 wal_id txn_id oid ids chunk (length ids)
      | Commit_Entry cid \<Rightarrow> Done (encode_commit crc buffer last_crc32 wal_id txn_id cid))"

fun entry_payload :: "log_entry \<Rightarrow> byte list" where
  "entry_payload (Insert_Entry oid chunk start n) = serialize_binary chunk"
| "entry_payload (Add_Column_Entry oid chunk n) = serialize_binary chunk"
| "entry_payload (Delete_Entry oid ids) = row_ids_bytes ids"
| "entry_payload (Update_Entry oid ids chunk) = le 4 (8 * length ids) @ row_ids_bytes ids @ serialize_binary chunk"
| "entry_payload (Commit_Entry cid) = []"

fun entry_body :: "32 word \<Rightarrow> nat \<Rightarrow> nat \<Rightarrow> log_entry \<Rightarrow> byte list" where
  "entry_body last_crc32 wal_id txn_id (Insert_Entry oid chunk start n) =
     dml_body last_crc32 wal_id txn_id PHYSICAL_INSERT oid start n (serialize_binary chunk)"
| "entry_body last_crc32 wal_id txn_id (Add_Column_Entry oid chunk n) =
     dml_body last_crc32 wal_id txn_id PHYSICAL_ADD_COLUMN oid 0 n (serialize_binary chunk)"
| "entry_body last_crc32 wal_id txn_id (Delete_Entry oid ids) =
     dml_body last_crc32 wal_id txn_id PHYSICAL_DELETE oid 0 (length ids) (row_ids_bytes ids)"
| "entry_body last_crc32 wal_id txn_id (Update_Entry oid ids chunk) =
     dml_body last_crc32 wal_id txn_id PHYSICAL_UPDATE oid 0 (length ids)
       (le 4 (8 * length ids) @ row_ids_bytes ids @ serialize_binary chunk)"
| "entry_body last_crc32 wal_id txn_id (Commit_Entry cid) = commit_body last_crc32 wal_id txn_id cid"

fun entry_fields_wf :: "log_entry \<Rightarrow> bool" where
  "entry_fields_wf (Insert_Entry oid chunk start n) \<longleftrightarrow>
     chunk_wf chunk \<and> oid \<le> UINT32_MAX \<and> start \<le> UINT64_MAX \<and> n \<le> UINT64_MAX"
| "entry_fields_wf (Add_Column_Entry oid chunk n) \<longleftrightarrow> chunk_wf chunk \<and> oid \<le> UINT32_MAX \<and> n \<le> UINT64_MAX"
| "entry_fields_wf (Delete_Entry oid ids) \<longleftrightarrow> oid \<le> UINT32_MAX \<and> list_all (\<lambda>i. i \<le> UINT64_MAX) ids"
| "entry_fields_wf (Update_Entry oid ids chunk) \<longleftrightarrow>
     chunk_wf chunk \<and> oid \<le> UINT32_MAX \<and> list_all (\<lambda>i. i \<le> UINT64_MAX) ids"
| "entry_fields_wf (Commit_Entry cid) \<longleftrightarrow> cid \<le> UINT64_MAX"

text \<open>The sizes of a record fit its 32-bit size fields.\<close>

definition entry_wf :: "log_entry \<Rightarrow> bool" where
  "entry_wf e \<longleftrightarrow> entry_fields_wf e \<and> length (entry_payload e) + 53 \<le> UINT32_MAX"

text \<open>The record an entry is read back as; chunks come back in canonical form.\<close>

fun entry_record :: "record_t \<Rightarrow> log_entry \<Rightarrow> record_t" where
  "entry_record r (Insert_Entry oid chunk start n) = r\<lparr>rec_type := PHYSICAL_INSERT, rec_table_oid := oid,
     rec_row_start := start, rec_row_count := n, rec_physical_data := Some (norm_chunk chunk)\<rparr>"
| "entry_record r (Add_Column_Entry oid chunk n) = r\<lparr>rec_type := PHYSICAL_ADD_COLUMN, rec_table_oid := oid,
     rec_row_start := 0, rec_row_count := n, rec_physical_data := Some (norm_chunk chunk)\<rparr>"
| "entry_record r (Delete_Entry oid ids) = r\<lparr>rec_type := PHYSICAL_DELETE, rec_table_oid := oid,
     rec_row_start := 0, rec_row_count := length ids, rec_row_ids := ids\<rparr>"
| "entry_record r (Update_Entry oid ids chunk) = r\<lparr>rec_type := PHYSICAL_UPDATE, rec_table_oid := oid,
     rec_row_start := 0, rec_row_count := length ids, rec_row_ids := ids,
     rec_physical_data := Some (norm_chunk chunk)\<rparr>"
| "entry_record r (Commit_Entry cid) = r\<lparr>rec_type := COMMIT, rec_commit_id := cid\<rparr>"

lemma length_row_ids_bytes [simp]: "length (row_ids_bytes ids) = 8 * length ids"
  by (simp add: row_ids_bytes_def)

lemma length_dml_body [simp]:
  "length (dml_body last_crc32 wal_id txn_id rtype oid start n payload) = 45 + length payload"
  by (simp add: dml_body_def)

lemma length_commit_body [simp]: "length (commit_body last_crc32 wal_id txn_id cid) = 29"
  by (simp add: commit_body_def)

lemma entry_body_length:
  "entry_wf e \<Longrightarrow> 29 \<le> length (entry_body last_crc32 wal_id txn_id e) \<and>
    length (entry_body last_crc32 wal_id txn_id e) + 8 \<le> UINT32_MAX"
  by (cases e) (simp_all add: entry_wf_def)

lemma write_dml_record_eq:
  assumes "length payload + 53 \<le> UINT32_MAX"
  shows "write_dml_record crc buffer last_crc32 wal_id txn_id rtype oid start n payload (length payload) =
    Done (buffer @ framed crc (dml_body last_crc32 wal_id txn_id rtype oid start n payload),
          crc (dml_body last_crc32 wal_id txn_id rtype oid start n payload))"
  using assms by (simp add: write_dml_record_def framed_def Let_def DML_FIXED_HEADER_def)

lemma encode_entry_eq:
  assumes "entry_wf e"
  shows "encode_entry crc buffer last_crc32 wal_id txn_id e =
    Done (buffer @ framed crc (entry_body last_crc32 wal_id txn_id e), crc (entry_body last_crc32 wal_id txn_id e))"
proof (cases e)
  case (Delete_Entry oid ids)
  then have w: "wrap32 (length ids * 8) = length (row_ids_bytes ids)"
    using assms by (simp add: entry_wf_def mult.commute)
  show ?thesis using assms
    by (simp only: Delete_Entry encode_entry_def encode_delete_def log_entry.case w entry_body.simps
        entry_wf_def entry_payload.simps write_dml_record_eq)
next
  case (Update_Entry oid ids chunk)
  then have w: "wrap32 (length ids * 8) = 8 * length ids"
    using assms by (simp add: entry_wf_def mult.commute)
  have "wrap32 (length (entry_payload e)) = length (entry_payload e)"
    using assms by (simp add: entry_wf_def)
  then show ?thesis using assms write_dml_record_eq [of "entry_payload e" crc buffer last_crc32 wal_id txn_id]
    by (simp add: Update_Entry encode_entry_def encode_update_def w entry_wf_def Let_def)
next
  case (Commit_Entry cid)
  then show ?thesis by (simp add: encode_entry_def encode_commit_def framed_def Let_def COMMIT_BODY_SIZE_def)
qed (use assms in \<open>simp_all add: encode_entry_def encode_insert_def encode_add_column_def Let_def entry_wf_def
    write_dml_record_eq\<close>)

section \<open>Decoding an encoded entry\<close>

lemma dml_body_fields:
  fixes last_crc32 :: "32 word"
  assumes "wal_id \<le> UINT64_MAX" "txn_id \<le> UINT64_MAX" "rtype < 256" "oid \<le> UINT32_MAX"
    and "start \<le> UINT64_MAX" "n \<le> UINT64_MAX" "length payload \<le> UINT32_MAX"
  defines "b \<equiv> dml_body last_crc32 wal_id txn_id rtype oid start n payload"
  shows "rd 4 0 (b @ t) = unat last_crc32" "rd 8 4 (b @ t) = wal_id" "rd 8 12 (b @ t) = txn_id"
    "rd 1 20 (b @ t) = rtype" "rd 4 21 (b @ t) = oid" "rd 8 25 (b @ t) = start" "rd 8 33 (b @ t) = n"
    "rd 4 41 (b @ t) = length payload" "bslice 45 (length payload) (b @ t) = payload"
  using assms(1-7) unat_32_less [of last_crc32]
  by (simp_all add: b_def dml_body_def buf_simps bslice_def del: One_nat_def)

lemma commit_body_fields:
  fixes last_crc32 :: "32 word"
  assumes "wal_id \<le> UINT64_MAX" "txn_id \<le> UINT64_MAX" "cid \<le> UINT64_MAX"
  defines "b \<equiv> commit_body last_crc32 wal_id txn_id cid"
  shows "rd 4 0 (b @ t) = unat last_crc32" "rd 8 4 (b @ t) = wal_id" "rd 8 12 (b @ t) = txn_id"
    "rd 1 20 (b @ t) = COMMIT" "rd 8 21 (b @ t) = cid"
  using assms(1-3) unat_32_less [of last_crc32]
  by (simp_all add: b_def commit_body_def buf_simps COMMIT_def del: One_nat_def)

text \<open>The header fields every record gets.\<close>

definition entry_header :: "record_t \<Rightarrow> 32 word \<Rightarrow> nat \<Rightarrow> nat \<Rightarrow> record_t" where
  "entry_header r last_crc32 wal_id txn_id =
     r\<lparr>rec_last_crc32 := unat last_crc32, rec_id := wal_id, rec_transaction_id := txn_id\<rparr>"

lemma decode_dml_body:
  assumes "wal_id \<le> UINT64_MAX" "txn_id \<le> UINT64_MAX" "rtype < 256" "rtype \<noteq> COMMIT" "oid \<le> UINT32_MAX"
    and "start \<le> UINT64_MAX" "n \<le> UINT64_MAX" "length payload \<le> UINT32_MAX"
  shows "decode_body r (45 + length payload) (dml_body last_crc32 wal_id txn_id rtype oid start n payload @ t) =
    decode_payload ((entry_header r last_crc32 wal_id txn_id)\<lparr>rec_type := rtype, rec_table_oid := oid,
      rec_row_start := start, rec_row_count := n\<rparr>) payload"
  using assms(4)
  by (simp add: decode_body_def Let_def dml_body_fields [OF assms(1-3,5-8)] DML_FIXED_HEADER_def entry_header_def
      del: One_nat_def)

lemma decode_chunk_serialized:
  "chunk_wf chunk \<Longrightarrow> decode_chunk r (serialize_binary chunk) = Done (r\<lparr>rec_physical_data := Some (norm_chunk chunk)\<rparr>)"
proof -
  assume wf: "chunk_wf chunk"
  then have "serialize_binary chunk \<noteq> []"
    by (simp add: chunk_wf_def serialize_binary_split) (metis length_le list.size(3) zero_neq_numeral)
  then show ?thesis using deserialize_serialize_wf [OF wf, of "[]"] by (simp add: decode_chunk_def)
qed

lemma read_row_ids_bytes:
  assumes "list_all (\<lambda>i. i \<le> UINT64_MAX) ids"
  shows "read_row_ids (length ids) (row_ids_bytes ids @ t) = ids"
proof (rule nth_equalityI)
  show "length (read_row_ids (length ids) (row_ids_bytes ids @ t)) = length ids"
    by (simp add: read_row_ids_def)
next
  fix i assume "i < length (read_row_ids (length ids) (row_ids_bytes ids @ t))"
  then have i: "i < length ids" by (simp add: read_row_ids_def)
  have "rd 8 (8 * i) (row_ids_bytes ids @ t) = ids ! i mod 256 ^ 8"
    using rdp_concat_le [OF i, of 8 t] by (simp add: rd_def rdp_def bslice_def row_ids_bytes_def)
  moreover have "ids ! i < 256 ^ 8" using assms i by (auto simp: list_all_length)
  ultimately show "read_row_ids (length ids) (row_ids_bytes ids @ t) ! i = ids ! i"
    using i by (simp add: read_row_ids_def)
qed

lemma decode_payload_chunk:
  "rec_type r = PHYSICAL_INSERT \<or> rec_type r = PHYSICAL_ADD_COLUMN \<Longrightarrow> chunk_wf chunk \<Longrightarrow>
   decode_payload r (serialize_binary chunk) = Done (r\<lparr>rec_physical_data := Some (norm_chunk chunk)\<rparr>)"
  by (auto simp: decode_payload_def decode_chunk_serialized)

lemma decode_payload_delete:
  "rec_type r = PHYSICAL_DELETE \<Longrightarrow> list_all (\<lambda>i. i \<le> UINT64_MAX) ids \<Longrightarrow>
   decode_payload r (row_ids_bytes ids) = Done (r\<lparr>rec_row_ids := ids\<rparr>)"
  using read_row_ids_bytes [of ids "[]"] by (simp add: decode_payload_def record_types Let_def)

lemma decode_payload_update:
  assumes "rec_type r = PHYSICAL_UPDATE" "list_all (\<lambda>i. i \<le> UINT64_MAX) ids" "chunk_wf chunk"
    and "length (le 4 (8 * length ids) @ row_ids_bytes ids @ serialize_binary chunk) + 53 \<le> UINT32_MAX"
  shows "decode_payload r (le 4 (8 * length ids) @ row_ids_bytes ids @ serialize_binary chunk) =
    Done (r\<lparr>rec_row_ids := ids, rec_physical_data := Some (norm_chunk chunk)\<rparr>)"
proof -
  let ?p = "le 4 (8 * length ids) @ row_ids_bytes ids @ serialize_binary chunk"
  have size: "rd 4 0 ?p = 8 * length ids" using assms(4) by (simp add: buf_simps)
  have w: "wrap32 (4 + 8 * length ids) = 4 + 8 * length ids" using assms(4) by simp
  have d: "drop (4 + 8 * length ids) ?p = serialize_binary chunk" by simp
  have ids: "read_row_ids (8 * length ids div 8) (drop 4 ?p) = ids"
    using read_row_ids_bytes [OF assms(2)] by simp
  have ge: "\<not> length ?p < 4" "\<not> 4 + 8 * length ids > length ?p"
    "\<not> (8 * (8 * length ids div 8) < 8 * length ids \<or> length ?p < 4 + 8 * length ids)" by simp_all
  show ?thesis
    unfolding decode_payload_def Let_def size w d ids
    using ge assms(1) decode_chunk_serialized [OF assms(3)] by (simp add: record_types)
qed

lemma decode_entry_body:
  assumes wf: "entry_wf e" and ids: "wal_id \<le> UINT64_MAX" "txn_id \<le> UINT64_MAX"
    and r: "rec_physical_data r = None" "rec_row_ids r = []" "rec_row_start r = 0"
  shows "decode_body r (length (entry_body last_crc32 wal_id txn_id e)) (entry_body last_crc32 wal_id txn_id e @ t) =
    Done (entry_record (entry_header r last_crc32 wal_id txn_id) e)"
proof (cases e)
  case (Insert_Entry oid chunk start n)
  with wf ids show ?thesis
    by (simp add: entry_wf_def decode_dml_body decode_payload_chunk record_types)
next
  case (Add_Column_Entry oid chunk n)
  with wf ids show ?thesis
    by (simp add: entry_wf_def decode_dml_body decode_payload_chunk record_types)
next
  case (Delete_Entry oid ds)
  then have "length ds \<le> UINT64_MAX" using wf by (simp add: entry_wf_def)
  with wf ids Delete_Entry show ?thesis
    using decode_dml_body [of wal_id txn_id PHYSICAL_DELETE oid 0 "length ds" "row_ids_bytes ds" r last_crc32 t]
    by (simp add: entry_wf_def decode_payload_delete record_types)
next
  case (Update_Entry oid ds chunk)
  let ?p = "le 4 (8 * length ds) @ row_ids_bytes ds @ serialize_binary chunk"
  have p: "length ?p + 53 \<le> UINT32_MAX" "length ds \<le> UINT64_MAX" "oid \<le> UINT32_MAX" "chunk_wf chunk"
    "list_all (\<lambda>i. i \<le> UINT64_MAX) ds"
    using wf Update_Entry by (simp_all add: entry_wf_def)
  have "decode_body r (45 + length ?p) (dml_body last_crc32 wal_id txn_id PHYSICAL_UPDATE oid 0 (length ds) ?p @ t) =
    decode_payload ((entry_header r last_crc32 wal_id txn_id)\<lparr>rec_type := PHYSICAL_UPDATE, rec_table_oid := oid,
      rec_row_start := 0, rec_row_count := length ds\<rparr>) ?p"
    using p ids by (intro decode_dml_body) (simp_all add: record_types)
  also have "\<dots> = Done (((entry_header r last_crc32 wal_id txn_id)\<lparr>rec_type := PHYSICAL_UPDATE, rec_table_oid := oid,
      rec_row_start := 0, rec_row_count := length ds\<rparr>)\<lparr>rec_row_ids := ds, rec_physical_data := Some (norm_chunk chunk)\<rparr>)"
    using p by (intro decode_payload_update) simp_all
  finally show ?thesis by (simp add: Update_Entry)
next
  case (Commit_Entry cid)
  then have "cid \<le> UINT64_MAX" using wf by (simp add: entry_wf_def)
  with ids show ?thesis
    by (simp add: Commit_Entry decode_body_def Let_def commit_body_fields entry_header_def del: One_nat_def)
qed

text \<open>The record an entry written with checksum chain \<open>last_crc32\<close> is read back as.\<close>

definition logged_record ::
  "(byte list \<Rightarrow> 32 word) \<Rightarrow> 32 word \<Rightarrow> nat \<Rightarrow> nat \<Rightarrow> log_entry \<Rightarrow> record_t" where
  "logged_record crc last_crc32 wal_id txn_id e =
     (let body = entry_body last_crc32 wal_id txn_id e
      in entry_record (entry_header (fresh_record\<lparr>rec_size := length body + 8, rec_crc32 := crc body\<rparr>)
           last_crc32 wal_id txn_id) e)"

lemma decode_entry:
  assumes "entry_wf e" "wal_id \<le> UINT64_MAX" "txn_id \<le> UINT64_MAX"
  shows "decode_record crc (framed crc (entry_body last_crc32 wal_id txn_id e) @ rest) =
    Done (logged_record crc last_crc32 wal_id txn_id e)"
  using entry_body_length [OF assms(1), of last_crc32 wal_id txn_id]
  by (simp add: decode_framed decode_entry_body [OF assms] logged_record_def Let_def fresh_record_def)

lemma is_valid_logged_record [simp]: "is_valid (logged_record crc last_crc32 wal_id txn_id e)"
  by (cases e) (simp_all add: is_valid_def logged_record_def Let_def entry_header_def fresh_record_def)

lemma rec_size_logged_record:
  "rec_size (logged_record crc last_crc32 wal_id txn_id e) = length (entry_body last_crc32 wal_id txn_id e) + 8"
  by (cases e) (simp_all add: logged_record_def Let_def entry_header_def fresh_record_def)

lemma rec_id_logged_record [simp]: "rec_id (logged_record crc last_crc32 wal_id txn_id e) = wal_id"
  by (cases e) (simp_all add: logged_record_def Let_def entry_header_def fresh_record_def)

section \<open>Properties of the record codec\<close>

lemma extract_crc_framed: "extract_crc (buffer @ framed crc body) = unat (crc body)"
proof -
  have "buffer @ framed crc body = (buffer @ le 4 (length body) @ body) @ le 4 (unat (crc body))"
    by (simp add: framed_def)
  moreover have "length (buffer @ framed crc body) - 4 = length (buffer @ le 4 (length body) @ body)" by simp
  ultimately have "rd 4 (length (buffer @ framed crc body) - 4) (buffer @ framed crc body) =
      rd 4 0 (le 4 (unat (crc body)))"
    by (metis diff_self_eq_0 le_refl rd_skip)
  then show ?thesis using unat_32_less [of "crc body"] by (simp add: extract_crc_def buf_simps)
qed

text \<open>A checksum to evaluate the codec with: the bytes read as a number, modulo 2 to the 32.\<close>

definition sum_crc :: "byte list \<Rightarrow> 32 word" where
  "sum_crc bs = word_of_nat (unle bs)"

text \<open>C32. A log entry (insert, add column, delete, update or commit) can be read back when its chunk, if it has
  one, consists of string and fixed-width columns, its fields are in the range of their types and its size fits
  the 32-bit size field: the encoder returns, appends one record to the buffer and returns the checksum at its
  end, and decoding that record, with anything behind it, gives a valid record with the same ids, table, row
  range and row ids, and with the data in canonical form. Entries with nested columns are outside of this.\<close>

theorem wal_record_roundtrip:
  assumes "entry_wf e" and "wal_id \<le> UINT64_MAX" and "txn_id \<le> UINT64_MAX"
  shows "\<exists>bytes c. encode_entry crc buffer last_crc32 wal_id txn_id e = Done (buffer @ bytes, c) \<and>
    extract_crc (buffer @ bytes) = unat c \<and>
    decode_record crc (bytes @ rest) = Done (logged_record crc last_crc32 wal_id txn_id e) \<and>
    is_valid (logged_record crc last_crc32 wal_id txn_id e)"
  using encode_entry_eq [OF assms(1)] decode_entry [OF assms] extract_crc_framed by fastforce

theorem wal_record_roundtrip_witness:
  "entry_wf (Delete_Entry 5 [3, 4]) \<and>
   (\<exists>bytes c. encode_entry sum_crc [9] 17 42 7 (Delete_Entry 5 [3, 4]) = Done ([9] @ bytes, c) \<and>
      extract_crc ([9] @ bytes) = unat c \<and>
      decode_record sum_crc (bytes @ [1, 2]) = Done (logged_record sum_crc 17 42 7 (Delete_Entry 5 [3, 4])) \<and>
      is_valid (logged_record sum_crc 17 42 7 (Delete_Entry 5 [3, 4])))"
proof -
  have wf: "entry_wf (Delete_Entry 5 [3, 4])" by (simp add: entry_wf_def)
  then show ?thesis
    using wal_record_roundtrip [OF wf, of 42 7 sum_crc "[9]" 17 "[1, 2]"] by simp
qed

lemma corrupt_not_valid [simp]: "\<not> is_valid (corrupt r)"
  by (simp add: is_valid_def corrupt_def)

lemma decode_chunk_size: "decode_chunk r bs = Done r' \<Longrightarrow> rec_size r' = rec_size r \<and> rec_crc32 r' = rec_crc32 r"
  by (auto simp: decode_chunk_def corrupt_def split: if_splits outcome.splits)

lemma decode_payload_size:
  "decode_payload r bs = Done r' \<Longrightarrow> rec_size r' = rec_size r \<and> rec_crc32 r' = rec_crc32 r"
  by (auto simp: decode_payload_def corrupt_def Let_def dest!: decode_chunk_size split: if_splits)

lemma decode_body_size:
  "decode_body r n ptr = Done r' \<Longrightarrow> rec_size r' = rec_size r \<and> rec_crc32 r' = rec_crc32 r"
  by (auto simp: decode_body_def corrupt_def Let_def dest!: decode_payload_size split: if_splits)

text \<open>C34. A record the decoder accepts is intact: its size field leads to a body that lies within the
  buffer, and the checksum stored behind the body is the checksum of the body.\<close>

theorem decode_valid_sound:
  assumes "decode_record crc data = Done r" and "is_valid r" and "length data \<le> UINT32_MAX"
  shows "rec_size r = rd 4 0 data + 8 \<and> rec_size r \<le> length data \<and>
    rec_crc32 r = crc (bslice 4 (rd 4 0 data) data) \<and>
    rd 4 (4 + rd 4 0 data) data = unat (crc (bslice 4 (rd 4 0 data) data))"
proof -
  let ?n = "rd 4 0 data"
  have g: "\<not> length data < 37" "\<not> wrap32 (4 + ?n + 4) > length data" "\<not> length data < 4 + ?n + 4"
    using assms by (auto simp: decode_record_def Let_def split: if_splits)
  define c where "c = crc (bslice 4 ?n data)"
  have eq: "word_of_nat (rd 4 (4 + ?n) data) = c"
    using assms g by (auto simp: decode_record_def Let_def c_def split: if_splits)
  then have "decode_body (fresh_record\<lparr>rec_size := wrap32 (4 + ?n + 4), rec_crc32 := c\<rparr>) ?n (drop 4 data) = Done r"
    using assms(1) g by (simp add: decode_record_def Let_def c_def)
  then have r: "rec_size r = wrap32 (4 + ?n + 4)" "rec_crc32 r = c"
    by (auto dest!: decode_body_size)
  have "?n + 8 \<le> UINT32_MAX" using g(3) assms(3) by linarith
  then have "wrap32 (4 + ?n + 4) = ?n + 8" by simp
  moreover have "rd 4 (4 + ?n) data < 4294967296" using rd_less [of 4 "4 + ?n" data] by simp
  then have "unat (word_of_nat (rd 4 (4 + ?n) data) :: 32 word) = rd 4 (4 + ?n) data"
    by (simp add: unat_of_nat)
  ultimately show ?thesis using r eq g(3) by (simp add: c_def)
qed

definition sample_record :: "byte list" where
  "sample_record = framed sum_crc (entry_body 17 42 7 (Commit_Entry 9))"

theorem decode_valid_sound_witness:
  "\<exists>r. decode_record sum_crc sample_record = Done r \<and> is_valid r \<and> rec_size r = rd 4 0 sample_record + 8 \<and>
    rec_size r \<le> length sample_record"
proof -
  have "decode_record sum_crc (sample_record @ []) = Done (logged_record sum_crc 17 42 7 (Commit_Entry 9))"
    unfolding sample_record_def by (rule decode_entry) (simp_all add: entry_wf_def)
  then have d: "decode_record sum_crc sample_record = Done (logged_record sum_crc 17 42 7 (Commit_Entry 9))" by simp
  have "length sample_record \<le> UINT32_MAX" by (simp add: sample_record_def)
  from decode_valid_sound [OF d is_valid_logged_record this] d show ?thesis by auto
qed

text \<open>C35. The bounds test of the decoder is evaluated in 32 bits and wraps: a size field within 8 of
  2 to the 32 passes it, and the checksum is read from outside the buffer.\<close>

theorem decode_size_overflow:
  assumes "37 \<le> length data" and "length data \<le> UINT32_MAX" and "UINT32_MAX - 7 \<le> rd 4 0 data"
  shows "decode_record crc data = Undefined"
proof -
  let ?n = "rd 4 0 data"
  have n: "?n < 4294967296" using rd_less [of 4 0 data] by simp
  have "4 + ?n + 4 = ?n + 8 - 4294967296 + 4294967296" using assms(3) by simp
  then have "wrap32 (4 + ?n + 4) = (?n + 8 - 4294967296) mod 4294967296" unfolding wrap32_def by (metis mod_add_self2)
  moreover have "?n + 8 - 4294967296 < 8" using n by simp
  ultimately have "wrap32 (4 + ?n + 4) < 8" by simp
  then have "\<not> wrap32 (4 + ?n + 4) > length data" "length data < 4 + ?n + 4" "\<not> length data < 37"
    using assms by linarith+
  then show ?thesis by (simp add: decode_record_def Let_def)
qed

theorem decode_size_overflow_witness:
  "decode_record sum_crc (replicate 40 255) = Undefined"
proof -
  have "take 4 (replicate 40 (255 :: byte)) = [255, 255, 255, 255]" by (simp add: numeral_eq_Suc)
  then have "rd 4 0 (replicate 40 255) = UINT32_MAX" by (simp add: rd_def bslice_def)
  then show ?thesis by (intro decode_size_overflow) simp_all
qed

end
