(* ===== verification/Wal_Page.thy ===== *)
theory Wal_Page
  imports Wal_Binary
begin

text \<open>
  The page format of a log segment and its writer: \<open>services/wal/wal_page.hpp\<close>, \<open>wal_page.cpp\<close> and
  \<open>wal_page_writer.cpp\<close>.

  A segment file is a list of bytes. Page 0 holds the file header; every later page a 32-byte page
  header and up to 4064 bytes of records. The outcome of a write is the environment \<open>io\<close>: at a file
  offset it is \<open>None\<close> when the write succeeds and \<open>Some k\<close> when it fails after \<open>k\<close> bytes. The CRC-32C
  is the parameter \<open>crc\<close>, as for records.
\<close>

section \<open>The page format\<close>

definition PAGE_SIZE :: nat where "PAGE_SIZE = 4096"
definition PAGE_HEADER_SIZE :: nat where "PAGE_HEADER_SIZE = 32"
definition PAGE_DATA_SIZE :: nat where "PAGE_DATA_SIZE = PAGE_SIZE - PAGE_HEADER_SIZE"
definition WAL_MAGIC :: "byte list" where "WAL_MAGIC = [79, 87, 65, 76]"
definition WAL_VERSION :: nat where "WAL_VERSION = 1"

definition PAGE_NORMAL :: nat where "PAGE_NORMAL = 0"
definition PAGE_PARTIAL_CONT :: nat where "PAGE_PARTIAL_CONT = 1"
definition PAGE_PARTIAL_END :: nat where "PAGE_PARTIAL_END = 2"

lemmas page_consts = PAGE_SIZE_def PAGE_HEADER_SIZE_def PAGE_DATA_SIZE_def PAGE_NORMAL_def
  PAGE_PARTIAL_CONT_def PAGE_PARTIAL_END_def

text \<open>\<open>wal_file_header_t::init\<close> and the header in memory: 274 bytes of fields, padding to the 8-byte
  timestamp, 288 bytes in all.\<close>

definition file_header_init :: "nat \<Rightarrow> byte list \<Rightarrow> byte list" where
  "file_header_init seg_idx db_name =
     (let database_name_len = (if length db_name < 256 then length db_name else 255)
      in WAL_MAGIC @ le 2 WAL_VERSION @ le 2 0 @ le 4 PAGE_SIZE @ le 4 seg_idx @ le 2 database_name_len @
         take database_name_len db_name @ replicate (256 - database_name_len) 0 @ replicate 6 0 @ le 8 0)"

definition file_header_validate :: "byte list \<Rightarrow> bool" where
  "file_header_validate hdr \<longleftrightarrow> bslice 0 4 hdr = WAL_MAGIC \<and> rd 2 4 hdr = WAL_VERSION \<and> rd 4 8 hdr = PAGE_SIZE"

record wal_page_header =
  hdr_page_lsn :: nat
  hdr_page_end_lsn :: nat
  hdr_num_records :: nat
  hdr_data_size :: nat
  hdr_checksum :: nat
  hdr_flags :: nat

definition header_bytes :: "wal_page_header \<Rightarrow> byte list" where
  "header_bytes h = le 8 (hdr_page_lsn h) @ le 8 (hdr_page_end_lsn h) @ le 4 (hdr_num_records h) @
     le 4 (hdr_data_size h) @ le 4 (hdr_checksum h) @ le 2 (hdr_flags h) @ le 2 0"

definition header_of_bytes :: "byte list \<Rightarrow> wal_page_header" where
  "header_of_bytes p = \<lparr>hdr_page_lsn = rd 8 0 p, hdr_page_end_lsn = rd 8 8 p, hdr_num_records = rd 4 16 p,
     hdr_data_size = rd 4 20 p, hdr_checksum = rd 4 24 p, hdr_flags = rd 2 28 p\<rparr>"

text \<open>\<open>compute_checksum\<close> writes the header with a zero checksum into the page, and then the checksum of
  that page.\<close>

definition compute_checksum :: "(byte list \<Rightarrow> 32 word) \<Rightarrow> wal_page_header \<Rightarrow> byte list \<Rightarrow> byte list" where
  "compute_checksum crc h page =
     (let page = bsplice 0 (header_bytes (h\<lparr>hdr_checksum := 0\<rparr>)) page
      in bsplice 24 (le 4 (unat (crc page))) page)"

definition verify_checksum :: "(byte list \<Rightarrow> 32 word) \<Rightarrow> wal_page_header \<Rightarrow> byte list \<Rightarrow> bool" where
  "verify_checksum crc h page \<longleftrightarrow> unat (crc (bsplice 24 (le 4 0) page)) = hdr_checksum h"

section \<open>The writer\<close>

record page_writer =
  pw_database_name :: "byte list"
  pw_segment_index :: nat
  pw_file :: "byte list"
  pw_page :: "byte list"
  pw_offset :: nat
  pw_num_records :: nat
  pw_page_lsn :: nat
  pw_page_end_lsn :: nat
  pw_flags :: nat
  pw_file_size :: nat
  pw_has_data :: bool

type_synonym io_env = "nat \<Rightarrow> nat option"

definition file_write :: "io_env \<Rightarrow> byte list \<Rightarrow> nat \<Rightarrow> byte list \<Rightarrow> byte list \<times> bool" where
  "file_write io file off data =
     (case io off of None \<Rightarrow> (bsplice off data file, True)
      | Some k \<Rightarrow> (bsplice off (take k data) file, False))"

definition start_new_page :: "page_writer \<Rightarrow> page_writer" where
  "start_new_page w = w\<lparr>pw_page := replicate PAGE_SIZE 0, pw_offset := PAGE_HEADER_SIZE, pw_num_records := 0,
     pw_page_lsn := 0, pw_page_end_lsn := 0, pw_flags := PAGE_NORMAL, pw_has_data := False\<rparr>"

definition write_file_header :: "io_env \<Rightarrow> page_writer \<Rightarrow> page_writer \<times> bool" where
  "write_file_header io w =
     (let header_page = bsplice 0 (file_header_init (pw_segment_index w) (pw_database_name w)) (replicate PAGE_SIZE 0);
          (file, written) = file_write io (pw_file w) 0 header_page
      in if \<not> written then (w\<lparr>pw_file := file\<rparr>, False)
         else (w\<lparr>pw_file := file, pw_file_size := PAGE_SIZE\<rparr>, True))"

definition flush_page :: "(byte list \<Rightarrow> 32 word) \<Rightarrow> io_env \<Rightarrow> page_writer \<Rightarrow> page_writer \<times> bool" where
  "flush_page crc io w =
     (if \<not> pw_has_data w \<and> pw_num_records w = 0 \<and> pw_flags w AND PAGE_PARTIAL_CONT = 0 then (w, True)
      else let page = (if pw_offset w < PAGE_SIZE
                       then bsplice (pw_offset w) (replicate (PAGE_SIZE - pw_offset w) 0) (pw_page w)
                       else pw_page w);
               hdr = \<lparr>hdr_page_lsn = pw_page_lsn w, hdr_page_end_lsn = pw_page_end_lsn w,
                      hdr_num_records = pw_num_records w,
                      hdr_data_size = wrap32 (pw_offset w - PAGE_HEADER_SIZE), hdr_checksum = 0,
                      hdr_flags = pw_flags w\<rparr>;
               page = compute_checksum crc hdr (bsplice 0 (header_bytes hdr) page);
               (file, ok) = file_write io (pw_file w) (pw_file_size w) page
           in if \<not> ok then (w\<lparr>pw_file := file, pw_page := page\<rparr>, False)
              else (start_new_page (w\<lparr>pw_file := file, pw_page := page, pw_file_size := pw_file_size w + PAGE_SIZE\<rparr>),
                    True))"

text \<open>The constructor on a file with the given contents. The result of writing the header is not used.\<close>

definition open_writer :: "io_env \<Rightarrow> byte list \<Rightarrow> nat \<Rightarrow> byte list \<Rightarrow> page_writer" where
  "open_writer io db_name seg_index existing =
     (let w = \<lparr>pw_database_name = db_name, pw_segment_index = seg_index, pw_file = existing,
               pw_page = replicate PAGE_SIZE 0, pw_offset = PAGE_HEADER_SIZE, pw_num_records = 0, pw_page_lsn = 0,
               pw_page_end_lsn = 0, pw_flags = PAGE_NORMAL, pw_file_size = 0, pw_has_data = False\<rparr>;
          w = (if length existing > PAGE_SIZE
               then w\<lparr>pw_file_size := (length existing div PAGE_SIZE) * PAGE_SIZE\<rparr>
               else fst (write_file_header io w))
      in start_new_page w)"

definition page_space :: "page_writer \<Rightarrow> nat" where
  "page_space w = PAGE_DATA_SIZE - (pw_offset w - PAGE_HEADER_SIZE)"

lemma page_space_start_new_page [simp]: "page_space (start_new_page w) = PAGE_DATA_SIZE"
  by (simp add: page_space_def start_new_page_def)

text \<open>The loop of \<open>append\<close>: \<open>src\<close> is what remains of the record.\<close>

definition append_fits :: "bool \<Rightarrow> byte list \<Rightarrow> page_writer \<Rightarrow> page_writer" where
  "append_fits is_first_chunk src w =
     w\<lparr>pw_page := bsplice (pw_offset w) src (pw_page w), pw_offset := pw_offset w + length src, pw_has_data := True,
       pw_flags := (if is_first_chunk then pw_flags w else pw_flags w OR PAGE_PARTIAL_END),
       pw_num_records := (if is_first_chunk then wrap32 (pw_num_records w + 1) else pw_num_records w)\<rparr>"

definition append_fill :: "byte list \<Rightarrow> page_writer \<Rightarrow> page_writer" where
  "append_fill src w =
     w\<lparr>pw_page := bsplice (pw_offset w) (take (page_space w) src) (pw_page w), pw_offset := pw_offset w + page_space w,
       pw_has_data := True, pw_flags := pw_flags w OR PAGE_PARTIAL_CONT\<rparr>"

definition continue_page :: "nat \<Rightarrow> page_writer \<Rightarrow> page_writer" where
  "continue_page wal_id w =
     (let w = start_new_page w
      in w\<lparr>pw_flags := pw_flags w OR PAGE_PARTIAL_CONT, pw_page_lsn := wal_id, pw_page_end_lsn := wal_id\<rparr>)"

lemma page_space_continue_page [simp]: "page_space (continue_page wal_id w) = PAGE_DATA_SIZE"
  by (simp add: continue_page_def start_new_page_def page_space_def Let_def)

function append_loop ::
  "(byte list \<Rightarrow> 32 word) \<Rightarrow> io_env \<Rightarrow> nat \<Rightarrow> bool \<Rightarrow> byte list \<Rightarrow> page_writer \<Rightarrow> page_writer \<times> bool" where
  "append_loop crc io wal_id is_first_chunk src w =
     (if src = [] then (w, True)
      else if length src \<le> page_space w then (append_fits is_first_chunk src w, True)
      else (case flush_page crc io (append_fill src w) of
              (w', ok) \<Rightarrow>
                if \<not> ok then (w', False)
                else append_loop crc io wal_id False (drop (page_space w) src) (continue_page wal_id w')))"
  by pat_completeness auto
termination
  by (relation "measure (\<lambda>(crc, io, wal_id, first, src, w). 2 * length src + (if page_space w = 0 then 1 else 0))")
    (auto simp: PAGE_DATA_SIZE_def PAGE_SIZE_def PAGE_HEADER_SIZE_def)

declare append_loop.simps [simp del]

definition append_record ::
  "(byte list \<Rightarrow> 32 word) \<Rightarrow> io_env \<Rightarrow> byte list \<Rightarrow> nat \<Rightarrow> page_writer \<Rightarrow> page_writer \<times> bool" where
  "append_record crc io data wal_id w =
     (if data = [] then (w, True)
      else let w = (if pw_page_lsn w = 0 then w\<lparr>pw_page_lsn := wal_id\<rparr> else w);
               w = w\<lparr>pw_page_end_lsn := wal_id\<rparr>
           in append_loop crc io wal_id True data w)"

definition flush :: "(byte list \<Rightarrow> 32 word) \<Rightarrow> io_env \<Rightarrow> page_writer \<Rightarrow> page_writer \<times> bool" where
  "flush crc io w = (if pw_has_data w then flush_page crc io w else (w, True))"

text \<open>\<open>sync\<close> has no effect on the contents.\<close>

definition flush_and_sync :: "(byte list \<Rightarrow> 32 word) \<Rightarrow> io_env \<Rightarrow> page_writer \<Rightarrow> page_writer \<times> bool" where
  "flush_and_sync crc io w = flush crc io w"

definition close_writer :: "(byte list \<Rightarrow> 32 word) \<Rightarrow> io_env \<Rightarrow> page_writer \<Rightarrow> page_writer" where
  "close_writer crc io w = (if pw_has_data w then fst (flush_page crc io w) else w)"

end
