(* ===== verification/Wal_Log.thy ===== *)
theory Wal_Log
  imports Wal_Page "HOL-Library.Sublist"
begin

text \<open>
  The reader of a log segment, \<open>services/wal/wal_page_reader.cpp\<close>, and what it recovers of what the
  page writer wrote. A file is its bytes, and a read inside the file succeeds.
\<close>

section \<open>Pages of a file\<close>

definition read_page :: "byte list \<Rightarrow> nat \<Rightarrow> byte list option" where
  "read_page file page_index =
     (if page_index * PAGE_SIZE + PAGE_SIZE > length file then None
      else Some (bslice (page_index * PAGE_SIZE) PAGE_SIZE file))"

definition read_page_header :: "byte list \<Rightarrow> nat \<Rightarrow> wal_page_header" where
  "read_page_header file page_index =
     (if page_index * PAGE_SIZE + PAGE_HEADER_SIZE > length file
      then \<lparr>hdr_page_lsn = 0, hdr_page_end_lsn = 0, hdr_num_records = 0, hdr_data_size = 0, hdr_checksum = 0,
            hdr_flags = 0\<rparr>
      else header_of_bytes (bslice (page_index * PAGE_SIZE) PAGE_HEADER_SIZE file))"

definition page_count :: "byte list \<Rightarrow> nat" where
  "page_count file = (if length file \<le> PAGE_SIZE then 0 else length file div PAGE_SIZE - 1)"

definition verify_page_checksum :: "(byte list \<Rightarrow> 32 word) \<Rightarrow> byte list \<Rightarrow> nat \<Rightarrow> bool" where
  "verify_page_checksum crc file page_index =
     (case read_page file page_index of None \<Rightarrow> False
      | Some page \<Rightarrow> verify_checksum crc (header_of_bytes page) page)"

definition verify_chain :: "(byte list \<Rightarrow> 32 word) \<Rightarrow> byte list \<Rightarrow> bool" where
  "verify_chain crc file = list_all (\<lambda>i. verify_page_checksum crc file (i + 1)) [0..<page_count file]"

section \<open>Seeking\<close>

text \<open>The loop of \<open>seek_to_lsn\<close>, with the page headers as a function of the page index.\<close>

function seek_loop :: "(nat \<Rightarrow> wal_page_header) \<Rightarrow> nat \<Rightarrow> nat \<Rightarrow> nat \<Rightarrow> nat \<Rightarrow> nat" where
  "seek_loop hdr target lo hi res =
     (if lo \<le> hi then
        (let mid = lo + (hi - lo) div 2
         in if hdr_page_lsn (hdr mid) \<le> target then
              (if hdr_page_end_lsn (hdr mid) \<ge> target then mid else seek_loop hdr target (mid + 1) hi mid)
            else if mid = 0 then res
            else seek_loop hdr target lo (mid - 1) res)
      else res)"
  by pat_completeness auto
termination
  by (relation "measure (\<lambda>(hdr, target, lo, hi, res). hi + 1 - lo)") auto

declare seek_loop.simps [simp del]

definition seek_to_lsn :: "byte list \<Rightarrow> nat \<Rightarrow> nat" where
  "seek_to_lsn file target_lsn =
     (if page_count file = 0 then 0
      else seek_loop (read_page_header file) target_lsn 1 (page_count file) 1)"

section \<open>Reading records\<close>

definition keep_record :: "nat \<Rightarrow> record_t \<Rightarrow> record_t list" where
  "keep_record after_id r = (if is_valid r \<and> rec_id r > after_id then [r] else [])"

text \<open>The loop over the records of a page: the kept records, and the bytes from where it stopped. The
  size of a record is 32 bits; when it wraps to 0 the loop does not advance, which is undefined.\<close>

function parse_records ::
  "(byte list \<Rightarrow> 32 word) \<Rightarrow> nat \<Rightarrow> byte list \<Rightarrow> (record_t list \<times> byte list) outcome" where
  "parse_records crc after_id data =
     (if length data < 4 then Done ([], data)
      else let rec_size = rd 4 0 data;
               total = wrap32 (rec_size + 8)
           in if rec_size = 0 then Done ([], data)
              else if total > length data then Done ([], data)
              else if total = 0 then Undefined
              else then_do (decode_record crc (take total data)) (\<lambda>r.
                   then_do (parse_records crc after_id (drop total data)) (\<lambda>(rs, rest).
                     Done (keep_record after_id r @ rs, rest))))"
  by pat_completeness auto
termination
  by (relation "measure (\<lambda>(crc, after_id, data). length data)") auto

declare parse_records.simps [simp del]

text \<open>The state the loop over the pages carries.\<close>

record reader_state =
  rs_records :: "record_t list"
  rs_span :: "byte list"
  rs_in_span :: bool

text \<open>The last page of a spanning record.\<close>

definition span_needed :: "byte list \<Rightarrow> nat \<Rightarrow> nat" where
  "span_needed span data_size =
     (if length span \<ge> 4 then
        (let total_record = wrap32 (rd 4 0 span + 8)
         in if total_record > length span then wrap32 (total_record - length span) else 0)
      else data_size)"

definition finish_span ::
  "(byte list \<Rightarrow> 32 word) \<Rightarrow> nat \<Rightarrow> byte list \<Rightarrow> reader_state \<Rightarrow> reader_state outcome" where
  "finish_span crc after_id data s =
     (let to_take = min (span_needed (rs_span s) (length data)) (length data);
          span = rs_span s @ take to_take data
      in if length span \<ge> 4 then
           (let total_record = wrap32 (rd 4 0 span + 8)
            in if length span \<ge> total_record then
                 then_do (decode_record crc (take total_record span)) (\<lambda>r.
                 then_do (parse_records crc after_id (drop to_take data)) (\<lambda>(rs, rest).
                   Done (s\<lparr>rs_records := rs_records s @ keep_record after_id r @ rs, rs_span := [],
                           rs_in_span := False\<rparr>)))
               else Done (s\<lparr>rs_span := span\<rparr>))
         else Done (s\<lparr>rs_span := span\<rparr>))"

text \<open>A page that is not in a span. The span buffer is assigned only when bytes are left over.\<close>

definition plain_page ::
  "(byte list \<Rightarrow> 32 word) \<Rightarrow> nat \<Rightarrow> bool \<Rightarrow> byte list \<Rightarrow> reader_state \<Rightarrow> reader_state outcome" where
  "plain_page crc after_id is_cont data s =
     then_do (parse_records crc after_id data) (\<lambda>(rs, rest).
       let s = s\<lparr>rs_records := rs_records s @ rs\<rparr>
       in if is_cont then Done (s\<lparr>rs_span := (if rest \<noteq> [] then rest else rs_span s), rs_in_span := True\<rparr>)
          else Done s)"

text \<open>One data page, with the flags and the data area its header gives. A checksummed page that claims
  more than 4064 bytes is read beyond the page buffer.\<close>

definition page_step ::
  "(byte list \<Rightarrow> 32 word) \<Rightarrow> nat \<Rightarrow> nat \<Rightarrow> byte list \<Rightarrow> reader_state \<Rightarrow> reader_state outcome" where
  "page_step crc after_id flags data s =
     (let is_cont = (flags AND PAGE_PARTIAL_CONT \<noteq> 0);
          is_end = (flags AND PAGE_PARTIAL_END \<noteq> 0)
      in if rs_in_span s \<and> is_cont \<and> \<not> is_end then Done (s\<lparr>rs_span := rs_span s @ data\<rparr>)
         else if rs_in_span s \<and> (is_cont \<or> is_end) then finish_span crc after_id data s
         else plain_page crc after_id is_cont data
                (if rs_in_span s then s\<lparr>rs_span := [], rs_in_span := False\<rparr> else s))"

fun read_pages ::
  "(byte list \<Rightarrow> 32 word) \<Rightarrow> nat \<Rightarrow> byte list \<Rightarrow> nat list \<Rightarrow> reader_state \<Rightarrow> reader_state outcome" where
  "read_pages crc after_id file [] s = Done s"
| "read_pages crc after_id file (pi # pis) s =
     (case read_page file pi of
        None \<Rightarrow> Done s
      | Some page \<Rightarrow>
          let hdr = header_of_bytes page
          in if \<not> verify_checksum crc hdr page then Done s
             else if hdr_data_size hdr > PAGE_DATA_SIZE then Undefined
             else then_do (page_step crc after_id (hdr_flags hdr) (bslice PAGE_HEADER_SIZE (hdr_data_size hdr) page) s)
                    (read_pages crc after_id file pis))"

definition empty_reader :: reader_state where
  "empty_reader = \<lparr>rs_records = [], rs_span = [], rs_in_span = False\<rparr>"

definition read_all_records :: "(byte list \<Rightarrow> 32 word) \<Rightarrow> byte list \<Rightarrow> nat \<Rightarrow> record_t list outcome" where
  "read_all_records crc file after_id =
     then_do (read_pages crc after_id file [1..<page_count file + 1] empty_reader) (\<lambda>s. Done (rs_records s))"

section \<open>Framed records\<close>

text \<open>What the page layer needs to know of a record: its size field, that it is not longer than the
  field can say, and what the decoder makes of it.\<close>

locale record_frames =
  fixes crc :: "byte list \<Rightarrow> 32 word"
    and frame :: "byte list \<Rightarrow> record_t \<Rightarrow> bool"
  assumes frame_length: "frame f r \<Longrightarrow> 8 < length f \<and> length f \<le> UINT32_MAX"
    and frame_size_field: "frame f r \<Longrightarrow> rd 4 0 f = length f - 8"
    and frame_decode: "frame f r \<Longrightarrow> decode_record crc f = Done r"
begin

lemma rd_prefix: "4 \<le> length p \<Longrightarrow> rd 4 0 (p @ q) = rd 4 0 p"
  by (simp add: rd_def bslice_def)

text \<open>The loop stops in front of a proper prefix of a record, the empty one included.\<close>

lemma parse_stops:
  assumes "p = [] \<or> (frame (p @ q) r \<and> q \<noteq> [])"
  shows "parse_records crc a p = Done ([], p)"
proof (cases "length p < 4")
  case True
  then show ?thesis by (simp add: parse_records.simps)
next
  case False
  then have f: "frame (p @ q) r" and q: "q \<noteq> []" using assms by auto
  have size: "rd 4 0 p = length (p @ q) - 8"
    using frame_size_field [OF f] rd_prefix [of p q] False by simp
  have "wrap32 (rd 4 0 p + 8) = length (p @ q)" using frame_length [OF f] size by simp
  moreover have "length p < length (p @ q)" using q by simp
  ultimately show ?thesis using False frame_length [OF f] size by (subst parse_records.simps) (simp add: Let_def)
qed

lemma parse_frame:
  assumes "frame f r" and "parse_records crc a rest = Done (rs, tail)"
  shows "parse_records crc a (f @ rest) = Done (keep_record a r @ rs, tail)"
proof -
  have len: "8 < length f" "length f \<le> UINT32_MAX" using frame_length [OF assms(1)] by simp_all
  have "rd 4 0 (f @ rest) = length f - 8" using rd_prefix [of f rest] frame_size_field [OF assms(1)] len by simp
  then have sz: "rd 4 0 (f @ rest) \<noteq> 0" "wrap32 (rd 4 0 (f @ rest) + 8) = length f" using len by simp_all
  show ?thesis
    using sz len assms(2) frame_decode [OF assms(1)] by (subst parse_records.simps) (auto simp: Let_def)
qed

lemma parse_frames:
  assumes "list_all2 frame fs rs" and "p = [] \<or> (frame (p @ q) r \<and> q \<noteq> [])"
  shows "parse_records crc a (concat fs @ p) = Done (concat (map (keep_record a) rs), p)"
  using assms(1)
proof (induction rule: list_all2_induct)
  case Nil
  then show ?case using parse_stops [OF assms(2)] by simp
next
  case (Cons f fs r rs)
  then show ?case using parse_frame by simp
qed

lemma span_needed_frame:
  assumes "frame (p @ q) r" and "4 \<le> length p"
  shows "span_needed p n = length q"
proof -
  have "rd 4 0 p = length (p @ q) - 8" using frame_size_field [OF assms(1)] rd_prefix [OF assms(2)] by simp
  then have "wrap32 (rd 4 0 p + 8) = length p + length q" using frame_length [OF assms(1)] by simp
  moreover have "wrap32 (length q) = length q" using frame_length [OF assms(1)] by simp
  ultimately show ?thesis using assms(2) by (auto simp: span_needed_def Let_def)
qed

lemma finish_span_frame:
  assumes f: "frame (p @ q) r" and p: "4 \<le> length p" and s: "rs_span s = p"
    and rest: "parse_records crc a rest = Done (rs, tail)"
  shows "finish_span crc a (q @ rest) s =
    Done (s\<lparr>rs_records := rs_records s @ keep_record a r @ rs, rs_span := [], rs_in_span := False\<rparr>)"
proof -
  have n: "min (span_needed (rs_span s) (length (q @ rest))) (length (q @ rest)) = length q"
    by (simp add: s span_needed_frame [OF f p])
  have t: "rs_span s @ take (length q) (q @ rest) = p @ q" "drop (length q) (q @ rest) = rest"
    by (simp_all add: s)
  have "wrap32 (rd 4 0 (p @ q) + 8) = length (p @ q)"
    using frame_size_field [OF f] frame_length [OF f] by simp
  then show ?thesis
    unfolding finish_span_def Let_def n t using frame_decode [OF f] rest frame_length [OF f] by simp
qed

end

text \<open>The records the encoders produce.\<close>

definition is_frame :: "(byte list \<Rightarrow> 32 word) \<Rightarrow> byte list \<Rightarrow> record_t \<Rightarrow> bool" where
  "is_frame crc f r \<longleftrightarrow> (\<exists>body. f = framed crc body \<and> 29 \<le> length body \<and> length body + 8 \<le> UINT32_MAX) \<and>
     decode_record crc f = Done r"

interpretation frames: record_frames crc "is_frame crc" for crc
proof
  fix f r
  assume "is_frame crc f r"
  then obtain body where b: "f = framed crc body" "29 \<le> length body" "length body + 8 \<le> UINT32_MAX"
    and d: "decode_record crc f = Done r"
    by (auto simp: is_frame_def)
  show "8 < length f \<and> length f \<le> UINT32_MAX" using b by auto
  show "rd 4 0 f = length f - 8" using b by (simp add: framed_def rd_le_0)
  show "decode_record crc f = Done r" by (rule d)
qed

lemma is_frame_entry:
  assumes "entry_wf e" "wal_id \<le> UINT64_MAX" "txn_id \<le> UINT64_MAX"
  shows "is_frame crc (framed crc (entry_body last_crc32 wal_id txn_id e)) (logged_record crc last_crc32 wal_id txn_id e)"
  using decode_entry [OF assms, of crc last_crc32 "[]"] entry_body_length [OF assms(1), of last_crc32 wal_id txn_id]
  by (auto simp: is_frame_def)

section \<open>The pages of a segment\<close>

text \<open>A page as the writer leaves it, seen by the reader.\<close>

definition page_holds :: "(byte list \<Rightarrow> 32 word) \<Rightarrow> nat \<Rightarrow> byte list \<Rightarrow> byte list \<Rightarrow> bool" where
  "page_holds crc flags data page \<longleftrightarrow> length page = PAGE_SIZE \<and> verify_checksum crc (header_of_bytes page) page \<and>
     hdr_flags (header_of_bytes page) = flags \<and> hdr_data_size (header_of_bytes page) = length data \<and>
     length data \<le> PAGE_DATA_SIZE \<and> bslice PAGE_HEADER_SIZE (length data) page = data"

lemma length_header_bytes [simp]: "length (header_bytes h) = 32"
  by (simp add: header_bytes_def)

lemma header_roundtrip:
  assumes "hdr_page_lsn h \<le> UINT64_MAX" "hdr_page_end_lsn h \<le> UINT64_MAX" "hdr_num_records h \<le> UINT32_MAX"
    "hdr_data_size h \<le> UINT32_MAX" "hdr_checksum h \<le> UINT32_MAX" "hdr_flags h \<le> UINT16_MAX"
  shows "header_of_bytes (header_bytes h @ rest) = h"
  using assms by (simp add: header_of_bytes_def header_bytes_def buf_simps)

lemma bsplice_checksum:
  "bsplice 24 (le 4 c) (header_bytes h @ rest) = header_bytes (h\<lparr>hdr_checksum := c\<rparr>) @ rest"
  by (simp add: bsplice_def header_bytes_def)

lemma bsplice_front: "length as = length bs \<Longrightarrow> bsplice 0 bs (as @ cs) = bs @ cs"
  by (simp add: bsplice_def)

text \<open>The writer's page buffer: the header area, the data, zeros.\<close>

definition page_buffer :: "byte list \<Rightarrow> byte list" where
  "page_buffer data = replicate PAGE_HEADER_SIZE 0 @ data @ replicate (PAGE_DATA_SIZE - length data) 0"

lemma page_holds_checksum:
  assumes "hdr_page_lsn h \<le> UINT64_MAX" "hdr_page_end_lsn h \<le> UINT64_MAX" "hdr_num_records h \<le> UINT32_MAX"
    "hdr_data_size h = length data" "length data \<le> PAGE_DATA_SIZE" "hdr_flags h \<le> UINT16_MAX"
  shows "page_holds crc (hdr_flags h) data (compute_checksum crc h (bsplice 0 (header_bytes h) (page_buffer data)))"
proof -
  define t where "t = data @ replicate (PAGE_DATA_SIZE - length data) (0 :: byte)"
  define z where "z = header_bytes (h\<lparr>hdr_checksum := 0\<rparr>) @ t"
  define c where "c = unat (crc z)"
  have c: "c \<le> UINT32_MAX" using unat_32_less [of "crc z"] by (simp add: c_def)
  have "bsplice 0 (header_bytes (h\<lparr>hdr_checksum := 0\<rparr>)) (bsplice 0 (header_bytes h) (page_buffer data)) = z"
    by (simp add: page_buffer_def z_def t_def bsplice_front PAGE_HEADER_SIZE_def)
  then have page: "compute_checksum crc h (bsplice 0 (header_bytes h) (page_buffer data)) =
      header_bytes (h\<lparr>hdr_checksum := c\<rparr>) @ t"
    by (simp add: compute_checksum_def Let_def c_def) (simp add: z_def bsplice_checksum)
  have hdr: "header_of_bytes (header_bytes (h\<lparr>hdr_checksum := c\<rparr>) @ t) = h\<lparr>hdr_checksum := c\<rparr>"
    using assms c by (intro header_roundtrip) (simp_all add: page_consts)
  have "bsplice 24 (le 4 0) (header_bytes (h\<lparr>hdr_checksum := c\<rparr>) @ t) = z"
    by (simp add: bsplice_checksum z_def)
  then have "verify_checksum crc (h\<lparr>hdr_checksum := c\<rparr>) (header_bytes (h\<lparr>hdr_checksum := c\<rparr>) @ t)"
    by (simp add: verify_checksum_def c_def)
  moreover have "length (header_bytes (h\<lparr>hdr_checksum := c\<rparr>) @ t) = PAGE_SIZE"
    using assms(5) by (simp add: t_def page_consts)
  moreover have "bslice PAGE_HEADER_SIZE (length data) (header_bytes (h\<lparr>hdr_checksum := c\<rparr>) @ t) = data"
    by (simp add: bslice_def t_def PAGE_HEADER_SIZE_def)
  ultimately show ?thesis unfolding page_holds_def page using assms(4,5) by (simp add: hdr)
qed

text \<open>The reader over a list of pages.\<close>

fun steps ::
  "(byte list \<Rightarrow> 32 word) \<Rightarrow> nat \<Rightarrow> (nat \<times> byte list) list \<Rightarrow> reader_state \<Rightarrow> reader_state outcome" where
  "steps crc a [] s = Done s"
| "steps crc a ((flags, data) # ps) s = then_do (page_step crc a flags data s) (steps crc a ps)"

lemma then_do_assoc: "then_do (then_do m f) g = then_do m (\<lambda>x. then_do (f x) g)"
  by (cases m) simp_all

lemma steps_append: "steps crc a (ps @ qs) s = then_do (steps crc a ps s) (steps crc a qs)"
proof (induction ps arbitrary: s)
  case Nil
  then show ?case by simp
next
  case (Cons p ps)
  obtain flags data where p: "p = (flags, data)" by fastforce
  have "steps crc a (ps @ qs) = (\<lambda>x. then_do (steps crc a ps x) (steps crc a qs))"
    by (rule ext) (rule Cons.IH)
  then show ?case by (simp add: p then_do_assoc)
qed

text \<open>A segment file: the header page, data pages, and possibly a partial page at the end.\<close>

definition segment_holds ::
  "(byte list \<Rightarrow> 32 word) \<Rightarrow> (nat \<times> byte list) list \<Rightarrow> byte list \<Rightarrow> bool" where
  "segment_holds crc contents file \<longleftrightarrow> (\<exists>hp pages. file = hp @ concat pages \<and> length hp = PAGE_SIZE \<and>
     list_all2 (\<lambda>(flags, data) page. page_holds crc flags data page) contents pages)"

lemma length_concat_pages: "list_all2 (\<lambda>(flags, data) page. page_holds crc flags data page) contents pages \<Longrightarrow>
  length (concat pages) = length contents * PAGE_SIZE"
  by (induction rule: list_all2_induct) (auto simp: page_holds_def)

lemma page_count_segment:
  assumes "length file = (n + 1) * PAGE_SIZE" "length torn < PAGE_SIZE"
  shows "page_count (file @ torn) = n"
proof -
  have "length (file @ torn) div PAGE_SIZE = n + 1"
    using assms(1,2) by (simp add: PAGE_SIZE_def)
  then show ?thesis using assms by (auto simp: page_count_def PAGE_SIZE_def)
qed

lemma read_page_segment:
  assumes "length hp = (i + 1) * PAGE_SIZE" "length page = PAGE_SIZE"
  shows "read_page (hp @ page @ rest) (i + 1) = Some page"
  using assms by (simp add: read_page_def bslice_def)

lemma read_pages_segment:
  assumes "list_all2 (\<lambda>(flags, data) page. page_holds crc flags data page) contents pages"
    and "length hp = (i + 1) * PAGE_SIZE"
  shows "read_pages crc a (hp @ concat pages @ torn) [i + 1..<i + 1 + length contents] s = steps crc a contents s"
  using assms
proof (induction arbitrary: hp i s rule: list_all2_induct)
  case Nil
  then show ?case by simp
next
  case (Cons c contents page pages)
  obtain flags data where c: "c = (flags, data)" by fastforce
  have h: "page_holds crc flags data page" using Cons.hyps(1) c by simp
  then have len: "length page = PAGE_SIZE" by (simp add: page_holds_def)
  have "read_pages crc a ((hp @ page) @ concat pages @ torn) [i + 1 + 1..<i + 1 + 1 + length contents] s' =
      steps crc a contents s'" for s'
    using Cons.IH [of "hp @ page" "i + 1"] Cons.prems len by simp
  then have IH: "read_pages crc a (hp @ page @ concat pages @ torn) [i + 2..<i + 2 + length contents] =
      steps crc a contents"
    by (simp add: fun_eq_iff add.commute)
  have u: "[i + 1..<i + 1 + length (c # contents)] = (i + 1) # [i + 2..<i + 2 + length contents]"
    using upt_conv_Cons [of "i + 1" "i + 1 + length (c # contents)"] by simp
  have r: "read_page (hp @ page @ concat pages @ torn) (i + 1) = Some page"
    using Cons.prems len by (intro read_page_segment)
  show ?case
    using h r IH unfolding u by (simp add: c Let_def page_holds_def del: upt_Suc)
qed

section \<open>What the writer keeps\<close>

text \<open>The pages on disk, and the flags and the data of the page being filled.\<close>

definition writer_holds ::
  "(byte list \<Rightarrow> 32 word) \<Rightarrow> (nat \<times> byte list) list \<Rightarrow> nat \<Rightarrow> byte list \<Rightarrow> page_writer \<Rightarrow> bool" where
  "writer_holds crc contents flags data w \<longleftrightarrow>
     segment_holds crc contents (pw_file w) \<and> pw_file_size w = length (pw_file w) \<and>
     pw_page w = page_buffer data \<and> pw_offset w = PAGE_HEADER_SIZE + length data \<and>
     length data \<le> PAGE_DATA_SIZE \<and> pw_flags w = flags \<and> flags \<le> 3 \<and> (pw_has_data w \<longleftrightarrow> data \<noteq> []) \<and>
     pw_page_lsn w \<le> UINT64_MAX \<and> pw_page_end_lsn w \<le> UINT64_MAX \<and> pw_num_records w \<le> UINT32_MAX"

lemma page_space_holds: "writer_holds crc contents flags data w \<Longrightarrow> page_space w = PAGE_DATA_SIZE - length data"
  by (simp add: writer_holds_def page_space_def)

lemma segment_holds_snoc:
  assumes "segment_holds crc contents file" "page_holds crc flags data page"
  shows "segment_holds crc (contents @ [(flags, data)]) (file @ page)"
proof -
  obtain hp pages where f: "file = hp @ concat pages" "length hp = PAGE_SIZE"
    and l: "list_all2 (\<lambda>(flags, data) page. page_holds crc flags data page) contents pages"
    using assms(1) by (auto simp: segment_holds_def)
  have "file @ page = hp @ concat (pages @ [page])" using f by simp
  moreover have "list_all2 (\<lambda>(flags, data) page. page_holds crc flags data page)
      (contents @ [(flags, data)]) (pages @ [page])"
    using l assms(2) by (simp add: list_all2_appendI)
  ultimately show ?thesis using f(2) unfolding segment_holds_def by blast
qed

lemma page_buffer_empty: "page_buffer [] = replicate PAGE_SIZE 0"
  by (simp add: page_buffer_def page_consts flip: replicate_add)

lemma page_buffer_append:
  assumes "length data + length new \<le> PAGE_DATA_SIZE"
  shows "bsplice (PAGE_HEADER_SIZE + length data) new (page_buffer data) = page_buffer (data @ new)"
  using assms by (simp add: bsplice_def page_buffer_def)

lemma page_buffer_zero_tail:
  assumes "length data \<le> PAGE_DATA_SIZE"
  shows "bsplice (PAGE_HEADER_SIZE + length data) (replicate (PAGE_SIZE - (PAGE_HEADER_SIZE + length data)) 0)
    (page_buffer data) = page_buffer data"
  using assms by (simp add: bsplice_def page_buffer_def page_consts)

lemma flush_page_holds:
  assumes h: "writer_holds crc contents flags data w" and d: "data \<noteq> []" and io: "io = (\<lambda>_. None)"
  shows "\<exists>w'. flush_page crc io w = (w', True) \<and> writer_holds crc (contents @ [(flags, data)]) 0 [] w'"
proof -
  let ?hdr = "\<lparr>hdr_page_lsn = pw_page_lsn w, hdr_page_end_lsn = pw_page_end_lsn w, hdr_num_records = pw_num_records w,
     hdr_data_size = wrap32 (pw_offset w - PAGE_HEADER_SIZE), hdr_checksum = 0, hdr_flags = pw_flags w\<rparr>"
  let ?page = "compute_checksum crc ?hdr (bsplice 0 (header_bytes ?hdr) (page_buffer data))"
  let ?w = "start_new_page (w\<lparr>pw_file := pw_file w @ ?page, pw_page := ?page, pw_file_size := pw_file_size w + PAGE_SIZE\<rparr>)"
  have w: "pw_page w = page_buffer data" "pw_offset w = PAGE_HEADER_SIZE + length data" "length data \<le> PAGE_DATA_SIZE"
    "pw_flags w = flags" "flags \<le> 3" "pw_has_data w" "pw_page_lsn w \<le> UINT64_MAX" "pw_page_end_lsn w \<le> UINT64_MAX"
    "pw_num_records w \<le> UINT32_MAX" "pw_file_size w = length (pw_file w)" "segment_holds crc contents (pw_file w)"
    using h d by (simp_all add: writer_holds_def)
  have p: "page_holds crc flags data ?page"
    using page_holds_checksum [of ?hdr data crc] w by (simp add: page_consts)
  then have len: "length ?page = PAGE_SIZE" by (simp add: page_holds_def)
  have tail: "(if pw_offset w < PAGE_SIZE then bsplice (pw_offset w) (replicate (PAGE_SIZE - pw_offset w) 0) (pw_page w)
      else pw_page w) = page_buffer data"
    using page_buffer_zero_tail [OF w(3)] w(1,2) by simp
  have wr: "file_write io (pw_file w) (pw_file_size w) ?page = (pw_file w @ ?page, True)"
    by (simp add: file_write_def io w(10) bsplice_def)
  have "flush_page crc io w = (?w, True)"
    unfolding flush_page_def Let_def tail wr using w(6) by simp
  moreover have "writer_holds crc (contents @ [(flags, data)]) 0 [] ?w"
    using segment_holds_snoc [OF w(11) p] w(10) len
    by (simp add: writer_holds_def start_new_page_def page_buffer_empty PAGE_NORMAL_def)
  ultimately show ?thesis by blast
qed

lemma append_fits_holds:
  assumes "writer_holds crc contents flags data w" "length src \<le> page_space w" "src \<noteq> []"
  shows "writer_holds crc contents (if first then flags else flags OR 2) (data @ src) (append_fits first src w)"
proof -
  have "length data + length src \<le> PAGE_DATA_SIZE"
    using assms(1,2) page_space_holds [OF assms(1)] by (auto simp: writer_holds_def)
  moreover have "(if first then flags else flags OR 2) \<le> 3"
  proof -
    have "flags \<in> {0, 1, 2, 3}" using assms(1) by (auto simp: writer_holds_def)
    then show ?thesis by auto
  qed
  moreover have "wrap32 n \<le> UINT32_MAX" for n
    using mod_less_divisor [of 4294967296 n] by (simp add: wrap32_def)
  ultimately show ?thesis
    using assms(1,3) by (auto simp: writer_holds_def append_fits_def page_buffer_append PAGE_PARTIAL_END_def)
qed

lemma append_fill_holds:
  assumes "writer_holds crc contents flags data w" "page_space w < length src" "flags = 0 \<or> flags = 1 \<or> flags = 3"
  shows "writer_holds crc contents (flags OR 1) (data @ take (page_space w) src) (append_fill src w)"
proof -
  have s: "page_space w = PAGE_DATA_SIZE - length data" "length data \<le> PAGE_DATA_SIZE"
    using assms(1) page_space_holds [OF assms(1)] by (simp_all add: writer_holds_def)
  have "length data + length (take (page_space w) src) = PAGE_DATA_SIZE"
    using s assms(2) by simp
  moreover have "data @ take (page_space w) src \<noteq> []"
    using calculation by (auto simp: page_consts)
  ultimately show ?thesis
    using assms s by (auto simp: writer_holds_def append_fill_def page_buffer_append PAGE_PARTIAL_CONT_def)
qed

lemma continue_page_holds:
  assumes "writer_holds crc contents flags data w" "wal_id \<le> UINT64_MAX"
  shows "writer_holds crc contents 1 [] (continue_page wal_id w)"
  using assms
  by (auto simp: writer_holds_def continue_page_def start_new_page_def page_buffer_empty PAGE_PARTIAL_CONT_def
      PAGE_NORMAL_def Let_def)

text \<open>A record that goes on: full pages, and a last page marked as the end.\<close>

lemma append_loop_continues:
  assumes "writer_holds crc contents 1 [] w" "src \<noteq> []" "io = (\<lambda>_. None)" "wal_id \<le> UINT64_MAX"
  shows "\<exists>mids q w'. append_loop crc io wal_id False src w = (w', True) \<and> src = concat mids @ q \<and> q \<noteq> [] \<and>
    list_all (\<lambda>m. length m = PAGE_DATA_SIZE) mids \<and> length mids = (length src - 1) div PAGE_DATA_SIZE \<and>
    length q = (length src - 1) mod PAGE_DATA_SIZE + 1 \<and>
    writer_holds crc (contents @ map (Pair 1) mids) 3 q w'"
  using assms(1,2)
proof (induction "length src" arbitrary: src contents w rule: less_induct)
  case less
  have sp: "page_space w = PAGE_DATA_SIZE" using page_space_holds [OF less.prems(1)] by simp
  show ?case
  proof (cases "length src \<le> PAGE_DATA_SIZE")
    case True
    have "append_loop crc io wal_id False src w = (append_fits False src w, True)"
      using True sp less.prems(2) by (simp add: append_loop.simps)
    moreover have "writer_holds crc contents 3 src (append_fits False src w)"
      using append_fits_holds [OF less.prems(1), of src False] True sp less.prems(2) by simp
    moreover have "length src = (length src - 1) mod PAGE_DATA_SIZE + 1" "(length src - 1) div PAGE_DATA_SIZE = 0"
      using True less.prems(2) by (cases src; simp add: page_consts)+
    ultimately show ?thesis
      using less.prems(2) by (intro exI [of _ "[]"] exI [of _ src]) simp
  next
    case False
    have "writer_holds crc contents 1 (take PAGE_DATA_SIZE src) (append_fill src w)"
      using append_fill_holds [OF less.prems(1), of src] False sp by simp
    moreover have "take PAGE_DATA_SIZE src \<noteq> []" using less.prems(2) by (simp add: page_consts)
    ultimately obtain w1 where w1: "flush_page crc io (append_fill src w) = (w1, True)"
      "writer_holds crc (contents @ [(1, take PAGE_DATA_SIZE src)]) 0 [] w1"
      using flush_page_holds assms(3) by blast
    let ?rest = "drop PAGE_DATA_SIZE src"
    have r: "length ?rest < length src" "?rest \<noteq> []" using False less.prems(2) by (auto simp: page_consts)
    obtain mids q w' where IH: "append_loop crc io wal_id False ?rest (continue_page wal_id w1) = (w', True)"
      "?rest = concat mids @ q" "q \<noteq> []" "length q = (length ?rest - 1) mod PAGE_DATA_SIZE + 1"
      "writer_holds crc ((contents @ [(1, take PAGE_DATA_SIZE src)]) @ map (Pair 1) mids) 3 q w'"
      "list_all (\<lambda>m. length m = PAGE_DATA_SIZE) mids" "length mids = (length ?rest - 1) div PAGE_DATA_SIZE"
      using less.hyps [OF r(1) continue_page_holds [OF w1(2) assms(4)] r(2)] by blast
    have "append_loop crc io wal_id False src w = (w', True)"
      using False sp less.prems(2) w1(1) IH(1) by (simp add: append_loop.simps [of _ _ _ _ src])
    moreover have "src = concat (take PAGE_DATA_SIZE src # mids) @ q"
      using IH(2) append_take_drop_id [of PAGE_DATA_SIZE src] by (metis append.assoc concat.simps(2))
    moreover have n: "length src - 1 = PAGE_DATA_SIZE + (length ?rest - 1)"
      using False r(2) by (simp add: page_consts)
    moreover have "(length src - 1) mod PAGE_DATA_SIZE = (length ?rest - 1) mod PAGE_DATA_SIZE"
      unfolding n by (rule mod_add_self1)
    moreover have "(length src - 1) div PAGE_DATA_SIZE = Suc ((length ?rest - 1) div PAGE_DATA_SIZE)"
      unfolding n by (subst div_add_self1) (simp_all add: page_consts)
    ultimately show ?thesis
      using IH(3-7) False by (intro exI [of _ "take PAGE_DATA_SIZE src # mids"] exI [of _ q] exI [of _ w']) simp
  qed
qed

text \<open>The pages a record that does not fit fills, and the bytes it uses in its last page.\<close>

definition span_pages :: "nat \<Rightarrow> nat \<Rightarrow> nat" where
  "span_pages used len = Suc ((len - (PAGE_DATA_SIZE - used) - 1) div PAGE_DATA_SIZE)"

definition last_page_use :: "nat \<Rightarrow> nat \<Rightarrow> nat" where
  "last_page_use used len = (len - (PAGE_DATA_SIZE - used) - 1) mod PAGE_DATA_SIZE + 1"

lemma append_record_fits:
  assumes "writer_holds crc contents flags data w" "bytes \<noteq> []" "length bytes \<le> page_space w" "wal_id \<le> UINT64_MAX"
  shows "\<exists>w'. append_record crc io bytes wal_id w = (w', True) \<and> writer_holds crc contents flags (data @ bytes) w'"
proof -
  define w0 where "w0 = (if pw_page_lsn w = 0 then w\<lparr>pw_page_lsn := wal_id\<rparr> else w)\<lparr>pw_page_end_lsn := wal_id\<rparr>"
  have h: "writer_holds crc contents flags data w0"
    using assms(1,4) by (auto simp: w0_def writer_holds_def)
  have sp: "page_space w0 = page_space w" by (simp add: w0_def page_space_def)
  have "append_record crc io bytes wal_id w = append_loop crc io wal_id True bytes w0"
    using assms(2) by (simp add: append_record_def w0_def Let_def)
  then have "append_record crc io bytes wal_id w = (append_fits True bytes w0, True)"
    using assms(2,3) sp by (simp add: append_loop.simps)
  then show ?thesis using append_fits_holds [OF h, of bytes True] assms(2,3) sp by simp
qed

lemma append_record_spans:
  assumes "writer_holds crc contents flags data w" "page_space w < length bytes" "wal_id \<le> UINT64_MAX"
    and "flags = 0 \<or> flags = 3" and io: "io = (\<lambda>_. None)"
  shows "\<exists>p mids q w'. append_record crc io bytes wal_id w = (w', True) \<and> bytes = p @ concat mids @ q \<and>
    length p = page_space w \<and> q \<noteq> [] \<and> list_all (\<lambda>m. length m = PAGE_DATA_SIZE) mids \<and>
    Suc (length mids) = span_pages (length data) (length bytes) \<and> length q = last_page_use (length data) (length bytes) \<and>
    writer_holds crc (contents @ (flags OR 1, data @ p) # map (Pair 1) mids) 3 q w'"
proof -
  define w0 where "w0 = (if pw_page_lsn w = 0 then w\<lparr>pw_page_lsn := wal_id\<rparr> else w)\<lparr>pw_page_end_lsn := wal_id\<rparr>"
  have h: "writer_holds crc contents flags data w0"
    using assms(1,3) by (auto simp: w0_def writer_holds_def)
  have sp: "page_space w0 = page_space w" by (simp add: w0_def page_space_def)
  let ?p = "take (page_space w) bytes" and ?rest = "drop (page_space w) bytes"
  have ne: "bytes \<noteq> []" "?rest \<noteq> []" using assms(2) by auto
  have fill: "writer_holds crc contents (flags OR 1) (data @ ?p) (append_fill bytes w0)"
    using append_fill_holds [OF h, of bytes] assms(2,4) sp by auto
  have "page_space w = PAGE_DATA_SIZE - length data" by (rule page_space_holds [OF assms(1)])
  then have "data @ ?p \<noteq> []" using assms(2) by (auto simp: page_consts)
  then obtain w1 where w1: "flush_page crc io (append_fill bytes w0) = (w1, True)"
    "writer_holds crc (contents @ [(flags OR 1, data @ ?p)]) 0 [] w1"
    using flush_page_holds [OF fill _ io] by blast
  obtain mids q w' where l: "append_loop crc io wal_id False ?rest (continue_page wal_id w1) = (w', True)"
    "?rest = concat mids @ q" "q \<noteq> []" "length q = (length ?rest - 1) mod PAGE_DATA_SIZE + 1"
    "writer_holds crc ((contents @ [(flags OR 1, data @ ?p)]) @ map (Pair 1) mids) 3 q w'"
    "list_all (\<lambda>m. length m = PAGE_DATA_SIZE) mids" "length mids = (length ?rest - 1) div PAGE_DATA_SIZE"
    using append_loop_continues [OF continue_page_holds [OF w1(2) assms(3)] ne(2) io assms(3)] by blast
  have "append_record crc io bytes wal_id w = append_loop crc io wal_id True bytes w0"
    using ne(1) by (simp add: append_record_def w0_def Let_def)
  also have "\<dots> = (w', True)"
    using assms(2) sp ne(1) w1(1) l(1) by (simp add: append_loop.simps [of _ _ _ _ bytes])
  finally have "append_record crc io bytes wal_id w = (w', True)" .
  moreover have "bytes = ?p @ concat mids @ q" using l(2) by (metis append_take_drop_id)
  moreover have "length q = last_page_use (length data) (length bytes)"
    "Suc (length mids) = span_pages (length data) (length bytes)"
    using l(4,7) page_space_holds [OF assms(1)] by (simp_all add: last_page_use_def span_pages_def)
  ultimately show ?thesis
    using assms(2) l(3,5,6) by (intro exI [of _ ?p] exI [of _ mids] exI [of _ q] exI [of _ w']) simp
qed

section \<open>The writer and the reader together\<close>

context record_frames
begin

text \<open>The records appended so far are those the reader has already found on disk, the record in flight
  across the page boundary, and the complete records of the page being filled. \<open>D\<close> are records that a
  flush has put on disk, \<open>pages\<close> counts the data pages on disk, and \<open>spans\<close> says that the
  page being filled ends a spanning record.\<close>

definition log_inv ::
  "nat \<Rightarrow> record_t list \<Rightarrow> record_t list \<Rightarrow> nat \<Rightarrow> nat \<Rightarrow> bool \<Rightarrow> page_writer \<Rightarrow> bool" where
  "log_inv a R D pages used spans w \<longleftrightarrow> (\<exists>contents data s fs rs.
     steps crc a contents empty_reader = Done s \<and> prefix D (rs_records s) \<and> list_all2 frame fs rs \<and> length data = used \<and> length contents = pages \<and>
     (if spans
      then \<exists>p q r. writer_holds crc contents 3 data w \<and> rs_in_span s \<and> rs_span s = p \<and> 4 \<le> length p \<and>
             frame (p @ q) r \<and> q \<noteq> [] \<and> data = q @ concat fs \<and>
             concat (map (keep_record a) R) = rs_records s @ keep_record a r @ concat (map (keep_record a) rs)
      else writer_holds crc contents 0 data w \<and> \<not> rs_in_span s \<and> data = concat fs \<and>
             concat (map (keep_record a) R) = rs_records s @ concat (map (keep_record a) rs)))"

lemma log_inv_space: "log_inv a R D pages used spans w \<Longrightarrow> page_space w = PAGE_DATA_SIZE - used \<and> used \<le> PAGE_DATA_SIZE"
  by (auto simp: log_inv_def page_space_def writer_holds_def split: if_splits)

lemma frame_nonempty: "frame f r \<Longrightarrow> f \<noteq> []"
  using frame_length by fastforce

lemma log_inv_append_fits:
  assumes inv: "log_inv a R D pages used spans w" and f: "frame f r" and sp: "length f \<le> PAGE_DATA_SIZE - used"
    and id: "wal_id \<le> UINT64_MAX"
  shows "\<exists>w'. append_record crc io f wal_id w = (w', True) \<and> log_inv a (R @ [r]) D pages (used + length f) spans w'"
proof -
  obtain contents data s fs rs where st: "steps crc a contents empty_reader = Done s" "list_all2 frame fs rs"
    "length data = used" "length contents = pages" and D: "prefix D (rs_records s)" and rest: "if spans
      then \<exists>p q r. writer_holds crc contents 3 data w \<and> rs_in_span s \<and> rs_span s = p \<and> 4 \<le> length p \<and>
             frame (p @ q) r \<and> q \<noteq> [] \<and> data = q @ concat fs \<and>
             concat (map (keep_record a) R) = rs_records s @ keep_record a r @ concat (map (keep_record a) rs)
      else writer_holds crc contents 0 data w \<and> \<not> rs_in_span s \<and> data = concat fs \<and>
             concat (map (keep_record a) R) = rs_records s @ concat (map (keep_record a) rs)"
    using inv unfolding log_inv_def by blast
  have h: "writer_holds crc contents (if spans then 3 else 0) data w" using rest by (auto split: if_splits)
  then obtain w' where w': "append_record crc io f wal_id w = (w', True)"
    "writer_holds crc contents (if spans then 3 else 0) (data @ f) w'"
    using append_record_fits [OF h frame_nonempty [OF f] _ id] sp st(3) page_space_holds [OF h] by auto
  have fs: "list_all2 frame (fs @ [f]) (rs @ [r])" using st(2) f by (simp add: list_all2_appendI)
  have "log_inv a (R @ [r]) D pages (used + length f) spans w'"
    unfolding log_inv_def
  proof (intro exI conjI)
    show "steps crc a contents empty_reader = Done s" by (rule st)
    show "prefix D (rs_records s)" by (rule D)
    show "list_all2 frame (fs @ [f]) (rs @ [r])" by (rule fs)
    show "length (data @ f) = used + length f" using st(3) by simp
    show "length contents = pages" by (rule st(4))
    show "if spans
      then \<exists>p q ra. writer_holds crc contents 3 (data @ f) w' \<and> rs_in_span s \<and> rs_span s = p \<and> 4 \<le> length p \<and>
             frame (p @ q) ra \<and> q \<noteq> [] \<and> data @ f = q @ concat (fs @ [f]) \<and>
             concat (map (keep_record a) (R @ [r])) = rs_records s @ keep_record a ra @ concat (map (keep_record a) (rs @ [r]))
      else writer_holds crc contents 0 (data @ f) w' \<and> \<not> rs_in_span s \<and> data @ f = concat (fs @ [f]) \<and>
             concat (map (keep_record a) (R @ [r])) = rs_records s @ concat (map (keep_record a) (rs @ [r]))"
      using rest w'(2) by (cases spans) auto
  qed
  with w'(1) show ?thesis by blast
qed

lemma steps_mids:
  "rs_in_span s \<Longrightarrow> steps crc a (map (Pair 1) mids) s = Done (s\<lparr>rs_span := rs_span s @ concat mids\<rparr>)"
  by (induction mids arbitrary: s) (simp_all add: page_step_def PAGE_PARTIAL_CONT_def PAGE_PARTIAL_END_def)

lemma log_inv_append_spans:
  assumes inv: "log_inv a R D pages used False w" and f: "frame f r" and sp: "PAGE_DATA_SIZE - used < length f"
    and room: "used + 4 \<le> PAGE_DATA_SIZE" and id: "wal_id \<le> UINT64_MAX" and io: "io = (\<lambda>_. None)"
  shows "\<exists>w'. append_record crc io f wal_id w = (w', True) \<and>
    log_inv a (R @ [r]) D (pages + span_pages used (length f)) (last_page_use used (length f)) True w'"
proof -
  obtain contents data s fs rs where st: "steps crc a contents empty_reader = Done s" "list_all2 frame fs rs"
    "length data = used" "writer_holds crc contents 0 data w" "\<not> rs_in_span s" "data = concat fs"
    "concat (map (keep_record a) R) = rs_records s @ concat (map (keep_record a) rs)" "length contents = pages"
    "prefix D (rs_records s)"
    using inv unfolding log_inv_def if_False by blast
  have ps: "page_space w = PAGE_DATA_SIZE - used" using page_space_holds [OF st(4)] st(3) by simp
  have "page_space w < length f" using sp ps by simp
  then obtain p mids q w' where a: "append_record crc io f wal_id w = (w', True)" "f = p @ concat mids @ q"
    "length p = page_space w" "q \<noteq> []" "length q = last_page_use (length data) (length f)"
    "Suc (length mids) = span_pages (length data) (length f)"
    "writer_holds crc (contents @ (0 OR 1, data @ p) # map (Pair 1) mids) 3 q w'"
    using append_record_spans [OF st(4) _ id disjI1 [OF refl] io, of f] by blast
  have p4: "4 \<le> length p" using a(3) ps room by simp
  let ?s1 = "s\<lparr>rs_records := rs_records s @ concat (map (keep_record a) rs), rs_span := p, rs_in_span := True\<rparr>"
  have "parse_records crc a (concat fs @ p) = Done (concat (map (keep_record a) rs), p)"
    using parse_frames [OF st(2), of p "concat mids @ q" r a] f a(2,4) by simp
  moreover have "p \<noteq> []" using p4 by auto
  ultimately have "page_step crc a 1 (data @ p) s = Done ?s1"
    using st(5,6) by (simp add: page_step_def plain_page_def PAGE_PARTIAL_CONT_def PAGE_PARTIAL_END_def)
  then have "steps crc a (contents @ (0 OR 1, data @ p) # map (Pair 1) mids) empty_reader =
      Done (?s1\<lparr>rs_span := p @ concat mids\<rparr>)"
    using st(1) steps_mids [of ?s1 a mids] by (simp add: steps_append)
  moreover have "frame ((p @ concat mids) @ q) r" using f a(2) by simp
  moreover have "length (contents @ (0 OR 1, data @ p) # map (Pair 1) mids) = pages + span_pages used (length f)"
    using a(6) st(3,8) by simp
  moreover have "prefix D (rs_records (?s1\<lparr>rs_span := p @ concat mids\<rparr>))" using st(9) by simp
  ultimately have "log_inv a (R @ [r]) D (pages + span_pages used (length f)) (length q) True w'"
    unfolding log_inv_def if_True using a(4,7) p4 st(7)
    by (intro exI [of _ "contents @ (0 OR 1, data @ p) # map (Pair 1) mids"] exI [of _ q]
        exI [of _ "?s1\<lparr>rs_span := p @ concat mids\<rparr>"] exI [of _ "[]"] exI [of _ "p @ concat mids"])
      (simp, blast)
  with a(1,5) st(3) show ?thesis by auto
qed

lemma page_step_current:
  assumes "steps crc a contents empty_reader = Done s" "list_all2 frame fs rs"
    and "if spans
      then \<exists>p q r. rs_in_span s \<and> rs_span s = p \<and> 4 \<le> length p \<and> frame (p @ q) r \<and> q \<noteq> [] \<and>
             data = q @ concat fs \<and>
             concat (map (keep_record a) R) = rs_records s @ keep_record a r @ concat (map (keep_record a) rs)
      else \<not> rs_in_span s \<and> data = concat fs \<and>
             concat (map (keep_record a) R) = rs_records s @ concat (map (keep_record a) rs)"
  shows "\<exists>s'. steps crc a (contents @ [(if spans then 3 else 0, data)]) empty_reader = Done s' \<and>
    \<not> rs_in_span s' \<and> rs_records s' = concat (map (keep_record a) R)"
proof -
  have p: "parse_records crc a (concat fs) = Done (concat (map (keep_record a) rs), [])"
    using parse_frames [OF assms(2), of "[]"] by simp
  show ?thesis
  proof (cases spans)
    case True
    then obtain q r where r: "rs_in_span s" "4 \<le> length (rs_span s)" "frame (rs_span s @ q) r" "data = q @ concat fs"
      "concat (map (keep_record a) R) = rs_records s @ keep_record a r @ concat (map (keep_record a) rs)"
      using assms(3) by auto
    have "page_step crc a 3 data s = finish_span crc a (q @ concat fs) s"
      using r by (simp add: page_step_def PAGE_PARTIAL_CONT_def PAGE_PARTIAL_END_def)
    then show ?thesis
      using True assms(1) r finish_span_frame [OF r(3,2) refl p] by (simp add: steps_append)
  next
    case False
    then have "page_step crc a 0 data s = plain_page crc a False (concat fs) s" "\<not> rs_in_span s"
      using assms(3) by (simp_all add: page_step_def PAGE_PARTIAL_CONT_def PAGE_PARTIAL_END_def)
    then show ?thesis
      using False assms(1,3) p by (simp add: steps_append plain_page_def)
  qed
qed

lemma log_inv_flush:
  assumes inv: "log_inv a R D pages used spans w" and io: "io = (\<lambda>_. None)"
  shows "\<exists>w' contents s. flush crc io w = (w', True) \<and>
    log_inv a R (concat (map (keep_record a) R)) (if used = 0 then pages else Suc pages) 0 False w' \<and>
    writer_holds crc contents 0 [] w' \<and>
    steps crc a contents empty_reader = Done s \<and> rs_records s = concat (map (keep_record a) R)"
proof -
  obtain contents data s fs rs where st: "steps crc a contents empty_reader = Done s" "list_all2 frame fs rs"
    and len: "length data = used" "length contents = pages"
    and rest: "if spans
      then \<exists>p q r. writer_holds crc contents 3 data w \<and> rs_in_span s \<and> rs_span s = p \<and> 4 \<le> length p \<and>
             frame (p @ q) r \<and> q \<noteq> [] \<and> data = q @ concat fs \<and>
             concat (map (keep_record a) R) = rs_records s @ keep_record a r @ concat (map (keep_record a) rs)
      else writer_holds crc contents 0 data w \<and> \<not> rs_in_span s \<and> data = concat fs \<and>
             concat (map (keep_record a) R) = rs_records s @ concat (map (keep_record a) rs)"
    using inv unfolding log_inv_def by blast
  have h: "writer_holds crc contents (if spans then 3 else 0) data w" using rest by (auto split: if_splits)
  have inv0: "log_inv a R (concat (map (keep_record a) R)) (length cs) 0 False w'" if "writer_holds crc cs 0 [] w'" "steps crc a cs empty_reader = Done s'"
    "\<not> rs_in_span s'" "rs_records s' = concat (map (keep_record a) R)" for w' cs s'
    unfolding log_inv_def using that
    by (intro exI [of _ cs] exI [of _ "[]"] exI [of _ s']) auto
  show ?thesis
  proof (cases "data = []")
    case True
    then have n: "\<not> spans" "concat fs = []" using rest by (auto split: if_splits)
    then have "fs = []" using st(2) frame_nonempty by (cases fs) (auto simp: list_all2_Cons1)
    then have "rs_records s = concat (map (keep_record a) R)" "\<not> rs_in_span s"
      using rest n(1) st(2) by auto
    moreover have "flush crc io w = (w, True)" using h True by (simp add: flush_def writer_holds_def)
    ultimately show ?thesis using inv0 [OF _ st(1)] h n(1) True st(1) len by auto
  next
    case False
    obtain w' where w': "flush_page crc io w = (w', True)"
      "writer_holds crc (contents @ [(if spans then 3 else 0, data)]) 0 [] w'"
      using flush_page_holds [OF h False io] by blast
    have "if spans
      then \<exists>p q r. rs_in_span s \<and> rs_span s = p \<and> 4 \<le> length p \<and> frame (p @ q) r \<and> q \<noteq> [] \<and>
             data = q @ concat fs \<and>
             concat (map (keep_record a) R) = rs_records s @ keep_record a r @ concat (map (keep_record a) rs)
      else \<not> rs_in_span s \<and> data = concat fs \<and>
             concat (map (keep_record a) R) = rs_records s @ concat (map (keep_record a) rs)"
      using rest by (cases spans) auto
    then obtain s' where s': "steps crc a (contents @ [(if spans then 3 else 0, data)]) empty_reader = Done s'"
      "\<not> rs_in_span s'" "rs_records s' = concat (map (keep_record a) R)"
      using page_step_current [OF st] by blast
    have "flush crc io w = (w', True)" using w'(1) h False by (simp add: flush_def writer_holds_def)
    moreover have "log_inv a R (concat (map (keep_record a) R)) (if used = 0 then pages else Suc pages) 0 False w'"
      using inv0 [OF w'(2) s'] len False by auto
    ultimately show ?thesis using w'(2) s' by blast
  qed
qed

end

section \<open>Logging a sequence of entries\<close>

text \<open>What the worker does with a segment: it encodes an entry and appends the record, or it flushes. The
  writer and whether every write succeeded are the result.\<close>

datatype log_op = Log_Op "32 word" nat nat log_entry | Flush_Op

fun run_log ::
  "(byte list \<Rightarrow> 32 word) \<Rightarrow> io_env \<Rightarrow> log_op list \<Rightarrow> page_writer \<Rightarrow> (page_writer \<times> bool) outcome" where
  "run_log crc io [] w = Done (w, True)"
| "run_log crc io (Log_Op last_crc32 wal_id txn_id e # ops) w =
     then_do (encode_entry crc [] last_crc32 wal_id txn_id e) (\<lambda>(bytes, c).
       case append_record crc io bytes wal_id w of (w', ok) \<Rightarrow>
         if ok then run_log crc io ops w' else Done (w', False))"
| "run_log crc io (Flush_Op # ops) w =
     (case flush crc io w of (w', ok) \<Rightarrow> if ok then run_log crc io ops w' else Done (w', False))"

fun op_wf :: "log_op \<Rightarrow> bool" where
  "op_wf (Log_Op last_crc32 wal_id txn_id e) \<longleftrightarrow> entry_wf e \<and> wal_id \<le> UINT64_MAX \<and> txn_id \<le> UINT64_MAX"
| "op_wf Flush_Op \<longleftrightarrow> True"

fun logged :: "(byte list \<Rightarrow> 32 word) \<Rightarrow> log_op list \<Rightarrow> record_t list" where
  "logged crc [] = []"
| "logged crc (Log_Op last_crc32 wal_id txn_id e # ops) =
     logged_record crc last_crc32 wal_id txn_id e # logged crc ops"
| "logged crc (Flush_Op # ops) = logged crc ops"

text \<open>The size of an entry's record, and the layouts the reader can follow: with \<open>used\<close> bytes in the page
  being filled, a record that does not fit starts with at least its size field in this page, and this
  page does not already end a spanning record.\<close>

fun record_size :: "log_entry \<Rightarrow> nat" where
  "record_size (Commit_Entry cid) = 37"
| "record_size e = 53 + length (entry_payload e)"

fun clean_layout :: "nat \<Rightarrow> bool \<Rightarrow> log_op list \<Rightarrow> bool" where
  "clean_layout used spans [] = True"
| "clean_layout used spans (Flush_Op # ops) = clean_layout 0 False ops"
| "clean_layout used spans (Log_Op last_crc32 wal_id txn_id e # ops) =
     (if record_size e \<le> PAGE_DATA_SIZE - used then clean_layout (used + record_size e) spans ops
      else \<not> spans \<and> used + 4 \<le> PAGE_DATA_SIZE \<and> clean_layout (last_page_use used (record_size e)) True ops)"

lemma length_entry_frame: "length (framed crc (entry_body last_crc32 wal_id txn_id e)) = record_size e"
  by (cases e) simp_all

lemma run_log_inv:
  assumes io: "io = (\<lambda>_. None)" and inv: "frames.log_inv crc a R D pages used spans w"
    and wf: "list_all op_wf ops" and clean: "clean_layout used spans ops"
  shows "\<exists>w' D' pages' used' spans'. run_log crc io ops w = Done (w', True) \<and>
    frames.log_inv crc a (R @ logged crc ops) D' pages' used' spans' w'"
  using inv wf clean
proof (induction ops arbitrary: R D pages used spans w)
  case Nil
  then show ?case by auto
next
  case (Cons op ops)
  show ?case
  proof (cases op)
    case Flush_Op
    obtain w1 D1 pages1 where w1: "flush crc io w = (w1, True)" "frames.log_inv crc a R D1 pages1 0 False w1"
      using frames.log_inv_flush [OF Cons.prems(1) io] by blast
    show ?thesis using Cons.IH [OF w1(2)] Cons.prems(2,3) w1(1) Flush_Op by simp
  next
    case (Log_Op last_crc32 wal_id txn_id e)
    let ?f = "framed crc (entry_body last_crc32 wal_id txn_id e)"
    let ?r = "logged_record crc last_crc32 wal_id txn_id e"
    have wf: "entry_wf e" "wal_id \<le> UINT64_MAX" "txn_id \<le> UINT64_MAX" "list_all op_wf ops"
      using Cons.prems(2) Log_Op by simp_all
    have f: "is_frame crc ?f ?r" by (rule is_frame_entry [OF wf(1-3)])
    have enc: "encode_entry crc [] last_crc32 wal_id txn_id e =
        Done (?f, crc (entry_body last_crc32 wal_id txn_id e))"
      using encode_entry_eq [OF wf(1), of crc "[]"] by simp
    have "\<exists>w1 pages1 used1 spans1. append_record crc io ?f wal_id w = (w1, True) \<and>
      frames.log_inv crc a (R @ [?r]) D pages1 used1 spans1 w1 \<and> clean_layout used1 spans1 ops"
    proof (cases "record_size e \<le> PAGE_DATA_SIZE - used")
      case True
      then show ?thesis
        using frames.log_inv_append_fits [OF Cons.prems(1) f _ wf(2), of io, unfolded length_entry_frame]
          Cons.prems(3) Log_Op by auto
    next
      case False
      then have "\<not> spans" "used + 4 \<le> PAGE_DATA_SIZE" "clean_layout (last_page_use used (record_size e)) True ops"
        using Cons.prems(3) Log_Op by simp_all
      then show ?thesis
        using frames.log_inv_append_spans [OF _ f _ _ wf(2) io, of a R D pages used w, unfolded length_entry_frame]
          Cons.prems(1) False by auto
    qed
    then obtain w1 pages1 used1 spans1 where w1: "append_record crc io ?f wal_id w = (w1, True)"
      "frames.log_inv crc a (R @ [?r]) D pages1 used1 spans1 w1" "clean_layout used1 spans1 ops" by blast
    show ?thesis using Cons.IH [OF w1(2) wf(4) w1(3)] w1(1) enc Log_Op by simp
  qed
qed

lemma length_file_header_init: "length (file_header_init seg_idx db_name) = 288"
  by (simp add: file_header_init_def WAL_MAGIC_def Let_def)

lemma open_writer_holds:
  assumes "io = (\<lambda>_. None)"
  shows "writer_holds crc [] 0 [] (open_writer io db_name seg_index [])"
proof -
  let ?hp = "bsplice 0 (file_header_init seg_index db_name) (replicate PAGE_SIZE 0)"
  have len: "length ?hp = PAGE_SIZE" by (simp add: length_file_header_init PAGE_SIZE_def)
  then have "segment_holds crc [] ?hp" unfolding segment_holds_def by (intro exI [of _ ?hp] exI [of _ "[]"]) simp
  moreover have "bsplice 0 ?hp [] = ?hp" by (simp add: bsplice_def)
  ultimately show ?thesis using len assms
    by (simp add: open_writer_def write_file_header_def file_write_def start_new_page_def writer_holds_def
        page_buffer_empty PAGE_NORMAL_def Let_def)
qed

lemma log_inv_fresh:
  "writer_holds crc [] 0 [] w \<Longrightarrow> frames.log_inv crc a [] [] 0 0 False w"
  unfolding frames.log_inv_def if_False
  by (intro exI [of _ "[]"] exI [of _ empty_reader]) (simp add: empty_reader_def)

lemma read_all_segment:
  assumes "segment_holds crc contents file" "length torn < PAGE_SIZE"
    and "steps crc a contents empty_reader = Done s"
  shows "read_all_records crc (file @ torn) a = Done (rs_records s)"
proof -
  obtain hp pages where f: "file = hp @ concat pages" "length hp = PAGE_SIZE"
    and l: "list_all2 (\<lambda>(flags, data) page. page_holds crc flags data page) contents pages"
    using assms(1) by (auto simp: segment_holds_def)
  have "length file = (length contents + 1) * PAGE_SIZE" using f length_concat_pages [OF l] by simp
  then have n: "page_count (file @ torn) = length contents" using page_count_segment assms(2) by blast
  have "read_pages crc a (file @ torn) [1..<length contents + 1] empty_reader = Done s"
    using read_pages_segment [OF l, of hp 0 a torn empty_reader] f assms(3) by (simp add: add.commute)
  then show ?thesis by (simp only: read_all_records_def n then_do.simps)
qed

lemma keep_logged: "concat (map (keep_record a) (logged crc ops)) = filter (\<lambda>r. a < rec_id r) (logged crc ops)"
  by (induction crc ops rule: logged.induct) (simp_all add: keep_record_def)

section \<open>Properties of the log\<close>

text \<open>C25. What is logged is recovered: on a fresh segment, with every write succeeding and a layout in which
  no page both ends a spanning record and starts another one (and every spanning record starts with its
  size field in one piece), reading the flushed file returns every logged record with an id above the given
  one, complete and in order, also when a partial page was left behind it.\<close>

theorem wal_log_roundtrip:
  assumes "list_all op_wf ops" and "clean_layout 0 False ops" and "length torn < PAGE_SIZE"
  shows "\<exists>w w'. run_log crc (\<lambda>_. None) ops (open_writer (\<lambda>_. None) db_name seg_index []) = Done (w, True) \<and>
    flush crc (\<lambda>_. None) w = (w', True) \<and>
    read_all_records crc (pw_file w' @ torn) after_id = Done (filter (\<lambda>r. after_id < rec_id r) (logged crc ops))"
proof -
  let ?w0 = "open_writer (\<lambda>_. None) db_name seg_index []"
  have "frames.log_inv crc after_id [] [] 0 0 False ?w0"
    by (rule log_inv_fresh [OF open_writer_holds [OF refl]])
  then obtain w D pages used spans where w: "run_log crc (\<lambda>_. None) ops ?w0 = Done (w, True)"
    "frames.log_inv crc after_id ([] @ logged crc ops) D pages used spans w"
    using run_log_inv [OF refl _ assms(1,2)] by blast
  obtain w' contents s where f: "flush crc (\<lambda>_. None) w = (w', True)" "writer_holds crc contents 0 [] w'"
    "steps crc after_id contents empty_reader = Done s"
    "rs_records s = concat (map (keep_record after_id) ([] @ logged crc ops))"
    using frames.log_inv_flush [OF w(2) refl] by blast
  have "read_all_records crc (pw_file w' @ torn) after_id = Done (rs_records s)"
    using read_all_segment [OF _ assms(3) f(3)] f(2) by (simp add: writer_holds_def)
  then show ?thesis using w(1) f(1,4) by (simp add: keep_logged)
qed

text \<open>A transaction that deletes 600 rows of a table and commits; its record is longer than a page.\<close>

definition big_delete :: log_entry where
  "big_delete = Delete_Entry 20000 (replicate 600 0)"

definition big_delete_ops :: "log_op list" where
  "big_delete_ops = [Log_Op 0 1 7 big_delete, Log_Op 0 2 7 (Commit_Entry 5), Flush_Op]"

lemma big_delete_wf: "entry_wf big_delete" "record_size big_delete = 4853"
  by (simp_all add: big_delete_def entry_wf_def list_all_iff)

lemma last_page_use_big: "last_page_use 0 4853 = 789" "last_page_use 789 4853 = 1578"
  by (simp_all add: last_page_use_def page_consts)

theorem wal_log_roundtrip_witness:
  "\<exists>w w'. run_log sum_crc (\<lambda>_. None) big_delete_ops (open_writer (\<lambda>_. None) [] 0 []) = Done (w, True) \<and>
    flush sum_crc (\<lambda>_. None) w = (w', True) \<and>
    read_all_records sum_crc (pw_file w' @ [1, 2, 3]) 0 = Done (logged sum_crc big_delete_ops) \<and>
    length (logged sum_crc big_delete_ops) = 2"
proof -
  have "entry_wf (Commit_Entry 5)" by (simp add: entry_wf_def)
  then have wf: "list_all op_wf big_delete_ops" and clean: "clean_layout 0 False big_delete_ops"
    by (simp_all add: big_delete_ops_def big_delete_wf last_page_use_big page_consts)
  have "filter (\<lambda>r. 0 < rec_id r) (logged sum_crc big_delete_ops) = logged sum_crc big_delete_ops"
    by (simp add: big_delete_ops_def)
  moreover have "length (logged sum_crc big_delete_ops) = 2" by (simp add: big_delete_ops_def)
  moreover have "length [1, 2, 3 :: byte] < PAGE_SIZE" by (simp add: PAGE_SIZE_def)
  ultimately show ?thesis
    using wal_log_roundtrip [OF wf clean, of "[1, 2, 3]" sum_crc "[]" 0 0] by metis
qed

lemma le_zero: "le n 0 = replicate n 0"
  by (induction n) simp_all

lemma unle_zero: "unle (replicate n 0) = 0"
  by (induction n) simp_all

lemma row_ids_bytes_zero: "row_ids_bytes (replicate n 0) = replicate (8 * n) 0"
proof (induction n)
  case 0
  then show ?case by (simp add: row_ids_bytes_def)
next
  case (Suc n)
  have "row_ids_bytes (replicate (Suc n) 0) = replicate 8 0 @ replicate (8 * n) 0"
    using Suc by (simp add: row_ids_bytes_def le_zero)
  then show ?case by (simp only: replicate_add [symmetric] mult_Suc_right)
qed

text \<open>The part of the second record behind the page boundary starts with zero bytes.\<close>

lemma big_delete_tail:
  assumes "framed crc (entry_body last_crc32 wal_id txn_id big_delete) = p @ q" "length p = 3275"
  shows "rd 4 0 (q @ rest) = 0"
proof -
  let ?body = "entry_body last_crc32 wal_id txn_id big_delete"
  define c where "c = le 4 (unat (crc ?body))"
  define h where "h = le 4 (length ?body) @ le 4 (unat last_crc32) @ le 8 wal_id @ le 8 txn_id @
    [word_of_nat PHYSICAL_DELETE] @ le 4 20000 @ le 8 0 @ le 8 600 @ le 4 (8 * 600)"
  have ids: "row_ids_bytes (replicate 600 0) = replicate 3226 0 @ replicate 4 0 @ replicate 1570 0"
    unfolding row_ids_bytes_zero by (simp only: replicate_add [symmetric]) simp
  have "framed crc ?body = h @ row_ids_bytes (replicate 600 0) @ c"
    by (simp add: framed_def big_delete_def dml_body_def h_def c_def)
  then have "p @ q = (h @ replicate 3226 0) @ replicate 4 0 @ replicate 1570 0 @ c"
    using assms(1) ids by simp
  moreover have "length (h @ replicate 3226 (0 :: byte)) = length p" using assms(2) by (simp add: h_def)
  ultimately have "q = replicate 4 0 @ replicate 1570 0 @ c" by (metis append_eq_append_conv)
  then have "rd 4 0 (q @ rest) = unle (replicate 4 0)" by (simp add: rd_def bslice_def)
  then show ?thesis by (simp only: unle_zero)
qed

lemma append_one_page_span:
  assumes h: "writer_holds crc contents flags data w" and fl: "flags = 0 \<or> flags = 3"
    and len: "page_space w < length bytes" "length bytes - page_space w \<le> PAGE_DATA_SIZE" and id: "wal_id \<le> UINT64_MAX"
  shows "\<exists>p q w'. append_record crc (\<lambda>_. None) bytes wal_id w = (w', True) \<and> bytes = p @ q \<and>
    length p = page_space w \<and> writer_holds crc (contents @ [(flags OR 1, data @ p)]) 3 q w'"
proof -
  obtain p mids q w' where a: "append_record crc (\<lambda>_. None) bytes wal_id w = (w', True)" "bytes = p @ concat mids @ q"
    "length p = page_space w" "q \<noteq> []" "list_all (\<lambda>m. length m = PAGE_DATA_SIZE) mids"
    "writer_holds crc (contents @ (flags OR 1, data @ p) # map (Pair 1) mids) 3 q w'"
    using append_record_spans [OF h len(1) id fl refl] by blast
  have "mids = []"
  proof (rule ccontr)
    assume "mids \<noteq> []"
    then obtain m ms where m: "mids = m # ms" by (cases mids) auto
    then have "length bytes = page_space w + PAGE_DATA_SIZE + length (concat ms) + length q"
      using a(2,3,5) by simp
    moreover have "0 < length q" using a(4) by simp
    ultimately show False using len by linarith
  qed
  then show ?thesis using a by (intro exI [of _ p] exI [of _ q] exI [of _ w']) simp
qed

lemma span_after_span:
  assumes f1: "is_frame crc f1 r1" "length f1 = 4853" "keep_record a r1 = [r1]"
    and f2: "is_frame crc f2 r2" "length f2 = 4853" and zero: "\<forall>p q. f2 = p @ q \<and> length p = 3275 \<longrightarrow> rd 4 0 (q @ c) = 0"
    and c: "length c = 37" and h0: "writer_holds crc [] 0 [] w0"
    and ids: "i1 \<le> UINT64_MAX" "i2 \<le> UINT64_MAX" "i3 \<le> UINT64_MAX"
  shows "\<exists>w1 w2 w3 w4. append_record crc (\<lambda>_. None) f1 i1 w0 = (w1, True) \<and>
    append_record crc (\<lambda>_. None) f2 i2 w1 = (w2, True) \<and> append_record crc (\<lambda>_. None) c i3 w2 = (w3, True) \<and>
    flush crc (\<lambda>_. None) w3 = (w4, True) \<and> read_all_records crc (pw_file w4) a = Done [r1]"
proof -
  have fit: "4064 < (4853 :: nat)" "4853 - 4064 \<le> PAGE_DATA_SIZE" "3275 < (4853 :: nat)" "4853 - 3275 \<le> PAGE_DATA_SIZE"
    by (simp_all add: page_consts)
  have s0: "page_space w0 = 4064" using page_space_holds [OF h0] by (simp add: page_consts)
  obtain p1 q1 w1 where a1: "append_record crc (\<lambda>_. None) f1 i1 w0 = (w1, True)" "f1 = p1 @ q1"
    "length p1 = page_space w0" "writer_holds crc ([] @ [(0 OR 1, [] @ p1)]) 3 q1 w1"
    using append_one_page_span [OF h0 disjI1 [OF refl] _ _ ids(1), of f1] fit(1,2) unfolding s0 f1(2) by blast
  have q1: "length q1 = 789" using a1(2,3) f1(2) s0 by simp
  have s1: "page_space w1 = 3275" using page_space_holds [OF a1(4)] q1 by (simp add: page_consts)
  obtain p2 q2 w2 where a2: "append_record crc (\<lambda>_. None) f2 i2 w1 = (w2, True)" "f2 = p2 @ q2"
    "length p2 = page_space w1" "writer_holds crc (([] @ [(0 OR 1, [] @ p1)]) @ [(3 OR 1, q1 @ p2)]) 3 q2 w2"
    using append_one_page_span [OF a1(4) disjI2 [OF refl] _ _ ids(2), of f2] fit(3,4) unfolding s1 f2(2) by blast
  have q2: "length q2 = 1578" using a2(2,3) f2(2) s1 by simp
  have "length c \<le> page_space w2" "c \<noteq> []" using page_space_holds [OF a2(4)] q2 c by (auto simp: page_consts)
  then obtain w3 where a3: "append_record crc (\<lambda>_. None) c i3 w2 = (w3, True)"
    "writer_holds crc (([] @ [(0 OR 1, [] @ p1)]) @ [(3 OR 1, q1 @ p2)]) 3 (q2 @ c) w3"
    using append_record_fits [OF a2(4) _ _ ids(3)] by blast
  have "q2 @ c \<noteq> []" using \<open>c \<noteq> []\<close> by simp
  then obtain w4 where a4: "flush_page crc (\<lambda>_. None) w3 = (w4, True)"
    "writer_holds crc ((([] @ [(0 OR 1, [] @ p1)]) @ [(3 OR 1, q1 @ p2)]) @ [(3, q2 @ c)]) 0 [] w4"
    using flush_page_holds [OF a3(2) _ refl] by blast
  have fl: "flush crc (\<lambda>_. None) w3 = (w4, True)"
    using a4(1) a3(2) \<open>q2 @ c \<noteq> []\<close> by (simp add: flush_def writer_holds_def)
  have ne: "q1 \<noteq> []" "p1 \<noteq> []" "4 \<le> length p1" using q1 a1(3) s0 by auto
  have "parse_records crc a p1 = Done ([], p1)"
    using frames.parse_stops [of p1 crc q1 r1] f1(1) a1(2) ne(1) by blast
  then have st1: "page_step crc a 1 p1 empty_reader = Done \<lparr>rs_records = [], rs_span = p1, rs_in_span = True\<rparr>"
    using ne(2) by (simp add: page_step_def plain_page_def empty_reader_def PAGE_PARTIAL_CONT_def PAGE_PARTIAL_END_def)
  have "q2 \<noteq> []" using q2 by auto
  then have "parse_records crc a p2 = Done ([], p2)"
    using frames.parse_stops [of p2 crc q2 r2] f2(1) a2(2) by blast
  moreover have "is_frame crc (p1 @ q1) r1" using f1(1) a1(2) by simp
  ultimately have "finish_span crc a (q1 @ p2) \<lparr>rs_records = [], rs_span = p1, rs_in_span = True\<rparr> =
      Done \<lparr>rs_records = [r1], rs_span = [], rs_in_span = False\<rparr>"
    using frames.finish_span_frame [of crc p1 q1 r1 _ a p2 "[]" p2] ne(3) f1(3) by simp
  then have st2: "page_step crc a 3 (q1 @ p2) \<lparr>rs_records = [], rs_span = p1, rs_in_span = True\<rparr> =
      Done \<lparr>rs_records = [r1], rs_span = [], rs_in_span = False\<rparr>"
    by (simp add: page_step_def PAGE_PARTIAL_CONT_def PAGE_PARTIAL_END_def)
  have "rd 4 0 (q2 @ c) = 0" using zero a2(2,3) s1 by simp
  then have "parse_records crc a (q2 @ c) = Done ([], q2 @ c)"
    by (subst parse_records.simps) simp
  then have st3: "page_step crc a 3 (q2 @ c) \<lparr>rs_records = [r1], rs_span = [], rs_in_span = False\<rparr> =
      Done \<lparr>rs_records = [r1], rs_span = q2 @ c, rs_in_span = True\<rparr>"
    using \<open>q2 @ c \<noteq> []\<close>
    by (simp add: page_step_def plain_page_def PAGE_PARTIAL_CONT_def PAGE_PARTIAL_END_def del: append_is_Nil_conv)
  have "steps crc a [(1, p1), (3, q1 @ p2), (3, q2 @ c)] empty_reader =
      Done \<lparr>rs_records = [r1], rs_span = q2 @ c, rs_in_span = True\<rparr>"
    using st1 st2 st3 by simp
  then have "read_all_records crc (pw_file w4 @ []) a = Done [r1]"
    using read_all_segment [of crc "[(1, p1), (3, q1 @ p2), (3, q2 @ c)]" "pw_file w4" "[]" a] a4(2)
    by (simp add: writer_holds_def PAGE_SIZE_def)
  then show ?thesis using a1(1) a2(1) a3(1) fl by (metis append_Nil2)
qed

text \<open>C26. A page that ends a spanning record and starts another one loses the second: two deletes of 600
  rows and the COMMIT of their transaction are written and flushed without an error, and reading the
  segment returns the first delete only. The second delete and the COMMIT are gone, so the transaction
  counts as not committed.\<close>

theorem second_span_lost:
  "\<exists>w w'. run_log crc (\<lambda>_. None)
      [Log_Op c1 1 7 big_delete, Log_Op c2 2 7 big_delete, Log_Op c3 3 7 (Commit_Entry 5)]
      (open_writer (\<lambda>_. None) db_name seg_index []) = Done (w, True) \<and>
    flush crc (\<lambda>_. None) w = (w', True) \<and>
    read_all_records crc (pw_file w') 0 = Done [logged_record crc c1 1 7 big_delete]"
proof -
  let ?f = "\<lambda>c i. framed crc (entry_body c i 7 big_delete)"
  let ?c = "framed crc (entry_body c3 3 7 (Commit_Entry 5))"
  let ?r = "\<lambda>c i. logged_record crc c i 7 big_delete"
  have frame: "is_frame crc (?f c i) (?r c i)" if "i \<le> UINT64_MAX" for c i
    by (rule is_frame_entry [OF big_delete_wf(1) that]) simp
  have len: "length (?f c i) = 4853" for c i by (simp only: length_entry_frame big_delete_wf(2))
  have enc: "encode_entry crc [] c i 7 big_delete = Done (?f c i, crc (entry_body c i 7 big_delete))" for c i
    using encode_entry_eq [OF big_delete_wf(1), of crc "[]"] by simp
  have encc: "encode_entry crc [] c3 3 7 (Commit_Entry 5) = Done (?c, crc (entry_body c3 3 7 (Commit_Entry 5)))"
    using encode_entry_eq [of "Commit_Entry 5" crc "[]"] by (simp add: entry_wf_def)
  have keep: "keep_record 0 (?r c1 1) = [?r c1 1]" by (simp add: keep_record_def)
  have lc: "length ?c = 37" by simp
  have b: "(1 :: nat) \<le> UINT64_MAX" "(2 :: nat) \<le> UINT64_MAX" "(3 :: nat) \<le> UINT64_MAX" by simp_all
  have zero: "\<forall>p q. ?f c2 2 = p @ q \<and> length p = 3275 \<longrightarrow> rd 4 0 (q @ ?c) = 0"
    using big_delete_tail by blast
  have h0: "writer_holds crc [] 0 [] (open_writer (\<lambda>_. None) db_name seg_index [])"
    by (rule open_writer_holds [OF refl])
  obtain w1 w2 w3 w4 where a:
    "append_record crc (\<lambda>_. None) (?f c1 1) 1 (open_writer (\<lambda>_. None) db_name seg_index []) = (w1, True)"
    "append_record crc (\<lambda>_. None) (?f c2 2) 2 w1 = (w2, True)" "append_record crc (\<lambda>_. None) ?c 3 w2 = (w3, True)"
    "flush crc (\<lambda>_. None) w3 = (w4, True)" "read_all_records crc (pw_file w4) 0 = Done [?r c1 1]"
    using span_after_span [OF frame [of 1 c1, OF b(1)] len keep frame [of 2 c2, OF b(2)] len zero lc h0 b] by blast
  then have "run_log crc (\<lambda>_. None)
      [Log_Op c1 1 7 big_delete, Log_Op c2 2 7 big_delete, Log_Op c3 3 7 (Commit_Entry 5)]
      (open_writer (\<lambda>_. None) db_name seg_index []) = Done (w3, True)"
    by (simp only: run_log.simps enc encc then_do.simps prod.case if_True)
  with a(4,5) show ?thesis by blast
qed

lemma read_pages_cong:
  "(\<And>i. i \<in> set is \<Longrightarrow> read_page file i = read_page file' i) \<Longrightarrow>
   read_pages crc a file is s = read_pages crc a file' is s"
proof (induction "is" arbitrary: s)
  case Nil
  then show ?case by simp
next
  case (Cons i "is")
  have "read_pages crc a file is = read_pages crc a file' is" using Cons by (intro ext) simp
  with Cons.prems show ?case by (cases "read_page file' i") (simp_all add: Let_def)
qed

lemma read_pages_stop:
  assumes "\<not> verify_page_checksum crc file k"
  shows "read_pages crc a file (is @ k # js) s = read_pages crc a file is s"
proof (induction "is" arbitrary: s)
  case Nil
  then show ?case using assms by (auto simp: verify_page_checksum_def Let_def split: option.splits)
next
  case (Cons i "is")
  have "read_pages crc a file (is @ k # js) = read_pages crc a file is" using Cons.IH by (rule ext)
  then show ?case by (cases "read_page file i") (simp_all add: Let_def)
qed

lemma read_page_take:
  assumes "i \<le> k"
  shows "read_page (take ((k + 1) * PAGE_SIZE) file) i = read_page file i"
proof -
  have m: "i * PAGE_SIZE + PAGE_SIZE \<le> (k + 1) * PAGE_SIZE"
    using mult_right_mono [of "i + 1" "k + 1" PAGE_SIZE] assms by simp
  then have "bslice (i * PAGE_SIZE) PAGE_SIZE (take ((k + 1) * PAGE_SIZE) file) = bslice (i * PAGE_SIZE) PAGE_SIZE file"
    by (simp add: bslice_def take_drop min_def)
  moreover have "i * PAGE_SIZE + PAGE_SIZE > length (take ((k + 1) * PAGE_SIZE) file) \<longleftrightarrow>
      i * PAGE_SIZE + PAGE_SIZE > length file"
    using m by (simp only: length_take) linarith
  ultimately show ?thesis by (simp only: read_page_def)
qed

text \<open>C27. A corrupted page ends the log: when the checksum of a data page does not match, the reader
  returns what it returns for the file cut off in front of that page, whatever the file holds from there
  on.\<close>

theorem reader_stops_at_corruption:
  assumes "k < page_count file" and "\<not> verify_page_checksum crc file (k + 1)"
  shows "read_all_records crc file after_id = read_all_records crc (take ((k + 1) * PAGE_SIZE) file) after_id"
proof -
  have len: "(k + 2) * PAGE_SIZE \<le> length file"
  proof -
    have "k + 2 \<le> length file div PAGE_SIZE" using assms(1) by (auto simp: page_count_def split: if_splits)
    then show ?thesis by (simp add: less_eq_div_iff_mult_less_eq PAGE_SIZE_def)
  qed
  let ?t = "take ((k + 1) * PAGE_SIZE) file"
  have c: "page_count ?t = k" using len by (simp add: page_count_def PAGE_SIZE_def)
  have "[1..<page_count file + 1] = [1..<k + 1] @ [k + 1..<page_count file + 1]"
    using assms(1) upt_add_eq_append [of 1 "k + 1" "page_count file - k"] by simp
  also have "[k + 1..<page_count file + 1] = (k + 1) # [k + 2..<page_count file + 1]"
    using assms(1) upt_conv_Cons [of "k + 1" "page_count file + 1"] by simp
  finally have u: "[1..<page_count file + 1] = [1..<k + 1] @ (k + 1) # [k + 2..<page_count file + 1]" .
  have "read_pages crc after_id file [1..<page_count file + 1] empty_reader =
      read_pages crc after_id file [1..<k + 1] empty_reader"
    unfolding u by (rule read_pages_stop [OF assms(2)])
  also have "\<dots> = read_pages crc after_id ?t [1..<k + 1] empty_reader"
    by (rule read_pages_cong, rule read_page_take [symmetric]) auto
  finally show ?thesis by (simp only: read_all_records_def c)
qed

theorem reader_stops_at_corruption_witness:
  "0 < page_count (replicate 8192 (1 :: byte)) \<and> read_all_records (\<lambda>_. 0) (replicate 8192 1) 0 = Done []"
proof -
  have c: "page_count (replicate 8192 (1 :: byte)) = 1" by (simp add: page_count_def PAGE_SIZE_def)
  have p: "read_page (replicate 8192 (1 :: byte)) 1 = Some (replicate 4096 1)"
    by (simp add: read_page_def bslice_def PAGE_SIZE_def)
  have "bslice 24 4 (replicate 4096 (1 :: byte)) = [1, 1, 1, 1]"
    by (simp add: bslice_def) (simp add: numeral_eq_Suc)
  then have "\<not> verify_page_checksum (\<lambda>_. 0) (replicate 8192 1) (0 + 1)"
    by (simp add: verify_page_checksum_def p [simplified] verify_checksum_def header_of_bytes_def rd_def)
  from reader_stops_at_corruption [OF _ this, of 0] c
  have "read_all_records (\<lambda>_. 0) (replicate 8192 1) 0 =
      read_all_records (\<lambda>_. 0) (take ((0 + 1) * PAGE_SIZE) (replicate 8192 1)) 0" by simp
  then show ?thesis using c
    by (simp add: read_all_records_def page_count_def PAGE_SIZE_def empty_reader_def)
qed

section \<open>Seeking to a record\<close>

definition page_range_holds :: "(nat \<Rightarrow> wal_page_header) \<Rightarrow> nat \<Rightarrow> nat \<Rightarrow> bool" where
  "page_range_holds hdr target p \<longleftrightarrow> hdr_page_lsn (hdr p) \<le> target \<and> target \<le> hdr_page_end_lsn (hdr p)"

text \<open>The page ranges grow with the page index.\<close>

definition pages_sorted :: "(nat \<Rightarrow> wal_page_header) \<Rightarrow> nat \<Rightarrow> bool" where
  "pages_sorted hdr n \<longleftrightarrow> (\<forall>i j. 1 \<le> i \<and> i < j \<and> j \<le> n \<longrightarrow>
      hdr_page_lsn (hdr i) \<le> hdr_page_lsn (hdr j) \<and> hdr_page_end_lsn (hdr i) \<le> hdr_page_end_lsn (hdr j))"

lemma seek_loop_finds:
  assumes sorted: "pages_sorted hdr n" and p: "page_range_holds hdr target p"
    and range: "1 \<le> lo" "hi \<le> n" "lo \<le> p" "p \<le> hi"
  shows "page_range_holds hdr target (seek_loop hdr target lo hi res) \<and>
    lo \<le> seek_loop hdr target lo hi res \<and> seek_loop hdr target lo hi res \<le> hi"
  using range
proof (induction "hi + 1 - lo" arbitrary: lo hi res rule: less_induct)
  case less
  define mid where "mid = lo + (hi - lo) div 2"
  have mid: "lo \<le> mid" "mid \<le> hi" "1 \<le> mid" using less.prems by (auto simp: mid_def)
  have unfold: "seek_loop hdr target lo hi res =
     (if hdr_page_lsn (hdr mid) \<le> target then
        (if hdr_page_end_lsn (hdr mid) \<ge> target then mid else seek_loop hdr target (mid + 1) hi mid)
      else seek_loop hdr target lo (mid - 1) res)"
    using less.prems mid by (subst seek_loop.simps) (simp add: Let_def mid_def)
  consider (hit) "page_range_holds hdr target mid"
    | (right) "hdr_page_lsn (hdr mid) \<le> target" "hdr_page_end_lsn (hdr mid) < target"
    | (left) "target < hdr_page_lsn (hdr mid)"
    unfolding page_range_holds_def by linarith
  then show ?case
  proof cases
    case hit
    then show ?thesis using unfold mid by (simp add: page_range_holds_def)
  next
    case right
    have "mid < p"
    proof (rule ccontr)
      assume "\<not> mid < p"
      then have "hdr_page_end_lsn (hdr p) \<le> hdr_page_end_lsn (hdr mid)"
        using sorted less.prems mid unfolding pages_sorted_def by (cases "p = mid") auto
      then show False using right p by (simp add: page_range_holds_def)
    qed
    then have "page_range_holds hdr target (seek_loop hdr target (mid + 1) hi mid) \<and>
        mid + 1 \<le> seek_loop hdr target (mid + 1) hi mid \<and> seek_loop hdr target (mid + 1) hi mid \<le> hi"
      using less.prems mid by (intro less.hyps) auto
    then show ?thesis using unfold right mid by auto
  next
    case left
    have "p < mid"
    proof (rule ccontr)
      assume "\<not> p < mid"
      then have "hdr_page_lsn (hdr mid) \<le> hdr_page_lsn (hdr p)"
        using sorted less.prems mid unfolding pages_sorted_def by (cases "p = mid") auto
      then show False using left p by (simp add: page_range_holds_def)
    qed
    then have "page_range_holds hdr target (seek_loop hdr target lo (mid - 1) res) \<and>
        lo \<le> seek_loop hdr target lo (mid - 1) res \<and> seek_loop hdr target lo (mid - 1) res \<le> mid - 1"
      using less.prems mid by (intro less.hyps) auto
    then show ?thesis using unfold left mid by auto
  qed
qed

text \<open>C28. The search over the page headers terminates on every file, and when the ranges of the pages
  grow with their index it finds a data page whose range holds the wanted id, if there is one.\<close>

theorem seek_to_lsn_finds_page:
  assumes "pages_sorted (read_page_header file) (page_count file)"
    and "1 \<le> p" and "p \<le> page_count file" and "page_range_holds (read_page_header file) target_lsn p"
  shows "page_range_holds (read_page_header file) target_lsn (seek_to_lsn file target_lsn) \<and>
    1 \<le> seek_to_lsn file target_lsn \<and> seek_to_lsn file target_lsn \<le> page_count file"
  using seek_loop_finds [OF assms(1,4), of 1 "page_count file" 1] assms(2,3) by (simp add: seek_to_lsn_def)

definition two_page_file :: "byte list" where
  "two_page_file = replicate 4096 0 @ (le 8 3 @ le 8 5 @ replicate 4080 0) @ (le 8 6 @ le 8 9 @ replicate 4080 0)"

lemma two_page_file_headers:
  "page_count two_page_file = 2"
  "hdr_page_lsn (read_page_header two_page_file 1) = 3" "hdr_page_end_lsn (read_page_header two_page_file 1) = 5"
  "hdr_page_lsn (read_page_header two_page_file 2) = 6" "hdr_page_end_lsn (read_page_header two_page_file 2) = 9"
  by (simp_all add: two_page_file_def page_count_def read_page_header_def header_of_bytes_def page_consts
      rd_def bslice_def)

theorem seek_to_lsn_finds_page_witness:
  "page_range_holds (read_page_header two_page_file) 8 (seek_to_lsn two_page_file 8)"
proof -
  have "pages_sorted (read_page_header two_page_file) 2"
    unfolding pages_sorted_def
  proof (intro allI impI)
    fix i j :: nat assume "1 \<le> i \<and> i < j \<and> j \<le> 2"
    then have "i = 1" "j = 2" by auto
    then show "hdr_page_lsn (read_page_header two_page_file i) \<le> hdr_page_lsn (read_page_header two_page_file j) \<and>
        hdr_page_end_lsn (read_page_header two_page_file i) \<le> hdr_page_end_lsn (read_page_header two_page_file j)"
      by (simp only: two_page_file_headers) simp
  qed
  then show ?thesis
    using seek_to_lsn_finds_page [of two_page_file 2 8] two_page_file_headers
    by (simp add: page_range_holds_def)
qed

end
