(* ===== verification/Wal_Names.thy ===== *)
theory Wal_Names
  imports Otter_Prelude "HOL-Library.Char_ord" "HOL-Library.List_Lexorder"
begin

text \<open>
  The names of the segment files of a log, from \<open>services/wal/wal.cpp\<close>: how a name is printed from
  the segment index and how the index is parsed back at recovery. Segments are replayed in the order
  of their names; the lemmas show when that is the order in which they were written.
\<close>

section \<open>Segment names\<close>

text \<open>Decimal printing of an unsigned integer.\<close>

fun to_decimal :: "nat \<Rightarrow> string" where
  "to_decimal n = (if n < 10 then [char_of (48 + n)] else to_decimal (n div 10) @ [char_of (48 + n mod 10)])"

declare to_decimal.simps [simp del]

definition segment_prefix :: "string \<Rightarrow> string" where
  "segment_prefix db_dir_name = ''wal_'' @ db_dir_name @ ''_''"

definition segment_filename :: "string \<Rightarrow> nat \<Rightarrow> string" where
  "segment_filename db_dir_name index =
     segment_prefix db_dir_name @ replicate (6 - length (to_decimal index)) CHR ''0'' @ to_decimal index"

text \<open>\<open>std::stoul\<close>: leading white space, an optional sign, decimal digits, and anything behind them;
  \<open>None\<close> when it throws.\<close>

definition is_space :: "char \<Rightarrow> bool" where
  "is_space c \<longleftrightarrow> of_char c = (32 :: nat) \<or> 9 \<le> (of_char c :: nat) \<and> (of_char c :: nat) \<le> 13"

definition is_digit :: "char \<Rightarrow> bool" where
  "is_digit c \<longleftrightarrow> 48 \<le> (of_char c :: nat) \<and> (of_char c :: nat) \<le> 57"

definition decimal_value :: "string \<Rightarrow> nat" where
  "decimal_value ds = foldl (\<lambda>n c. 10 * n + (of_char c - 48)) 0 ds"

definition stoul :: "string \<Rightarrow> nat option" where
  "stoul s =
     (let s = dropWhile is_space s;
          neg = (s \<noteq> [] \<and> hd s = CHR ''-'');
          s = (if s \<noteq> [] \<and> (hd s = CHR ''-'' \<or> hd s = CHR ''+'') then tl s else s);
          ds = takeWhile is_digit s;
          v = decimal_value ds
      in if ds = [] \<or> v > UINT64_MAX then None else Some (if neg then wrap64 (18446744073709551616 - v) else v))"

definition has_prefix :: "string \<Rightarrow> string \<Rightarrow> bool" where
  "has_prefix prefix fname \<longleftrightarrow> length prefix \<le> length fname \<and> take (length prefix) fname = prefix"

definition parse_segment_index :: "string \<Rightarrow> string \<Rightarrow> nat" where
  "parse_segment_index fname db_dir_name =
     (let prefix = segment_prefix db_dir_name
      in if length fname \<le> length prefix \<or> \<not> has_prefix prefix fname then UINT32_MAX
         else case stoul (drop (length prefix) fname) of None \<Rightarrow> UINT32_MAX | Some v \<Rightarrow> wrap32 v)"

section \<open>Segment names are ordered and can be parsed\<close>

definition digit_of :: "char \<Rightarrow> nat" where
  "digit_of c = of_char c - 48"

lemma digit_char: "n < 10 \<Longrightarrow> of_char (char_of (48 + n) :: char) = 48 + (n :: nat)"
  by simp

lemma to_decimal_digits: "list_all is_digit (to_decimal n) \<and> to_decimal n \<noteq> []"
proof (induction n rule: to_decimal.induct)
  case (1 n)
  have d: "is_digit (char_of (48 + k))" if "k < 10" for k :: nat
    using that by (simp add: is_digit_def digit_char del: of_char_of)
  show ?case
  proof (cases "n < 10")
    case True
    then show ?thesis using d by (simp add: to_decimal.simps)
  next
    case False
    then show ?thesis using 1 d [of "n mod 10"] by (simp add: to_decimal.simps [of n])
  qed
qed

lemma foldl_digits_shift:
  "foldl (\<lambda>n c. 10 * n + (of_char c - 48)) a ds = a * 10 ^ length ds + decimal_value ds"
proof (induction ds arbitrary: a)
  case Nil
  then show ?case by (simp add: decimal_value_def)
next
  case (Cons c ds)
  show ?case
    using Cons.IH [of "10 * a + (of_char c - 48)"] Cons.IH [of "of_char c - 48"]
    by (simp add: decimal_value_def algebra_simps)
qed

lemma decimal_value_Nil [simp]: "decimal_value [] = 0"
  by (simp add: decimal_value_def)

lemma decimal_value_Cons: "decimal_value (c # ds) = digit_of c * 10 ^ length ds + decimal_value ds"
  using foldl_digits_shift [of "of_char c - 48" ds] by (simp add: decimal_value_def digit_of_def)

lemma decimal_value_snoc: "decimal_value (ds @ [c]) = 10 * decimal_value ds + digit_of c"
  by (simp add: decimal_value_def digit_of_def)

lemma decimal_value_to_decimal: "decimal_value (to_decimal n) = n"
proof (induction n rule: to_decimal.induct)
  case (1 n)
  have d: "digit_of (char_of (48 + k)) = k" if "k < 10" for k :: nat
    using that by (simp add: digit_of_def digit_char del: of_char_of)
  show ?case
  proof (cases "n < 10")
    case True
    then show ?thesis using d by (simp add: to_decimal.simps decimal_value_Cons)
  next
    case False
    then show ?thesis using 1 d [of "n mod 10"] by (subst to_decimal.simps) (simp add: decimal_value_snoc)
  qed
qed

lemma decimal_value_bound: "list_all is_digit ds \<Longrightarrow> decimal_value ds < 10 ^ length ds"
proof (induction ds)
  case Nil
  then show ?case by simp
next
  case (Cons c ds)
  then have "digit_of c \<le> 9" by (auto simp: is_digit_def digit_of_def)
  then have "digit_of c * 10 ^ length ds \<le> 9 * 10 ^ length ds" by (rule mult_right_mono) simp
  moreover have "decimal_value ds < 10 ^ length ds" using Cons by simp
  ultimately have "digit_of c * 10 ^ length ds + decimal_value ds < 10 * 10 ^ length ds" by linarith
  then show ?case by (simp add: decimal_value_Cons)
qed

lemma digits_less_iff:
  "length xs = length ys \<Longrightarrow> list_all is_digit xs \<Longrightarrow> list_all is_digit ys \<Longrightarrow>
   xs < ys \<longleftrightarrow> decimal_value xs < decimal_value ys"
proof (induction xs ys rule: list_induct2)
  case Nil
  then show ?case by simp
next
  case (Cons x xs y ys)
  have b: "decimal_value xs < 10 ^ length ys" "decimal_value ys < 10 ^ length ys"
    using decimal_value_bound [of xs] decimal_value_bound [of ys] Cons.prems Cons.hyps by simp_all
  have IH: "xs < ys \<longleftrightarrow> decimal_value xs < decimal_value ys" using Cons by simp
  have "48 \<le> (of_char x :: nat)" "48 \<le> (of_char y :: nat)" using Cons.prems by (simp_all add: is_digit_def)
  moreover have "x < y \<longleftrightarrow> (of_char x :: nat) < of_char y" by (simp add: less_char_def)
  moreover have "x = y \<longleftrightarrow> (of_char x :: nat) = of_char y" by simp
  ultimately have less: "x < y \<longleftrightarrow> digit_of x < digit_of y" and eq: "x = y \<longleftrightarrow> digit_of x = digit_of y"
    unfolding digit_of_def by linarith+
  have step: "digit_of u * 10 ^ n + v < digit_of w * 10 ^ n + v'"
    if "digit_of u < digit_of w" "v < 10 ^ n" for u w :: char and v v' n :: nat
  proof -
    have "(digit_of u + 1) * 10 ^ n \<le> digit_of w * 10 ^ n" using that(1) by (intro mult_right_mono) simp_all
    then show ?thesis using that(2) by simp
  qed
  consider "digit_of x < digit_of y" | "digit_of x = digit_of y" | "digit_of y < digit_of x" by linarith
  then show ?case
  proof cases
    case 1
    then show ?thesis using step [OF 1 b(1), of "decimal_value ys"] less Cons.hyps by (simp add: decimal_value_Cons)
  next
    case 2
    then show ?thesis using IH less eq Cons.hyps by (simp add: decimal_value_Cons)
  next
    case 3
    then have "\<not> x < y" "x \<noteq> y" using less eq by auto
    then show ?thesis using step [OF 3 b(2), of "decimal_value xs"] Cons.hyps by (simp add: decimal_value_Cons)
  qed
qed

lemma append_less_iff: "(zs @ xs :: string) < zs @ ys \<longleftrightarrow> xs < ys"
  by (induction zs) simp_all

definition padded :: "nat \<Rightarrow> string" where
  "padded i = replicate (6 - length (to_decimal i)) CHR ''0'' @ to_decimal i"

lemma padded_digits: "list_all is_digit (padded i)" "padded i \<noteq> []"
  using to_decimal_digits [of i] by (auto simp: padded_def list_all_iff is_digit_def)

lemma decimal_value_zeros: "decimal_value (replicate k CHR ''0'' @ ds) = decimal_value ds"
  by (induction k) (simp_all add: decimal_value_Cons digit_of_def)

lemma decimal_value_padded: "decimal_value (padded i) = i"
  by (simp add: padded_def decimal_value_zeros decimal_value_to_decimal)

lemma length_to_decimal: "n < 10 ^ k \<Longrightarrow> 0 < k \<Longrightarrow> length (to_decimal n) \<le> k"
proof (induction n arbitrary: k rule: to_decimal.induct)
  case (1 n)
  show ?case
  proof (cases "n < 10")
    case True
    then show ?thesis using 1 by (simp add: to_decimal.simps)
  next
    case False
    then obtain j where k: "k = Suc j" "0 < j" using 1 by (cases k; cases "k = 1") auto
    then have "n div 10 < 10 ^ j" using 1 by (simp add: less_mult_imp_div_less mult.commute)
    then show ?thesis using 1(1) [OF False _ k(2)] False k by (subst to_decimal.simps) simp
  qed
qed

lemma length_padded: "i < 1000000 \<Longrightarrow> length (padded i) = 6"
  using length_to_decimal [of i 6] by (simp add: padded_def)

lemma segment_filename_padded: "segment_filename db i = segment_prefix db @ padded i"
  by (simp add: segment_filename_def padded_def)

lemma segment_filename_less:
  assumes "i < j" "j < 1000000"
  shows "segment_filename db i < segment_filename db j"
proof -
  have "padded i < padded j"
    using assms digits_less_iff [of "padded i" "padded j"]
    by (simp add: padded_digits length_padded decimal_value_padded)
  then show ?thesis by (simp add: segment_filename_padded append_less_iff)
qed

lemma stoul_padded: "i \<le> UINT64_MAX \<Longrightarrow> stoul (padded i) = Some i"
proof -
  assume i: "i \<le> UINT64_MAX"
  have all: "list_all is_digit (padded i)" by (rule padded_digits)
  then have hd: "is_digit (hd (padded i))" using padded_digits(2) by (cases "padded i") auto
  then have ns: "\<not> is_space (hd (padded i))" "hd (padded i) \<noteq> CHR ''-''" "hd (padded i) \<noteq> CHR ''+''"
    by (auto simp: is_digit_def is_space_def)
  have dw: "dropWhile is_space (padded i) = padded i" using ns(1) padded_digits(2) [of i] by (cases "padded i") auto
  have tw: "takeWhile is_digit (padded i) = padded i"
    using all by (simp only: list_all_iff takeWhile_eq_all_conv)
  have "stoul (padded i) =
      (if padded i = [] \<or> decimal_value (padded i) > UINT64_MAX then None else Some (decimal_value (padded i)))"
    unfolding stoul_def Let_def dw tw using ns by (simp add: tw)
  then show ?thesis using padded_digits(2) [of i] i by (simp only: decimal_value_padded) simp
qed

lemma parse_segment_filename:
  assumes "i \<le> UINT32_MAX"
  shows "parse_segment_index (segment_filename db i) db = i"
proof -
  have "0 < length (padded i)" using padded_digits(2) [of i] by simp
  then have "\<not> length (segment_filename db i) \<le> length (segment_prefix db)"
    by (simp add: segment_filename_padded)
  moreover have "has_prefix (segment_prefix db) (segment_filename db i)"
    by (simp add: has_prefix_def segment_filename_padded)
  moreover have "stoul (padded i) = Some i" using assms by (intro stoul_padded) simp
  ultimately show ?thesis
    using assms by (simp add: parse_segment_index_def Let_def segment_filename_padded)
qed

end
