(* ===== verification/Wal_Worker.thy ===== *)
theory Wal_Worker
  imports Wal_Log Wal_Names "HOL-Library.AList"
begin

text \<open>
  The log worker of one database, \<open>services/wal/wal.cpp\<close>, and the reader used at startup,
  \<open>services/wal/wal_reader.cpp\<close>: segment files and their names, rotation, the logging handlers,
  recovery, the filter that keeps the records of committed transactions, and truncation.

  A directory is an association list from file names to contents. The outcome of a write is given by
  \<open>io\<close>, per file name and offset, as for the page writer. Files are sorted by name the way
  \<open>std::sort\<close> sorts paths of one directory. The results of the writer's \<open>append\<close> and \<open>flush\<close> are
  discarded, as in the source.
\<close>

section \<open>The worker\<close>

type_synonym directory = "(string \<times> byte list) list"

datatype wal_sync_mode = SYNC_OFF | SYNC_NORMAL | SYNC_FULL

record wal_worker =
  ww_dir :: directory
  ww_dir_name :: string
  ww_max_segment_size :: nat
  ww_id :: nat
  ww_last_crc :: "32 word"
  ww_segment_index :: nat
  ww_writer :: "(string \<times> page_writer) option"

definition discover_segments :: "string \<Rightarrow> directory \<Rightarrow> string list" where
  "discover_segments db_dir_name dir = sort (filter (has_prefix (segment_prefix db_dir_name)) (map fst dir))"

definition file_of :: "directory \<Rightarrow> string \<Rightarrow> byte list" where
  "file_of dir name = (case map_of dir name of None \<Rightarrow> [] | Some bs \<Rightarrow> bs)"

text \<open>The writer holds the segment file open: what it writes is in the directory.\<close>

definition store_writer :: "string \<Rightarrow> page_writer \<Rightarrow> wal_worker \<Rightarrow> wal_worker" where
  "store_writer name pw w = w\<lparr>ww_dir := AList.update name (pw_file pw) (ww_dir w), ww_writer := Some (name, pw)\<rparr>"

definition name_bytes :: "string \<Rightarrow> byte list" where
  "name_bytes s = map of_char s"

definition open_segment :: "(string \<Rightarrow> io_env) \<Rightarrow> wal_worker \<Rightarrow> wal_worker" where
  "open_segment io w =
     (let name = segment_filename (ww_dir_name w) (ww_segment_index w)
      in store_writer name
           (open_writer (io name) (name_bytes (ww_dir_name w)) (ww_segment_index w) (file_of (ww_dir w) name)) w)"

definition ensure_writer :: "(byte list \<Rightarrow> 32 word) \<Rightarrow> (string \<Rightarrow> io_env) \<Rightarrow> wal_worker \<Rightarrow> wal_worker" where
  "ensure_writer crc io w =
     (case ww_writer w of
        None \<Rightarrow> open_segment io w
      | Some (name, pw) \<Rightarrow>
          if length (file_of (ww_dir w) name) \<ge> ww_max_segment_size w
          then let pw = close_writer crc (io name) (fst (flush crc (io name) pw));
                   w = store_writer name pw w
               in open_segment io (w\<lparr>ww_segment_index := wrap32 (ww_segment_index w + 1), ww_writer := None\<rparr>)
          else w)"

text \<open>Appending the encode buffer to the current segment; the result of \<open>append\<close> is not used.\<close>

definition append_to_segment ::
  "(byte list \<Rightarrow> 32 word) \<Rightarrow> (string \<Rightarrow> io_env) \<Rightarrow> byte list \<Rightarrow> nat \<Rightarrow> wal_worker \<Rightarrow> wal_worker" where
  "append_to_segment crc io bytes wal_id w =
     (let w = ensure_writer crc io w
      in case ww_writer w of
           None \<Rightarrow> w
         | Some (name, pw) \<Rightarrow> store_writer name (fst (append_record crc (io name) bytes wal_id pw)) w)"

definition flush_segment :: "(byte list \<Rightarrow> 32 word) \<Rightarrow> (string \<Rightarrow> io_env) \<Rightarrow> wal_worker \<Rightarrow> wal_worker" where
  "flush_segment crc io w =
     (case ww_writer w of None \<Rightarrow> w
      | Some (name, pw) \<Rightarrow> store_writer name (fst (flush crc (io name) pw)) w)"

definition log_encoded ::
  "(byte list \<Rightarrow> 32 word) \<Rightarrow> (string \<Rightarrow> io_env) \<Rightarrow> (byte list \<times> 32 word) outcome \<Rightarrow> nat \<Rightarrow> wal_worker \<Rightarrow>
   (wal_worker \<times> nat) outcome" where
  "log_encoded crc io encoded wal_id w =
     then_do encoded (\<lambda>(bytes, last_crc).
       Done (append_to_segment crc io bytes wal_id (w\<lparr>ww_last_crc := last_crc\<rparr>), wal_id))"

definition write_physical_insert ::
  "(byte list \<Rightarrow> 32 word) \<Rightarrow> (string \<Rightarrow> io_env) \<Rightarrow> nat \<Rightarrow> data_chunk \<Rightarrow> nat \<Rightarrow> nat \<Rightarrow> nat \<Rightarrow> nat \<Rightarrow> wal_worker \<Rightarrow>
   (wal_worker \<times> nat) outcome" where
  "write_physical_insert crc io table_oid chunk row_start row_count txn_id wal_id w =
     (let w = w\<lparr>ww_id := wal_id\<rparr>
      in log_encoded crc io
           (encode_insert crc [] (ww_last_crc w) wal_id txn_id table_oid chunk row_start row_count) wal_id w)"

definition write_physical_delete ::
  "(byte list \<Rightarrow> 32 word) \<Rightarrow> (string \<Rightarrow> io_env) \<Rightarrow> nat \<Rightarrow> nat list \<Rightarrow> nat \<Rightarrow> nat \<Rightarrow> nat \<Rightarrow> wal_worker \<Rightarrow>
   (wal_worker \<times> nat) outcome" where
  "write_physical_delete crc io table_oid row_ids cnt txn_id wal_id w =
     (let w = w\<lparr>ww_id := wal_id\<rparr>
      in log_encoded crc io (encode_delete crc [] (ww_last_crc w) wal_id txn_id table_oid row_ids cnt) wal_id w)"

definition write_physical_update ::
  "(byte list \<Rightarrow> 32 word) \<Rightarrow> (string \<Rightarrow> io_env) \<Rightarrow> nat \<Rightarrow> nat list \<Rightarrow> data_chunk \<Rightarrow> nat \<Rightarrow> nat \<Rightarrow> nat \<Rightarrow> wal_worker \<Rightarrow>
   (wal_worker \<times> nat) outcome" where
  "write_physical_update crc io table_oid row_ids new_data cnt txn_id wal_id w =
     (let w = w\<lparr>ww_id := wal_id\<rparr>
      in log_encoded crc io
           (encode_update crc [] (ww_last_crc w) wal_id txn_id table_oid row_ids new_data cnt) wal_id w)"

definition write_physical_add_column ::
  "(byte list \<Rightarrow> 32 word) \<Rightarrow> (string \<Rightarrow> io_env) \<Rightarrow> nat \<Rightarrow> data_chunk \<Rightarrow> nat \<Rightarrow> nat \<Rightarrow> nat \<Rightarrow> wal_worker \<Rightarrow>
   (wal_worker \<times> nat) outcome" where
  "write_physical_add_column crc io table_oid schema_chunk column_count txn_id wal_id w =
     (let w = w\<lparr>ww_id := wal_id\<rparr>
      in log_encoded crc io
           (encode_add_column crc [] (ww_last_crc w) wal_id txn_id table_oid schema_chunk column_count) wal_id w)"

text \<open>\<open>commit_txn\<close>: in mode OFF the record is encoded and not written; the other modes flush. The sync
  of mode FULL does not change the contents.\<close>

definition worker_commit_txn ::
  "(byte list \<Rightarrow> 32 word) \<Rightarrow> (string \<Rightarrow> io_env) \<Rightarrow> nat \<Rightarrow> wal_sync_mode \<Rightarrow> nat \<Rightarrow> nat \<Rightarrow> wal_worker \<Rightarrow> wal_worker \<times> nat" where
  "worker_commit_txn crc io transaction_id sync_mode wal_id commit_id w =
     (let w = w\<lparr>ww_id := wal_id\<rparr>;
          (bytes, last_crc) = encode_commit crc [] (ww_last_crc w) wal_id transaction_id commit_id;
          w = w\<lparr>ww_last_crc := last_crc\<rparr>
      in if sync_mode = SYNC_OFF then (w, wal_id)
         else (flush_segment crc io (append_to_segment crc io bytes wal_id w), wal_id))"

section \<open>Reading back\<close>

fun read_segments ::
  "(byte list \<Rightarrow> 32 word) \<Rightarrow> nat \<Rightarrow> directory \<Rightarrow> string list \<Rightarrow> record_t list outcome" where
  "read_segments crc after_id dir [] = Done []"
| "read_segments crc after_id dir (name # names) =
     then_do (read_all_records crc (file_of dir name) after_id) (\<lambda>rs.
     then_do (read_segments crc after_id dir names) (\<lambda>rest. Done (rs @ rest)))"

text \<open>The two passes: the transactions with a COMMIT record, and the records that belong to one of them
  or to no transaction.\<close>

definition committed_txns :: "record_t list \<Rightarrow> nat list" where
  "committed_txns rs = map rec_transaction_id (filter (\<lambda>r. is_commit_marker r \<and> is_valid r) rs)"

definition committed_filter :: "record_t list \<Rightarrow> record_t list" where
  "committed_filter rs =
     filter (\<lambda>r. is_valid r \<and> (rec_transaction_id r = 0 \<or> rec_transaction_id r \<in> set (committed_txns rs))) rs"

definition load :: "(byte list \<Rightarrow> 32 word) \<Rightarrow> (string \<Rightarrow> io_env) \<Rightarrow> nat \<Rightarrow> wal_worker \<Rightarrow> (wal_worker \<times> record_t list) outcome" where
  "load crc io after_wal_id w =
     (let w = flush_segment crc io w
      in then_do (read_segments crc after_wal_id (ww_dir w) (discover_segments (ww_dir_name w) (ww_dir w)))
           (\<lambda>rs. Done (w, sort_key rec_id (committed_filter rs))))"

text \<open>The startup reader: it stops behind the first segment whose checksums do not match, and also
  reports the committed transactions.\<close>

fun read_chain ::
  "(byte list \<Rightarrow> 32 word) \<Rightarrow> nat \<Rightarrow> directory \<Rightarrow> string list \<Rightarrow> record_t list outcome" where
  "read_chain crc after_id dir [] = Done []"
| "read_chain crc after_id dir (name # names) =
     then_do (read_all_records crc (file_of dir name) after_id) (\<lambda>rs.
       if \<not> verify_chain crc (file_of dir name) then Done rs
       else then_do (read_chain crc after_id dir names) (\<lambda>rest. Done (rs @ rest)))"

definition read_database_segments ::
  "(byte list \<Rightarrow> 32 word) \<Rightarrow> nat \<Rightarrow> directory \<Rightarrow> (record_t list \<times> nat list) outcome" where
  "read_database_segments crc after_wal_id dir =
     then_do (read_chain crc after_wal_id dir (sort (filter (has_prefix ''wal_'') (map fst dir))))
       (\<lambda>rs. Done (committed_filter rs, committed_txns rs))"

fun read_databases ::
  "(byte list \<Rightarrow> 32 word) \<Rightarrow> nat \<Rightarrow> (string \<times> directory) list \<Rightarrow> (record_t list \<times> nat list) outcome" where
  "read_databases crc after_wal_id [] = Done ([], [])"
| "read_databases crc after_wal_id ((db_name, dir) # dbs) =
     then_do (read_database_segments crc after_wal_id dir) (\<lambda>(rs, cs).
     then_do (read_databases crc after_wal_id dbs) (\<lambda>(rest, cs'). Done (rs @ rest, cs @ cs')))"

definition read_committed_records ::
  "(byte list \<Rightarrow> 32 word) \<Rightarrow> nat \<Rightarrow> (string \<times> directory) list \<Rightarrow> (record_t list \<times> nat list) outcome" where
  "read_committed_records crc after_wal_id dbs =
     then_do (read_databases crc after_wal_id dbs) (\<lambda>(merged, committed). Done (sort_key rec_id merged, committed))"

section \<open>Truncation and recovery\<close>

definition removable_segment :: "nat \<Rightarrow> byte list \<Rightarrow> bool" where
  "removable_segment checkpoint_wal_id file \<longleftrightarrow>
     page_count file = 0 \<or> hdr_page_end_lsn (read_page_header file (page_count file)) \<le> checkpoint_wal_id"

definition worker_truncate_before :: "nat \<Rightarrow> wal_worker \<Rightarrow> wal_worker" where
  "worker_truncate_before checkpoint_wal_id w =
     fold (\<lambda>name w.
         if map_option fst (ww_writer w) = Some name then w
         else if removable_segment checkpoint_wal_id (file_of (ww_dir w) name)
         then w\<lparr>ww_dir := AList.delete name (ww_dir w)\<rparr> else w)
       (discover_segments (ww_dir_name w) (ww_dir w)) w"

definition max_record :: "record_t list \<Rightarrow> nat \<times> 32 word \<Rightarrow> nat \<times> 32 word" where
  "max_record rs acc =
     foldl (\<lambda>(max_id, crc32) r. if is_valid r \<and> rec_id r > max_id then (rec_id r, rec_crc32 r) else (max_id, crc32)) acc rs"

text \<open>The state of the scan: the highest id, its checksum and the highest segment index seen.\<close>

fun recover_scan ::
  "(byte list \<Rightarrow> 32 word) \<Rightarrow> string \<Rightarrow> directory \<Rightarrow> string list \<Rightarrow> (nat \<times> 32 word) \<times> nat \<Rightarrow>
   ((nat \<times> 32 word) \<times> nat) outcome" where
  "recover_scan crc db dir [] acc = Done acc"
| "recover_scan crc db dir (name # names) (m, max_seg_index) =
     (let seg_idx = parse_segment_index name db;
          max_seg_index = (if seg_idx \<noteq> UINT32_MAX \<and> seg_idx > max_seg_index then seg_idx else max_seg_index)
      in then_do (read_all_records crc (file_of dir name) 0) (\<lambda>rs.
           if \<not> verify_chain crc (file_of dir name) then Done (max_record rs m, max_seg_index)
           else recover_scan crc db dir names (max_record rs m, max_seg_index)))"

definition recover_from_disk :: "(byte list \<Rightarrow> 32 word) \<Rightarrow> wal_worker \<Rightarrow> wal_worker outcome" where
  "recover_from_disk crc w =
     (let segments = discover_segments (ww_dir_name w) (ww_dir w)
      in if segments = [] then Done w
         else then_do (recover_scan crc (ww_dir_name w) (ww_dir w) segments ((0, 0), 0)) (\<lambda>((max_id, crc32), idx).
                Done (w\<lparr>ww_id := max_id, ww_last_crc := crc32, ww_segment_index := idx\<rparr>)))"

definition create_worker ::
  "(byte list \<Rightarrow> 32 word) \<Rightarrow> (string \<Rightarrow> io_env) \<Rightarrow> nat \<Rightarrow> nat \<Rightarrow> directory \<Rightarrow> wal_worker outcome" where
  "create_worker crc io max_segment_size database_oid dir =
     then_do (recover_from_disk crc
        \<lparr>ww_dir = dir, ww_dir_name = to_decimal database_oid, ww_max_segment_size = max_segment_size, ww_id = 0,
         ww_last_crc = 0, ww_segment_index = 0, ww_writer = None\<rparr>)
       (\<lambda>w. Done (ensure_writer crc io w))"

definition destroy_worker :: "(byte list \<Rightarrow> 32 word) \<Rightarrow> (string \<Rightarrow> io_env) \<Rightarrow> wal_worker \<Rightarrow> directory" where
  "destroy_worker crc io w =
     (case ww_writer w of None \<Rightarrow> ww_dir w
      | Some (name, pw) \<Rightarrow> AList.update name (pw_file (close_writer crc (io name) pw)) (ww_dir w))"

end
