(* ===== verification/Wal_Segments.thy ===== *)
theory Wal_Segments
  imports Wal_Worker
begin

text \<open>
  The segment files of a log as the worker keeps them: what can be read from each file, the id in the
  last page header, and the invariant of the worker that the properties of recovery and truncation
  rest on. The worker is preserved under logging, flushing, rotation, truncation and reopening.
\<close>

section \<open>The files of a log\<close>

definition segment_files :: "string \<Rightarrow> (nat \<times> byte list) list \<Rightarrow> directory" where
  "segment_files db segs = map (\<lambda>(i, f). (segment_filename db i, f)) segs"

definition indices_ok :: "nat list \<Rightarrow> bool" where
  "indices_ok idxs \<longleftrightarrow> sorted_wrt (<) idxs \<and> list_all (\<lambda>i. i < 1000000) idxs"

lemma indices_ok_append:
  "indices_ok (is @ js) \<longleftrightarrow> indices_ok is \<and> indices_ok js \<and> (\<forall>i \<in> set is. \<forall>j \<in> set js. i < j)"
  by (auto simp: indices_ok_def sorted_wrt_append)

lemma indices_ok_bound: "sorted_wrt (<) (is @ [i]) \<Longrightarrow> i < 1000000 \<Longrightarrow> indices_ok (is @ [i])"
  by (auto simp: indices_ok_def sorted_wrt_append list_all_iff)

lemma segment_filename_inj:
  "i < 1000000 \<Longrightarrow> j < 1000000 \<Longrightarrow> segment_filename db i = segment_filename db j \<longleftrightarrow> i = j"
  by (cases i j rule: linorder_cases) (auto dest: segment_filename_less [of _ _ db])

lemma segment_files_append [simp]:
  "segment_files db (segs @ segs') = segment_files db segs @ segment_files db segs'"
  "segment_files db [] = []" "segment_files db ((i, f) # segs) = (segment_filename db i, f) # segment_files db segs"
  by (simp_all add: segment_files_def)

lemma names_segment_files: "map fst (segment_files db segs) = map (segment_filename db) (map fst segs)"
  by (induction segs) (auto simp: segment_files_def)

lemma inj_on_names: "indices_ok idxs \<Longrightarrow> inj_on (segment_filename db) (set idxs)"
  by (auto simp: inj_on_def indices_ok_def list_all_iff segment_filename_inj)

lemma distinct_names: "indices_ok (map fst segs) \<Longrightarrow> distinct (map fst (segment_files db segs))"
  by (simp only: names_segment_files distinct_map inj_on_names) (auto simp: indices_ok_def strict_sorted_iff distinct_map)

lemma file_of_segment_files:
  assumes "indices_ok (map fst segs)" "(i, f) \<in> set segs"
  shows "file_of (segment_files db segs) (segment_filename db i) = f"
proof -
  have "(segment_filename db i, f) \<in> set (segment_files db segs)" using assms(2) by (force simp: segment_files_def)
  then show ?thesis using distinct_names [OF assms(1)] by (simp add: file_of_def)
qed

lemma update_append_new: "k \<notin> fst ` set xs \<Longrightarrow> AList.update k v (xs @ ys) = xs @ AList.update k v ys"
  by (induction xs) auto

lemma new_segment_name:
  assumes "indices_ok (map fst segs @ [i])"
  shows "segment_filename db i \<notin> fst ` set (segment_files db segs)"
proof -
  have "distinct (map fst (segment_files db (segs @ [(i, f)])))" for f using assms by (intro distinct_names) simp
  then show ?thesis by simp
qed

lemma update_segment_files:
  assumes "indices_ok (map fst segs @ [i])"
  shows "AList.update (segment_filename db i) f (segment_files db segs @ [(segment_filename db i, g)]) = segment_files db (segs @ [(i, f)])"
    "AList.update (segment_filename db i) f (segment_files db segs) = segment_files db (segs @ [(i, f)])"
  using update_append_new [OF new_segment_name [OF assms], of db f] update_append_new [OF new_segment_name [OF assms], of db f "[]"]
  by simp_all

lemma sorted_segment_names: "indices_ok idxs \<Longrightarrow> sorted (map (segment_filename db) idxs)"
  by (induction idxs) (auto simp: indices_ok_def list_all_iff intro!: less_imp_le segment_filename_less)

lemma has_prefix_segment [simp]:
  "has_prefix (segment_prefix db) (segment_filename db i)" "has_prefix ''wal_'' (segment_filename db i)"
  by (simp_all add: has_prefix_def segment_filename_padded segment_prefix_def)

lemma discover_segment_files:
  assumes "indices_ok (map fst segs)"
  shows "discover_segments db (segment_files db segs) = map (segment_filename db) (map fst segs)"
    "sort (filter (has_prefix ''wal_'') (map fst (segment_files db segs))) = map (segment_filename db) (map fst segs)"
  using sorted_segment_names [OF assms, of db]
  by (simp_all add: discover_segments_def names_segment_files filter_map comp_def sorted_sort_id del: map_map)

section \<open>What is on disk\<close>

definition file_reads :: "(byte list \<Rightarrow> 32 word) \<Rightarrow> nat \<Rightarrow> byte list \<Rightarrow> record_t list \<Rightarrow> bool" where
  "file_reads crc a file rs \<longleftrightarrow> read_all_records crc file a = Done rs \<and> verify_chain crc file"

lemma verify_chain_segment:
  assumes "segment_holds crc contents file"
  shows "verify_chain crc file" "length file = (length contents + 1) * PAGE_SIZE"
proof -
  obtain hp pages where f: "file = hp @ concat pages" "length hp = PAGE_SIZE"
    and l: "list_all2 (\<lambda>(flags, data) page. page_holds crc flags data page) contents pages"
    using assms by (auto simp: segment_holds_def)
  show len: "length file = (length contents + 1) * PAGE_SIZE" using f length_concat_pages [OF l] by simp
  then have n: "page_count file = length contents" using page_count_segment [OF len, of "[]"]
    by (simp add: PAGE_SIZE_def)
  have "verify_page_checksum crc file (i + 1)" if i: "i < length contents" for i
  proof -
    have lp: "length pages = length contents" using l by (simp add: list_all2_lengthD)
    obtain flags data where "contents ! i = (flags, data)" by fastforce
    then have h: "page_holds crc flags data (pages ! i)" using list_all2_nthD [OF l i] by simp
    have "list_all2 (\<lambda>(flags, data) page. page_holds crc flags data page) (take i contents) (take i pages)"
      using l by (rule list_all2_takeI)
    then have a: "length (hp @ concat (take i pages)) = (i + 1) * PAGE_SIZE"
      using length_concat_pages f(2) i by fastforce
    have b: "file = (hp @ concat (take i pages)) @ pages ! i @ concat (drop (Suc i) pages)"
      using f(1) i lp by (metis append.assoc concat.simps(2) concat_append id_take_nth_drop)
    have "read_page file (i + 1) = Some (pages ! i)"
      unfolding b by (rule read_page_segment [OF a]) (use h in \<open>simp add: page_holds_def\<close>)
    then show ?thesis using h by (simp add: verify_page_checksum_def page_holds_def)
  qed
  then show "verify_chain crc file"
    unfolding verify_chain_def n by (simp add: list_all_iff)
qed

lemma log_inv_on_disk:
  assumes "frames.log_inv crc a R D pages used spans w"
  shows "\<exists>P. file_reads crc a (pw_file w) P \<and> prefix D P \<and> prefix P (concat (map (keep_record a) R))"
    "length (pw_file w) = (pages + 1) * PAGE_SIZE"
proof -
  obtain contents s flags data where c: "steps crc a contents empty_reader = Done s" "prefix D (rs_records s)"
    "writer_holds crc contents flags data w" "prefix (rs_records s) (concat (map (keep_record a) R))"
    "length contents = pages"
    using assms unfolding frames.log_inv_def by (cases spans) auto
  then have h: "segment_holds crc contents (pw_file w)" by (simp add: writer_holds_def)
  have "read_all_records crc (pw_file w @ []) a = Done (rs_records s)"
    by (rule read_all_segment [OF h _ c(1)]) (simp add: PAGE_SIZE_def)
  then have "file_reads crc a (pw_file w) (rs_records s)"
    using verify_chain_segment(1) [OF h] by (simp add: file_reads_def)
  then show "\<exists>P. file_reads crc a (pw_file w) P \<and> prefix D P \<and> prefix P (concat (map (keep_record a) R))"
    using c(2,4) by blast
  show "length (pw_file w) = (pages + 1) * PAGE_SIZE" using verify_chain_segment(2) [OF h] c(5) by simp
qed

section \<open>The last id of a segment\<close>

text \<open>The header of the last page of a segment carries the id of the last record written to it.\<close>

definition end_lsn :: "byte list \<Rightarrow> nat" where
  "end_lsn file = hdr_page_end_lsn (read_page_header file (page_count file))"

definition writer_sized :: "page_writer \<Rightarrow> bool" where
  "writer_sized w \<longleftrightarrow> pw_file_size w = length (pw_file w) \<and> (\<exists>n. length (pw_file w) = (n + 1) * PAGE_SIZE) \<and>
     length (pw_page w) = PAGE_SIZE \<and> PAGE_HEADER_SIZE \<le> pw_offset w \<and> pw_offset w \<le> PAGE_SIZE \<and>
     pw_page_lsn w \<le> UINT64_MAX \<and> pw_page_end_lsn w \<le> UINT64_MAX \<and> pw_num_records w \<le> UINT32_MAX \<and> pw_flags w \<le> 3"

lemma writer_holds_sized:
  assumes "writer_holds crc contents flags data w"
  shows "writer_sized w"
proof -
  obtain hp pages where f: "pw_file w = hp @ concat pages" "length hp = PAGE_SIZE"
    and l: "list_all2 (\<lambda>(flags, data) page. page_holds crc flags data page) contents pages"
    using assms by (auto simp: writer_holds_def segment_holds_def)
  have "length (pw_file w) = (length contents + 1) * PAGE_SIZE" using f length_concat_pages [OF l] by simp
  then show ?thesis using assms by (auto simp: writer_sized_def writer_holds_def page_buffer_def page_consts)
qed

lemma length_bsplice_within: "off + length new \<le> length bs \<Longrightarrow> length (bsplice off new bs) = length bs"
  by (simp add: bsplice_def)

lemma compute_checksum_page:
  assumes "length page = PAGE_SIZE"
  shows "\<exists>c \<le> UINT32_MAX. compute_checksum crc h (bsplice 0 (header_bytes h) page) =
    header_bytes (h\<lparr>hdr_checksum := c\<rparr>) @ drop 32 page"
proof -
  have 1: "bsplice 0 (header_bytes h) page = header_bytes h @ drop 32 page" by (simp add: bsplice_def)
  define z where "z = header_bytes (h\<lparr>hdr_checksum := 0\<rparr>) @ drop 32 page"
  have "bsplice 0 (header_bytes (h\<lparr>hdr_checksum := 0\<rparr>)) (header_bytes h @ drop 32 page) = z"
    by (simp add: bsplice_front z_def)
  then have "compute_checksum crc h (bsplice 0 (header_bytes h) page) =
      header_bytes (h\<lparr>hdr_checksum := unat (crc z)\<rparr>) @ drop 32 page"
    by (simp add: compute_checksum_def Let_def 1) (simp add: z_def bsplice_checksum)
  then show ?thesis using unat_32_less [of "crc z"] by (intro exI [of _ "unat (crc z)"]) simp
qed

lemma wrap32_bound [simp]: "wrap32 x \<le> UINT32_MAX"
  using mod_less_divisor [of 4294967296 x] by (simp add: wrap32_def)

lemma flags_bound:
  fixes f :: nat
  assumes "f \<le> 3"
  shows "f OR PAGE_PARTIAL_CONT \<le> 3" "f OR PAGE_PARTIAL_END \<le> 3"
proof -
  consider "f = 0" | "f = 1" | "f = 2" | "f = 3" using assms by linarith
  then show "f OR PAGE_PARTIAL_CONT \<le> 3" "f OR PAGE_PARTIAL_END \<le> 3"
    by (cases; simp add: PAGE_PARTIAL_CONT_def PAGE_PARTIAL_END_def del: One_nat_def)+
qed

lemma flush_page_end:
  assumes s: "writer_sized w" and d: "pw_has_data w" and f: "flush_page crc (\<lambda>_. None) w = (w', ok)"
  shows "writer_sized w'" "page_count (pw_file w') \<noteq> 0" "end_lsn (pw_file w') = pw_page_end_lsn w" "\<not> pw_has_data w'"
proof -
  obtain n where n: "length (pw_file w) = (n + 1) * PAGE_SIZE" using s by (auto simp: writer_sized_def)
  define hdr where "hdr = \<lparr>hdr_page_lsn = pw_page_lsn w, hdr_page_end_lsn = pw_page_end_lsn w,
    hdr_num_records = pw_num_records w, hdr_data_size = wrap32 (pw_offset w - PAGE_HEADER_SIZE), hdr_checksum = 0,
    hdr_flags = pw_flags w\<rparr>"
  define page where "page = (if pw_offset w < PAGE_SIZE
    then bsplice (pw_offset w) (replicate (PAGE_SIZE - pw_offset w) 0) (pw_page w) else pw_page w)"
  have lp: "length page = PAGE_SIZE"
    using s by (auto simp: page_def writer_sized_def length_bsplice_within)
  obtain c where c: "c \<le> UINT32_MAX" "compute_checksum crc hdr (bsplice 0 (header_bytes hdr) page) =
      header_bytes (hdr\<lparr>hdr_checksum := c\<rparr>) @ drop 32 page"
    using compute_checksum_page [OF lp] by blast
  let ?page = "header_bytes (hdr\<lparr>hdr_checksum := c\<rparr>) @ drop 32 page"
  have w': "w' = start_new_page (w\<lparr>pw_file := pw_file w @ ?page, pw_page := ?page, pw_file_size := pw_file_size w + PAGE_SIZE\<rparr>)"
    using f d s unfolding flush_page_def file_write_def Let_def hdr_def [symmetric] page_def [symmetric] c(2)
    by (simp add: writer_sized_def bsplice_def)
  have lpage: "length ?page = PAGE_SIZE" using lp by (simp add: PAGE_SIZE_def)
  then have len: "length (pw_file w') = (n + 1 + 1) * PAGE_SIZE" using n by (simp add: w' start_new_page_def)
  have "\<exists>m. length (pw_file w') = (m + 1) * PAGE_SIZE" using len by blast
  then show "writer_sized w'"
    using s lpage by (auto simp: w' writer_sized_def start_new_page_def page_consts)
  show "\<not> pw_has_data w'" by (simp add: w' start_new_page_def)
  have pc: "page_count (pw_file w') = n + 1" using page_count_segment [OF len, of "[]"] by (simp add: PAGE_SIZE_def)
  then show "page_count (pw_file w') \<noteq> 0" by simp
  have "bslice ((n + 1) * PAGE_SIZE) 32 (pw_file w @ ?page) = header_bytes (hdr\<lparr>hdr_checksum := c\<rparr>)"
    using n by (simp add: bslice_def)
  moreover have "header_of_bytes (header_bytes (hdr\<lparr>hdr_checksum := c\<rparr>) @ []) = hdr\<lparr>hdr_checksum := c\<rparr>"
    using s c(1) by (intro header_roundtrip) (auto simp: hdr_def writer_sized_def)
  ultimately have "read_page_header (pw_file w') (n + 1) = hdr\<lparr>hdr_checksum := c\<rparr>"
    using len lpage by (simp add: read_page_header_def w' start_new_page_def PAGE_HEADER_SIZE_def PAGE_SIZE_def)
  then show "end_lsn (pw_file w') = pw_page_end_lsn w" by (simp add: end_lsn_def pc hdr_def)
qed

lemma append_loop_end:
  assumes "writer_sized w" "pw_page_end_lsn w = wal_id" "wal_id \<le> UINT64_MAX" "src \<noteq> []"
    "append_loop crc (\<lambda>_. None) wal_id first src w = (w', ok)"
  shows "writer_sized w' \<and> pw_page_end_lsn w' = wal_id \<and> (ok \<longrightarrow> pw_has_data w')"
  using assms
proof (induction crc "\<lambda>_ :: nat. None :: nat option" wal_id first src w rule: append_loop.induct)
  case (1 crc wal_id first src w)
  show ?case
  proof (cases "length src \<le> page_space w")
    case True
    then have "w' = append_fits first src w" "ok" using 1 by (simp_all add: append_loop.simps [of _ _ _ _ src])
    then show ?thesis
      using 1(2,3) True flags_bound [of "pw_flags w"]
      by (auto simp: append_fits_def writer_sized_def page_space_def length_bsplice_within page_consts)
  next
    case False
    let ?w = "append_fill src w"
    have f: "writer_sized ?w" "pw_has_data ?w" "pw_page_end_lsn ?w = wal_id"
      using 1(2,3) False flags_bound [of "pw_flags w"]
      by (auto simp: append_fill_def writer_sized_def page_space_def length_bsplice_within page_consts)
    obtain w1 ok1 where w1: "flush_page crc (\<lambda>_. None) ?w = (w1, ok1)" by fastforce
    have s1: "writer_sized w1" by (rule flush_page_end(1) [OF f(1,2) w1])
    then have c: "writer_sized (continue_page wal_id w1)" "pw_page_end_lsn (continue_page wal_id w1) = wal_id"
      using 1(4) by (auto simp: continue_page_def start_new_page_def writer_sized_def page_consts Let_def)
    have ok1: "ok1" using w1 by (auto simp: flush_page_def file_write_def Let_def split: if_splits)
    have "drop (page_space w) src \<noteq> []" using False by simp
    moreover have "append_loop crc (\<lambda>_. None) wal_id False (drop (page_space w) src) (continue_page wal_id w1) = (w', ok)"
      using 1(5,6) False w1 ok1 by (simp add: append_loop.simps [of _ _ _ _ src])
    ultimately show ?thesis using 1(1) [OF 1(5) False w1 [symmetric]] ok1 c 1(4) by simp
  qed
qed

lemma append_record_end:
  assumes "writer_sized w" "wal_id \<le> UINT64_MAX" "f \<noteq> []" "append_record crc (\<lambda>_. None) f wal_id w = (w', True)"
  shows "writer_sized w' \<and> pw_page_end_lsn w' = wal_id \<and> pw_has_data w'"
proof -
  let ?w = "(if pw_page_lsn w = 0 then w\<lparr>pw_page_lsn := wal_id\<rparr> else w)\<lparr>pw_page_end_lsn := wal_id\<rparr>"
  have "writer_sized ?w" "pw_page_end_lsn ?w = wal_id" using assms(1,2) by (auto simp: writer_sized_def)
  moreover have "append_loop crc (\<lambda>_. None) wal_id True f ?w = (w', True)"
    using assms(3,4) by (simp add: append_record_def Let_def)
  ultimately show ?thesis using append_loop_end assms(2,3) by blast
qed

text \<open>The records \<open>rs\<close> of the segment that the writer holds end with the id in its last page.\<close>

definition writer_ends :: "record_t list \<Rightarrow> page_writer \<Rightarrow> bool" where
  "writer_ends rs w \<longleftrightarrow> writer_sized w \<and>
     (rs \<noteq> [] \<longrightarrow> (if pw_has_data w then pw_page_end_lsn w = rec_id (last rs)
        else page_count (pw_file w) \<noteq> 0 \<and> end_lsn (pw_file w) = rec_id (last rs)))"

lemma writer_ends_append:
  assumes "writer_ends rs w" "rec_id r \<le> UINT64_MAX" "f \<noteq> []" "append_record crc (\<lambda>_. None) f (rec_id r) w = (w', True)"
  shows "writer_ends (rs @ [r]) w'"
  using append_record_end [OF _ assms(2-)] assms(1) by (simp add: writer_ends_def)

lemma writer_ends_flush:
  assumes "writer_ends rs w" "flush crc (\<lambda>_. None) w = (w', ok)" 
  shows "writer_ends rs w'" "\<not> pw_has_data w'"
proof -
  have "writer_ends rs w' \<and> \<not> pw_has_data w'"
  proof (cases "pw_has_data w")
    case True
    then have f: "flush_page crc (\<lambda>_. None) w = (w', ok)" using assms(2) by (simp add: flush_def)
    have s: "writer_sized w" using assms(1) by (simp add: writer_ends_def)
    show ?thesis using flush_page_end [OF s True f] assms(1) True by (auto simp: writer_ends_def)
  next
    case False
    then show ?thesis using assms by (auto simp: flush_def)
  qed
  then show "writer_ends rs w'" "\<not> pw_has_data w'" by simp_all
qed

section \<open>The invariant of the worker\<close>

definition no_failures :: "string \<Rightarrow> io_env" where
  "no_failures = (\<lambda>_ _. None)"

lemma no_failures_apply: "no_failures name = (\<lambda>_. None)"
  by (simp add: no_failures_def)

text \<open>A layout is the index of the current segment, the number of its data pages on disk, the bytes in the
  page being filled, and whether that page ends a spanning record. A segment of the maximal size is closed before
  the next record; the record must leave a layout the reader can follow.\<close>

type_synonym wal_layout = "nat \<times> nat \<times> nat \<times> bool"

definition layout_rotate :: "nat \<Rightarrow> wal_layout \<Rightarrow> wal_layout" where
  "layout_rotate max_size l =
     (case l of (segs, pages, used, spans) \<Rightarrow>
        if max_size \<le> (pages + 1) * PAGE_SIZE then (segs + 1, 0, 0, False) else l)"

definition layout_append :: "nat \<Rightarrow> wal_layout \<Rightarrow> wal_layout option" where
  "layout_append n l =
     (case l of (segs, pages, used, spans) \<Rightarrow>
        if n \<le> PAGE_DATA_SIZE - used then Some (segs, pages, used + n, spans)
        else if \<not> spans \<and> used + 4 \<le> PAGE_DATA_SIZE
        then Some (segs, pages + span_pages used n, last_page_use used n, True) else None)"

definition layout_flush :: "wal_layout \<Rightarrow> wal_layout" where
  "layout_flush l =
     (case l of (segs, pages, used, spans) \<Rightarrow> (segs, if used = 0 then pages else Suc pages, 0, False))"

text \<open>The closed segments with their indices and records, and the current one. \<open>R\<close> are all records logged
  so far and \<open>D\<close> those that a flush has made durable. Truncation up to \<open>b\<close> has removed only segments
  without records above \<open>b\<close>: a reader that starts at \<open>b\<close> or later misses nothing.\<close>

definition kept :: "nat \<Rightarrow> record_t list \<Rightarrow> record_t list" where
  "kept a rs = concat (map (keep_record a) rs)"

lemma kept_append [simp]: "kept a (rs @ rs') = kept a rs @ kept a rs'"
  by (simp add: kept_def)

lemma kept_Nil [simp]: "kept a [] = []"
  by (simp add: kept_def)

lemma kept_concat: "kept a (concat rss) = concat (map (kept a) rss)"
  by (induction rss) simp_all

type_synonym closed_segs = "(nat \<times> byte list \<times> record_t list) list"

definition closed_segment :: "(byte list \<Rightarrow> 32 word) \<Rightarrow> nat \<Rightarrow> nat \<times> byte list \<times> record_t list \<Rightarrow> bool" where
  "closed_segment crc a = (\<lambda>(i, f, rs). file_reads crc a f (kept a rs) \<and>
     (rs \<noteq> [] \<longrightarrow> page_count f \<noteq> 0 \<and> end_lsn f = rec_id (last rs)))"

definition seg_recs :: "closed_segs \<Rightarrow> record_t list" where
  "seg_recs closed = concat (map (\<lambda>(i, f, rs). rs) closed)"

definition seg_files :: "closed_segs \<Rightarrow> (nat \<times> byte list) list" where
  "seg_files closed = map (\<lambda>(i, f, rs). (i, f)) closed"

lemma seg_simps [simp]:
  "seg_recs [] = []" "seg_recs (closed @ closed') = seg_recs closed @ seg_recs closed'" "seg_recs ((i, f, rs) # closed) = rs @ seg_recs closed"
  "seg_files [] = []" "seg_files (closed @ closed') = seg_files closed @ seg_files closed'"
  "seg_files ((i, f, rs) # closed) = (i, f) # seg_files closed" "map fst (seg_files closed) = map fst closed"
  by (auto simp: seg_recs_def seg_files_def)

definition worker_at ::
  "(byte list \<Rightarrow> 32 word) \<Rightarrow> nat \<Rightarrow> closed_segs \<Rightarrow> nat \<Rightarrow> page_writer \<Rightarrow> wal_worker \<Rightarrow> bool" where
  "worker_at crc a closed idx pw w \<longleftrightarrow> ww_segment_index w = idx \<and> sorted_wrt (<) (map fst closed @ [idx]) \<and>
     ww_writer w = Some (segment_filename (ww_dir_name w) idx, pw) \<and>
     ww_dir w = segment_files (ww_dir_name w) (seg_files closed @ [(idx, pw_file pw)]) \<and>
     list_all (closed_segment crc a) closed"

definition worker_inv ::
  "(byte list \<Rightarrow> 32 word) \<Rightarrow> nat \<Rightarrow> nat \<Rightarrow> record_t list \<Rightarrow> record_t list \<Rightarrow> wal_layout \<Rightarrow> wal_worker \<Rightarrow> bool" where
  "worker_inv crc b a R D l w \<longleftrightarrow> (\<exists>closed pw Rc Dc.
     worker_at crc a closed (fst l) pw w \<and> subseq (seg_recs closed @ Rc) R \<and>
     (b \<le> a \<longrightarrow> kept a R = kept a (seg_recs closed @ Rc) \<and> prefix (kept a D) (kept a (seg_recs closed) @ Dc)) \<and>
     frames.log_inv crc a Rc Dc (fst (snd l)) (fst (snd (snd l))) (snd (snd (snd l))) pw \<and> writer_ends Rc pw)"

lemma worker_invI:
  assumes "worker_at crc a closed idx pw w" "subseq (seg_recs closed @ Rc) R"
    "b \<le> a \<longrightarrow> kept a R = kept a (seg_recs closed @ Rc) \<and> prefix (kept a D) (kept a (seg_recs closed) @ Dc)"
    "frames.log_inv crc a Rc Dc pages used spans pw" "writer_ends Rc pw"
  shows "worker_inv crc b a R D (idx, pages, used, spans) w"
  unfolding worker_inv_def using assms by auto

lemma worker_invE:
  assumes "worker_inv crc b a R D (idx, pages, used, spans) w"
  obtains closed pw Rc Dc where "worker_at crc a closed idx pw w" "subseq (seg_recs closed @ Rc) R"
    "b \<le> a \<longrightarrow> kept a R = kept a (seg_recs closed @ Rc) \<and> prefix (kept a D) (kept a (seg_recs closed) @ Dc)"
    "frames.log_inv crc a Rc Dc pages used spans pw" "writer_ends Rc pw"
  using assms unfolding worker_inv_def by auto

lemma worker_inv_cong:
  assumes "worker_inv crc b a R D l w" "ww_dir w' = ww_dir w" "ww_dir_name w' = ww_dir_name w"
    "ww_segment_index w' = ww_segment_index w" "ww_writer w' = ww_writer w"
  shows "worker_inv crc b a R D l w'"
  using assms unfolding worker_inv_def worker_at_def by simp

lemma worker_at_indices:
  assumes "worker_at crc a closed idx pw w" "idx < 1000000"
  shows "indices_ok (map fst (seg_files closed) @ [idx])" "indices_ok (map fst (seg_files closed @ [(idx, pw_file pw)]))"
  using assms indices_ok_bound by (simp_all add: worker_at_def)

lemma worker_at_file:
  assumes "worker_at crc a closed idx pw w" "idx < 1000000"
  shows "file_of (ww_dir w) (segment_filename (ww_dir_name w) idx) = pw_file pw"
  using file_of_segment_files [OF worker_at_indices(2) [OF assms]] assms(1) by (simp add: worker_at_def)

lemma worker_at_store:
  assumes "worker_at crc a closed idx pw w" "idx < 1000000"
  shows "worker_at crc a closed idx pw' (store_writer (segment_filename (ww_dir_name w) idx) pw' w)"
  using update_segment_files(1) [OF worker_at_indices(1) [OF assms], of "ww_dir_name w" "pw_file pw'" "pw_file pw"] assms
  by (simp add: worker_at_def store_writer_def)

lemma log_inv_flushed:
  assumes "frames.log_inv crc a R D pages used spans pw"
  shows "\<exists>pw'. flush crc (\<lambda>_. None) pw = (pw', True) \<and> file_reads crc a (pw_file pw') (kept a R) \<and>
    close_writer crc (\<lambda>_. None) pw' = pw' \<and>
    frames.log_inv crc a R (kept a R) (if used = 0 then pages else Suc pages) 0 False pw'"
proof -
  obtain pw' contents where p: "flush crc (\<lambda>_. None) pw = (pw', True)" "writer_holds crc contents 0 [] pw'"
    "frames.log_inv crc a R (kept a R) (if used = 0 then pages else Suc pages) 0 False pw'"
    using frames.log_inv_flush [OF assms refl] unfolding kept_def by blast
  obtain P where "file_reads crc a (pw_file pw') P" "prefix (kept a R) P" "prefix P (kept a R)"
    using log_inv_on_disk(1) [OF p(3)] unfolding kept_def by blast
  moreover have "close_writer crc (\<lambda>_. None) pw' = pw'" using p(2) by (simp add: close_writer_def writer_holds_def)
  ultimately show ?thesis using p(1,3) prefix_order.antisym by blast
qed

lemma flush_segment_inv:
  assumes "worker_inv crc b a R D l w" "fst l < 1000000"
  shows "worker_inv crc b a R R (layout_flush l) (flush_segment crc no_failures w)"
proof -
  obtain idx pages used spans where l: "l = (idx, pages, used, spans)" by (cases l)
  obtain closed pw Rc Dc where c: "worker_at crc a closed idx pw w" "subseq (seg_recs closed @ Rc) R"
    "b \<le> a \<longrightarrow> kept a R = kept a (seg_recs closed @ Rc) \<and> prefix (kept a D) (kept a (seg_recs closed) @ Dc)"
    "frames.log_inv crc a Rc Dc pages used spans pw" "writer_ends Rc pw"
    by (rule worker_invE [OF assms(1) [unfolded l]])
  obtain pw' where p: "flush crc (\<lambda>_. None) pw = (pw', True)"
    "frames.log_inv crc a Rc (kept a Rc) (if used = 0 then pages else Suc pages) 0 False pw'"
    using log_inv_flushed [OF c(4)] by blast
  have e: "writer_ends Rc pw'" by (rule writer_ends_flush(1) [OF c(5) p(1)])
  have at: "worker_at crc a closed idx pw' (store_writer (segment_filename (ww_dir_name w) idx) pw' w)"
    using worker_at_store [OF c(1)] assms(2) l by simp
  have "worker_inv crc b a R R (idx, if used = 0 then pages else Suc pages, 0, False)
      (store_writer (segment_filename (ww_dir_name w) idx) pw' w)"
    by (rule worker_invI [OF at c(2) _ p(2) e]) (use c(3) in simp)
  then show ?thesis
    using c(1) p(1) by (simp add: flush_segment_def no_failures_def layout_flush_def worker_at_def l)
qed

lemma open_segment_at:
  assumes "ww_dir w = segment_files (ww_dir_name w) (seg_files closed)" "ww_segment_index w = idx"
    "sorted_wrt (<) (map fst closed @ [idx])" "idx < 1000000" "list_all (closed_segment crc a) closed"
  shows "worker_at crc a closed idx (open_writer (\<lambda>_. None) (name_bytes (ww_dir_name w)) idx []) (open_segment no_failures w)"
proof -
  let ?name = "segment_filename (ww_dir_name w) idx"
  let ?pw = "open_writer (\<lambda>_. None) (name_bytes (ww_dir_name w)) idx []"
  have ok: "indices_ok (map fst (seg_files closed) @ [idx])" using indices_ok_bound assms(3,4) by simp
  have new: "?name \<notin> fst ` set (ww_dir w)" using new_segment_name [OF ok] assms(1) by simp
  then have "file_of (ww_dir w) ?name = []" by (simp add: file_of_def flip: map_of_eq_None_iff)
  then have o: "open_segment no_failures w = store_writer ?name ?pw w"
    using assms(2) by (simp add: open_segment_def no_failures_def Let_def)
  show ?thesis unfolding o
    using update_segment_files(2) [OF ok, of "ww_dir_name w"] assms(1-3,5) by (simp add: worker_at_def store_writer_def)
qed

lemma fresh_writer:
  "frames.log_inv crc a [] [] 0 0 False (open_writer (\<lambda>_. None) db_name idx [])"
  "writer_ends [] (open_writer (\<lambda>_. None) db_name idx [])"
  using log_inv_fresh [OF open_writer_holds [OF refl]] writer_holds_sized [OF open_writer_holds [OF refl]]
  by (simp_all add: writer_ends_def)

lemma open_segment_inv:
  assumes "ww_dir w = segment_files (ww_dir_name w) (seg_files closed)" "ww_segment_index w = idx"
    "sorted_wrt (<) (map fst closed @ [idx])" "idx < 1000000" "list_all (closed_segment crc a) closed"
    "subseq (seg_recs closed) R" "b \<le> a \<longrightarrow> kept a R = kept a (seg_recs closed) \<and> prefix (kept a D) (kept a R)"
  shows "worker_inv crc b a R D (idx, 0, 0, False) (open_segment no_failures w)"
  by (rule worker_invI [OF open_segment_at [OF assms(1-5)] _ _ fresh_writer]) (use assms in auto)

text \<open>The writer of a full segment is replaced by that of the next one.\<close>

lemma rotate_at:
  assumes at: "worker_at crc a closed idx pw w" and inv: "frames.log_inv crc a Rc Dc pages used spans pw" and ends: "writer_ends Rc pw"
    and n: "Suc idx < 1000000" and full: "ww_max_segment_size w \<le> (pages + 1) * PAGE_SIZE"
  shows "\<exists>f. worker_at crc a (closed @ [(idx, f, Rc)]) (Suc idx)
    (open_writer (\<lambda>_. None) (name_bytes (ww_dir_name w)) (Suc idx) []) (ensure_writer crc no_failures w)"
proof -
  let ?name = "segment_filename (ww_dir_name w) idx"
  have bound: "idx < 1000000" using n by simp
  have wr: "ww_writer w = Some (?name, pw)" "ww_segment_index w = idx" using at by (simp_all add: worker_at_def)
  have len: "length (file_of (ww_dir w) ?name) = (pages + 1) * PAGE_SIZE"
    using worker_at_file [OF at bound] log_inv_on_disk(2) [OF inv] by simp
  obtain pw' where p: "flush crc (\<lambda>_. None) pw = (pw', True)" "file_reads crc a (pw_file pw') (kept a Rc)"
    "close_writer crc (\<lambda>_. None) pw' = pw'"
    using log_inv_flushed [OF inv] by blast
  define w1 where "w1 = (store_writer ?name pw' w)\<lparr>ww_segment_index := Suc idx, ww_writer := None\<rparr>"
  have at': "worker_at crc a closed idx pw' (store_writer ?name pw' w)" by (rule worker_at_store [OF at bound])
  have e: "ensure_writer crc no_failures w = open_segment no_failures w1"
    using wr len full p n by (simp add: ensure_writer_def no_failures_def Let_def w1_def store_writer_def)
  have "closed_segment crc a (idx, pw_file pw', Rc)"
    using p(2) writer_ends_flush [OF ends p(1)] by (auto simp: closed_segment_def writer_ends_def)
  then have "worker_at crc a (closed @ [(idx, pw_file pw', Rc)]) (Suc idx)
      (open_writer (\<lambda>_. None) (name_bytes (ww_dir_name w1)) (Suc idx) []) (open_segment no_failures w1)"
    using at' n by (intro open_segment_at) (auto simp: w1_def worker_at_def store_writer_def sorted_wrt_append)
  then show ?thesis unfolding e by (auto simp: w1_def store_writer_def)
qed

lemma ensure_writer_inv:
  assumes "worker_inv crc b a R D l w" "fst l < 999999"
  shows "worker_inv crc b a R D (layout_rotate (ww_max_segment_size w) l) (ensure_writer crc no_failures w)"
proof -
  obtain idx pages used spans where l: "l = (idx, pages, used, spans)" by (cases l)
  obtain closed pw Rc Dc where c: "worker_at crc a closed idx pw w" "subseq (seg_recs closed @ Rc) R"
    "b \<le> a \<longrightarrow> kept a R = kept a (seg_recs closed @ Rc) \<and> prefix (kept a D) (kept a (seg_recs closed) @ Dc)"
    "frames.log_inv crc a Rc Dc pages used spans pw" "writer_ends Rc pw"
    by (rule worker_invE [OF assms(1) [unfolded l]])
  have bound: "idx < 1000000" "Suc idx < 1000000" using assms(2) l by simp_all
  show ?thesis
  proof (cases "ww_max_segment_size w \<le> (pages + 1) * PAGE_SIZE")
    case False
    have "length (file_of (ww_dir w) (segment_filename (ww_dir_name w) idx)) = (pages + 1) * PAGE_SIZE"
      using worker_at_file [OF c(1) bound(1)] log_inv_on_disk(2) [OF c(4)] by simp
    then have "ensure_writer crc no_failures w = w" using c(1) False by (simp add: ensure_writer_def worker_at_def)
    then show ?thesis using assms(1) False l by (simp add: layout_rotate_def)
  next
    case True
    obtain f where f: "worker_at crc a (closed @ [(idx, f, Rc)]) (Suc idx)
        (open_writer (\<lambda>_. None) (name_bytes (ww_dir_name w)) (Suc idx) []) (ensure_writer crc no_failures w)"
      using rotate_at [OF c(1,4,5) bound(2) True] by blast
    obtain P where P: "prefix Dc P" "prefix P (kept a Rc)" using log_inv_on_disk(1) [OF c(4)] unfolding kept_def by blast
    then have "prefix (kept a (seg_recs closed) @ Dc) (kept a (seg_recs closed @ Rc))" by auto
    then have "b \<le> a \<longrightarrow> prefix (kept a D) (kept a R)" using c(3) prefix_order.trans by metis
    then have "worker_inv crc b a R D (Suc idx, 0, 0, False) (ensure_writer crc no_failures w)"
      by (intro worker_invI [OF f _ _ fresh_writer]) (use c(2,3) in auto)
    then show ?thesis using True l by (simp add: layout_rotate_def)
  qed
qed

lemma log_inv_append:
  assumes inv: "frames.log_inv crc a R D pages used spans pw" and f: "is_frame crc f r"
    and l: "layout_append (length f) (segs, pages, used, spans) = Some (segs', pages', used', spans')"
    and id: "wal_id \<le> UINT64_MAX"
  shows "segs' = segs \<and> (\<exists>pw'. append_record crc (\<lambda>_. None) f wal_id pw = (pw', True) \<and>
    frames.log_inv crc a (R @ [r]) D pages' used' spans' pw')"
proof (cases "length f \<le> PAGE_DATA_SIZE - used")
  case True
  then show ?thesis
    using frames.log_inv_append_fits [OF inv f True id, of "\<lambda>_. None"] l by (auto simp: layout_append_def)
next
  case False
  then have s: "\<not> spans" "used + 4 \<le> PAGE_DATA_SIZE" "segs' = segs" "pages' = pages + span_pages used (length f)"
    "used' = last_page_use used (length f)" "spans'"
    using l by (auto simp: layout_append_def split: if_splits)
  then show ?thesis
    using frames.log_inv_append_spans [OF _ f _ s(2) id refl, of a R D pages pw] inv False by auto
qed

lemma append_to_segment_inv:
  assumes inv: "worker_inv crc b a R D l w" and n: "fst l < 999999" and f: "is_frame crc f r"
    and l: "layout_append (length f) (layout_rotate (ww_max_segment_size w) l) = Some l'"
    and id: "wal_id \<le> UINT64_MAX" "rec_id r = wal_id"
  shows "worker_inv crc b a (R @ [r]) D l' (append_to_segment crc no_failures f wal_id w)"
proof -
  define w1 where "w1 = ensure_writer crc no_failures w"
  obtain idx pages used spans where l1: "layout_rotate (ww_max_segment_size w) l = (idx, pages, used, spans)"
    by (cases "layout_rotate (ww_max_segment_size w) l")
  obtain idx' pages' used' spans' where l': "l' = (idx', pages', used', spans')" by (cases l')
  have w1: "worker_inv crc b a R D (idx, pages, used, spans) w1"
    using ensure_writer_inv [OF inv n] l1 by (simp add: w1_def)
  obtain closed pw Rc Dc where c: "worker_at crc a closed idx pw w1" "subseq (seg_recs closed @ Rc) R"
    "b \<le> a \<longrightarrow> kept a R = kept a (seg_recs closed @ Rc) \<and> prefix (kept a D) (kept a (seg_recs closed) @ Dc)"
    "frames.log_inv crc a Rc Dc pages used spans pw" "writer_ends Rc pw"
    by (rule worker_invE [OF w1])
  obtain pw' where p: "append_record crc (\<lambda>_. None) f wal_id pw = (pw', True)" "idx' = idx"
    "frames.log_inv crc a (Rc @ [r]) Dc pages' used' spans' pw'"
    using log_inv_append [OF c(4) f _ id(1)] l unfolding l1 l' by blast
  have "idx \<le> fst l + 1" using l1 by (auto simp: layout_rotate_def split: prod.splits if_splits)
  then have i: "idx < 1000000" using n by simp
  have e: "writer_ends (Rc @ [r]) pw'"
    by (rule writer_ends_append [OF c(5) _ frames.frame_nonempty [OF f] p(1) [folded id(2)]]) (use id in simp)
  have "subseq ((seg_recs closed @ Rc) @ [r]) (R @ [r])" using c(2) by (rule list_emb_append_mono) simp
  then have "worker_inv crc b a (R @ [r]) D (idx, pages', used', spans')
      (store_writer (segment_filename (ww_dir_name w1) idx) pw' w1)"
    by (intro worker_invI [OF worker_at_store [OF c(1) i] _ _ p(3) e]) (use c(3) in auto)
  moreover have "append_to_segment crc no_failures f wal_id w =
      store_writer (segment_filename (ww_dir_name w1) idx) pw' w1"
    using c(1) p(1) by (simp add: append_to_segment_def Let_def worker_at_def no_failures_apply flip: w1_def)
  ultimately show ?thesis using p(2) l' by simp
qed

section \<open>Reading the segments\<close>

lemma read_files:
  assumes "list_all2 (\<lambda>(i, f) rs. file_reads crc a f rs) segs rss"
    and "\<forall>(i, f) \<in> set segs. file_of dir (segment_filename db i) = f"
  shows "read_segments crc a dir (map (segment_filename db) (map fst segs)) = Done (concat rss)"
    "read_chain crc a dir (map (segment_filename db) (map fst segs)) = Done (concat rss)"
  using assms by (induction rule: list_all2_induct) (auto simp: file_reads_def)

lemma worker_at_reads:
  assumes "worker_at crc a closed idx pw w" "file_reads crc a (pw_file pw) P"
  shows "list_all2 (\<lambda>(i, f) rs. file_reads crc a f rs) (seg_files closed @ [(idx, pw_file pw)])
    (map (\<lambda>(i, f, rs). kept a rs) closed @ [P])"
  using assms by (intro list_all2_appendI)
    (auto simp: worker_at_def closed_segment_def seg_files_def list_all2_conv_all_nth list_all_length split: prod.splits)

lemma kept_seg_recs: "concat (map (\<lambda>(i, f, rs). kept a rs) closed) = kept a (seg_recs closed)"
  by (simp add: seg_recs_def kept_concat case_prod_unfold comp_def)

lemma worker_at_read_all:
  assumes w: "worker_at crc a closed idx pw w" and i: "idx < 1000000" and P: "file_reads crc a (pw_file pw) P"
  shows "read_segments crc a (ww_dir w) (discover_segments (ww_dir_name w) (ww_dir w)) = Done (kept a (seg_recs closed) @ P)"
    "read_chain crc a (ww_dir w) (sort (filter (has_prefix ''wal_'') (map fst (ww_dir w)))) = Done (kept a (seg_recs closed) @ P)"
proof -
  let ?segs = "seg_files closed @ [(idx, pw_file pw)]"
  have ok: "indices_ok (map fst ?segs)" by (rule worker_at_indices(2) [OF w i])
  have dir: "ww_dir w = segment_files (ww_dir_name w) ?segs" using w by (simp add: worker_at_def)
  have "\<forall>(i, f) \<in> set ?segs. file_of (ww_dir w) (segment_filename (ww_dir_name w) i) = f"
    using file_of_segment_files [OF ok] unfolding dir by auto
  note r = read_files [OF worker_at_reads [OF w P] this]
  show "read_segments crc a (ww_dir w) (discover_segments (ww_dir_name w) (ww_dir w)) = Done (kept a (seg_recs closed) @ P)"
    "read_chain crc a (ww_dir w) (sort (filter (has_prefix ''wal_'') (map fst (ww_dir w)))) = Done (kept a (seg_recs closed) @ P)"
    using r discover_segment_files [OF ok, of "ww_dir_name w"] unfolding dir [symmetric] by (simp_all add: kept_seg_recs)
qed

lemma worker_inv_reads:
  assumes "worker_inv crc b a R D l w" "fst l < 1000000"
  shows "\<exists>P. (b \<le> a \<longrightarrow> prefix (kept a D) P \<and> prefix P (kept a R)) \<and>
    read_segments crc a (ww_dir w) (discover_segments (ww_dir_name w) (ww_dir w)) = Done P \<and>
    read_chain crc a (ww_dir w) (sort (filter (has_prefix ''wal_'') (map fst (ww_dir w)))) = Done P"
proof -
  obtain idx pages used spans where l: "l = (idx, pages, used, spans)" by (cases l)
  obtain closed pw Rc Dc where c: "worker_at crc a closed idx pw w"
    "b \<le> a \<longrightarrow> kept a R = kept a (seg_recs closed @ Rc) \<and> prefix (kept a D) (kept a (seg_recs closed) @ Dc)"
    "frames.log_inv crc a Rc Dc pages used spans pw"
    using worker_invE [OF assms(1) [unfolded l]] by metis
  obtain P where P: "file_reads crc a (pw_file pw) P" "prefix Dc P" "prefix P (kept a Rc)"
    using log_inv_on_disk(1) [OF c(3)] unfolding kept_def by blast
  have "prefix (kept a (seg_recs closed) @ Dc) (kept a (seg_recs closed) @ P)"
    "prefix (kept a (seg_recs closed) @ P) (kept a (seg_recs closed @ Rc))" using P(2,3) by simp_all
  then have "b \<le> a \<longrightarrow> prefix (kept a D) (kept a (seg_recs closed) @ P) \<and> prefix (kept a (seg_recs closed) @ P) (kept a R)"
    using c(2) prefix_order.trans by metis
  then show ?thesis using worker_at_read_all [OF c(1) _ P(1)] assms(2) l by auto
qed

section \<open>Truncation\<close>

definition survives :: "nat \<Rightarrow> directory \<Rightarrow> string option \<Rightarrow> string \<Rightarrow> bool" where
  "survives checkpoint_wal_id dir current name \<longleftrightarrow>
     current = Some name \<or> \<not> removable_segment checkpoint_wal_id (file_of dir name)"

lemma file_of_filter:
  assumes "P name"
  shows "file_of (filter (\<lambda>p. P (fst p)) dir) name = file_of dir name"
  using assms by (induction dir) (auto simp: file_of_def)

lemma truncate_step:
  "fold (\<lambda>name w.
       if map_option fst (ww_writer w) = Some name then w
       else if removable_segment c (file_of (ww_dir w) name)
       then w\<lparr>ww_dir := AList.delete name (ww_dir w)\<rparr> else w) names w =
   w\<lparr>ww_dir := filter (\<lambda>p. fst p \<notin> set names \<or> survives c (ww_dir w) (map_option fst (ww_writer w)) (fst p)) (ww_dir w)\<rparr>"
proof (induction names arbitrary: w)
  case Nil
  then show ?case by simp
next
  case (Cons name names)
  let ?cur = "map_option fst (ww_writer w)"
  show ?case
  proof (cases "survives c (ww_dir w) ?cur name")
    case True
    then have "filter (\<lambda>p. fst p \<notin> set names \<or> survives c (ww_dir w) ?cur (fst p)) (ww_dir w) =
        filter (\<lambda>p. fst p \<notin> set (name # names) \<or> survives c (ww_dir w) ?cur (fst p)) (ww_dir w)"
      by (intro filter_cong) auto
    then show ?thesis using True Cons.IH [of w] by (auto simp: survives_def)
  next
    case False
    let ?w = "w\<lparr>ww_dir := AList.delete name (ww_dir w)\<rparr>"
    have f: "file_of (AList.delete name (ww_dir w)) n = file_of (ww_dir w) n" if "n \<noteq> name" for n
      using that by (simp add: file_of_def delete_conv)
    have s: "survives c (AList.delete name (ww_dir w)) ?cur n = survives c (ww_dir w) ?cur n" if "n \<noteq> name" for n
      using f [OF that] by (simp add: survives_def)
    have "filter (\<lambda>p. fst p \<notin> set names \<or> survives c (ww_dir ?w) ?cur (fst p)) (ww_dir ?w) =
        filter (\<lambda>p. (fst p \<notin> set names \<or> survives c (AList.delete name (ww_dir w)) ?cur (fst p)) \<and> fst p \<noteq> name) (ww_dir w)"
      by (simp add: AList.delete_eq [of name] case_prod_unfold conj_commute eq_commute)
    also have "\<dots> = filter (\<lambda>p. fst p \<notin> set (name # names) \<or> survives c (ww_dir w) ?cur (fst p)) (ww_dir w)"
    proof (intro filter_cong refl)
      fix p
      show "((fst p \<notin> set names \<or> survives c (AList.delete name (ww_dir w)) ?cur (fst p)) \<and> fst p \<noteq> name) =
          (fst p \<notin> set (name # names) \<or> survives c (ww_dir w) ?cur (fst p))"
        using False s [of "fst p"] by (cases "fst p = name") auto
    qed
    finally have "filter (\<lambda>p. fst p \<notin> set names \<or> survives c (ww_dir ?w) ?cur (fst p)) (ww_dir ?w) =
        filter (\<lambda>p. fst p \<notin> set (name # names) \<or> survives c (ww_dir w) ?cur (fst p)) (ww_dir w)" .
    then show ?thesis using False Cons.IH [of ?w] by (simp add: survives_def)
  qed
qed

lemma truncate_fields [simp]:
  "ww_max_segment_size (worker_truncate_before c w) = ww_max_segment_size w"
  "ww_last_crc (worker_truncate_before c w) = ww_last_crc w"
  "ww_dir_name (worker_truncate_before c w) = ww_dir_name w"
  "ww_id (worker_truncate_before c w) = ww_id w"
  unfolding worker_truncate_before_def truncate_step by simp_all

lemma truncate_dir:
  assumes "set (discover_segments (ww_dir_name w) (ww_dir w)) = fst ` set (ww_dir w)"
  shows "worker_truncate_before c w =
    w\<lparr>ww_dir := filter (\<lambda>p. survives c (ww_dir w) (map_option fst (ww_writer w)) (fst p)) (ww_dir w)\<rparr>"
  unfolding worker_truncate_before_def truncate_step assms by (simp cong: filter_cong)

lemma sorted_part:
  fixes f :: "'a \<Rightarrow> nat"
  assumes "sorted (map f (us @ xs @ vs))" "x \<in> set xs"
  shows "f x \<le> f (last xs)"
  using assms by (cases xs rule: rev_cases) (auto simp: sorted_append)

lemma sorted_subseq:
  fixes f :: "'a \<Rightarrow> nat"
  assumes "subseq xs ys" "sorted (map f ys)"
  shows "sorted (map f xs)"
  using assms
proof (induction rule: list_emb.induct)
  case (list_emb_Cons2 x y xs ys)
  then show ?case by (auto elim!: list_emb_set)
qed simp_all

lemma filter_seg_files:
  "\<forall>s \<in> set closed. P (fst s) \<longleftrightarrow> Q s \<Longrightarrow> filter (\<lambda>s. P (fst s)) (seg_files closed) = seg_files (filter Q closed)"
  by (induction closed) (auto simp: seg_files_def)

lemma kept_filter:
  "\<forall>s \<in> set closed. \<not> Q s \<longrightarrow> kept a (snd (snd s)) = [] \<Longrightarrow> kept a (seg_recs (filter Q closed)) = kept a (seg_recs closed)"
  by (induction closed) (auto simp: seg_recs_def case_prod_unfold)

lemma filter_segment_files:
  "filter (\<lambda>p. P (fst p)) (segment_files db segs) = segment_files db (filter (\<lambda>s. P (segment_filename db (fst s))) segs)"
  by (induction segs) (auto simp: segment_files_def)

lemma subseq_seg_recs: "subseq (seg_recs (filter P closed)) (seg_recs closed)"
proof (induction closed)
  case (Cons s closed)
  then show ?case by (cases s) (auto intro: list_emb_append_mono subseq_drop_many)
qed simp

lemma truncate_worker_at:
  assumes w: "worker_at crc a closed idx pw w" and i: "idx < 1000000"
  shows "worker_at crc a (filter (\<lambda>(i, f, rs). \<not> removable_segment c f) closed) idx pw (worker_truncate_before c w)"
proof -
  let ?db = "ww_dir_name w" and ?segs = "seg_files closed @ [(idx, pw_file pw)]"
  let ?keep = "survives c (ww_dir w) (map_option fst (ww_writer w))"
  have ok: "indices_ok (map fst ?segs)" by (rule worker_at_indices(2) [OF w i])
  have dir: "ww_dir w = segment_files ?db ?segs" and wr: "map_option fst (ww_writer w) = Some (segment_filename ?db idx)"
    using w by (simp_all add: worker_at_def)
  have "set (discover_segments ?db (ww_dir w)) = fst ` set (ww_dir w)"
    using arg_cong [OF discover_segment_files(1) [OF ok, of ?db], of set] arg_cong [OF names_segment_files [of ?db ?segs], of set]
    unfolding dir by simp
  note t = truncate_dir [OF this, of c]
  have keep: "?keep (segment_filename ?db j) \<longleftrightarrow> \<not> removable_segment c f" if "(j, f, rs) \<in> set closed" for j f rs
  proof -
    have "(j, f) \<in> set ?segs" using that by (force simp: seg_files_def)
    then have "file_of (ww_dir w) (segment_filename ?db j) = f" using file_of_segment_files [OF ok] by (simp only: dir)
    moreover have "j < idx" using w that by (force simp: worker_at_def sorted_wrt_append)
    then have "segment_filename ?db idx \<noteq> segment_filename ?db j" using segment_filename_less [of j idx ?db] i by auto
    ultimately show ?thesis by (simp add: survives_def wr)
  qed
  have "filter (\<lambda>s. ?keep (segment_filename ?db (fst s))) (seg_files closed) =
      seg_files (filter (\<lambda>(i, f, rs). \<not> removable_segment c f) closed)"
    using keep by (intro filter_seg_files) auto
  moreover have "?keep (segment_filename ?db idx)" by (simp add: survives_def wr)
  ultimately have "filter (\<lambda>p. ?keep (fst p)) (ww_dir w) =
      segment_files ?db (seg_files (filter (\<lambda>(i, f, rs). \<not> removable_segment c f) closed) @ [(idx, pw_file pw)])"
    by (simp only: dir filter_segment_files filter_append) simp
  moreover have "sorted_wrt (<) (map fst (filter (\<lambda>(i, f, rs). \<not> removable_segment c f) closed) @ [idx])"
    using w by (auto simp: worker_at_def sorted_wrt_append sorted_wrt_map sorted_wrt_filter)
  ultimately show ?thesis
    using w unfolding t by (auto simp: worker_at_def list_all_iff)
qed

lemma truncate_inv:
  assumes inv: "worker_inv crc b a R D l w" and n: "fst l < 1000000" and ids: "sorted (map rec_id R)"
  shows "worker_inv crc (max b c) a R D l (worker_truncate_before c w)"
proof -
  obtain idx pages used spans where l: "l = (idx, pages, used, spans)" by (cases l)
  obtain closed pw Rc Dc where w: "worker_at crc a closed idx pw w" "subseq (seg_recs closed @ Rc) R"
    "b \<le> a \<longrightarrow> kept a R = kept a (seg_recs closed @ Rc) \<and> prefix (kept a D) (kept a (seg_recs closed) @ Dc)"
    "frames.log_inv crc a Rc Dc pages used spans pw" "writer_ends Rc pw"
    by (rule worker_invE [OF inv [unfolded l]])
  let ?closed = "filter (\<lambda>(i, f, rs). \<not> removable_segment c f) closed"
  have at: "worker_at crc a ?closed idx pw (worker_truncate_before c w)"
    using truncate_worker_at [OF w(1)] n l by simp
  have "subseq (seg_recs ?closed @ Rc) (seg_recs closed @ Rc)" by (intro list_emb_append_mono subseq_seg_recs) simp
  then have sub: "subseq (seg_recs ?closed @ Rc) R" using w(2) subseq_order.trans by blast
  have gone: "kept a rs = []" if s: "(i, f, rs) \<in> set closed" "removable_segment c f" and ca: "c \<le> a" for i f rs
  proof (cases "rs = []")
    case False
    have "closed_segment crc a (i, f, rs)" using w(1) s(1) by (auto simp: worker_at_def list_all_iff)
    then have last: "rec_id (last rs) \<le> a"
      using False s(2) ca by (auto simp: closed_segment_def removable_segment_def end_lsn_def)
    obtain us vs where "closed = us @ (i, f, rs) # vs" using s(1) by (auto simp: in_set_conv_decomp)
    then have "sorted (map rec_id (seg_recs us @ rs @ seg_recs vs @ Rc))" using sorted_subseq [OF w(2) ids] by simp
    then have "rec_id r \<le> a" if "r \<in> set rs" for r using sorted_part that last by fastforce
    then show ?thesis by (fastforce simp: kept_def keep_record_def)
  qed simp
  have "kept a (seg_recs ?closed) = kept a (seg_recs closed)" if "c \<le> a"
    using gone [OF _ _ that] by (intro kept_filter) auto
  then have "max b c \<le> a \<longrightarrow> kept a R = kept a (seg_recs ?closed @ Rc) \<and> prefix (kept a D) (kept a (seg_recs ?closed) @ Dc)"
    using w(3) by simp
  from worker_invI [OF at sub this w(4,5)] show ?thesis by (simp add: l)
qed

section \<open>Reopening the log\<close>

lemma open_writer_existing:
  assumes "segment_holds crc contents file"
  shows "writer_holds crc contents 0 [] (open_writer (\<lambda>_. None) db_name seg_index file)"
proof (cases "contents = []")
  case True
  let ?hp = "bsplice 0 (file_header_init seg_index db_name) (replicate PAGE_SIZE 0)"
  have len: "length ?hp = PAGE_SIZE" by (simp add: length_file_header_init PAGE_SIZE_def)
  have "length file = PAGE_SIZE" using verify_chain_segment(2) [OF assms] True by simp
  then have "bsplice 0 ?hp (file @ []) = ?hp @ []" using len by (intro bsplice_front) simp
  then have "bsplice 0 ?hp file = ?hp" by simp
  moreover have "segment_holds crc [] ?hp" unfolding segment_holds_def using len by (intro exI [of _ ?hp] exI [of _ "[]"]) simp
  ultimately show ?thesis using len \<open>length file = PAGE_SIZE\<close> True
    by (simp add: open_writer_def write_file_header_def file_write_def start_new_page_def writer_holds_def
        page_buffer_empty PAGE_NORMAL_def Let_def)
next
  case False
  have len: "length file = (length contents + 1) * PAGE_SIZE" by (rule verify_chain_segment(2) [OF assms])
  then have "length file > PAGE_SIZE" "length file div PAGE_SIZE * PAGE_SIZE = length file"
    using False by (simp_all add: PAGE_SIZE_def)
  then show ?thesis using assms
    by (simp add: open_writer_def start_new_page_def writer_holds_def page_buffer_empty PAGE_NORMAL_def Let_def)
qed

lemma log_inv_reopen:
  assumes "frames.log_inv crc a R D pages 0 False pw"
  shows "frames.log_inv crc a R (kept a R) pages 0 False (open_writer (\<lambda>_. None) db_name seg_index (pw_file pw))"
proof -
  obtain contents s fs rs where c: "steps crc a contents empty_reader = Done s" "list_all2 (is_frame crc) fs rs"
    "length contents = pages" "writer_holds crc contents 0 [] pw" "\<not> rs_in_span s" "concat fs = []"
    "concat (map (keep_record a) R) = rs_records s @ concat (map (keep_record a) rs)"
    using assms unfolding frames.log_inv_def by auto
  have "fs = []" using c(2,6) frames.frame_nonempty by (cases fs) (auto simp: list_all2_Cons1)
  then have k: "kept a R = rs_records s" using c(2,7) by (simp add: kept_def)
  have "writer_holds crc contents 0 [] (open_writer (\<lambda>_. None) db_name seg_index (pw_file pw))"
    using c(4) by (intro open_writer_existing) (simp add: writer_holds_def)
  then show ?thesis
    unfolding frames.log_inv_def if_False using c(1,3,5) k
    by (intro exI [of _ contents] exI [of _ "[]"] exI [of _ s]) (auto simp: kept_def)
qed

lemma writer_ends_reopen:
  assumes "frames.log_inv crc a R D pages 0 False pw" "writer_ends R pw"
  shows "writer_ends R (open_writer (\<lambda>_. None) db_name seg_index (pw_file pw))"
proof -
  obtain contents where c: "writer_holds crc contents 0 [] pw"
    using assms(1) unfolding frames.log_inv_def by auto
  let ?pw = "open_writer (\<lambda>_. None) db_name seg_index (pw_file pw)"
  have h: "writer_holds crc contents 0 [] ?pw" using c by (intro open_writer_existing) (simp add: writer_holds_def)
  show ?thesis
  proof (cases "R = []")
    case True
    then show ?thesis using writer_holds_sized [OF h] by (simp add: writer_ends_def)
  next
    case False
    then have e: "page_count (pw_file pw) \<noteq> 0" "end_lsn (pw_file pw) = rec_id (last R)"
      using assms(2) c by (simp_all add: writer_ends_def writer_holds_def)
    then have "pw_file ?pw = pw_file pw"
      by (simp add: open_writer_def start_new_page_def page_count_def Let_def split: if_splits)
    then show ?thesis using writer_holds_sized [OF h] h e by (simp add: writer_ends_def writer_holds_def)
  qed
qed

lemma recover_scan_files:
  assumes "list_all2 (\<lambda>(i, f) rs. file_reads crc 0 f rs) segs rss"
    and "\<forall>(i, f) \<in> set segs. file_of dir (segment_filename db i) = f" and "indices_ok (map fst segs)"
    and "\<forall>i \<in> fst ` set segs. k \<le> i"
  shows "recover_scan crc db dir (map (segment_filename db) (map fst segs)) (m, k) =
    Done (foldl (\<lambda>m rs. max_record rs m) m rss, if segs = [] then k else fst (last segs))"
  using assms
proof (induction arbitrary: k m rule: list_all2_induct)
  case Nil
  then show ?case by simp
next
  case (Cons s segs rs rss)
  obtain i f where s: "s = (i, f)" by fastforce
  have i: "i < 1000000" "\<forall>j \<in> fst ` set segs. i \<le> j" "indices_ok (map fst segs)"
    using Cons.prems(2) s by (auto simp: indices_ok_def)
  then have p: "parse_segment_index (segment_filename db i) db = i" "i \<noteq> UINT32_MAX"
    by (simp_all add: parse_segment_filename)
  have k: "(if i > k then i else k) = i" using Cons.prems(3) s by auto
  have "recover_scan crc db dir (map (segment_filename db) (map fst segs)) (max_record rs m, i) =
      Done (foldl (\<lambda>m rs. max_record rs m) (max_record rs m) rss, if segs = [] then i else fst (last segs))"
    using Cons.prems(1) i by (intro Cons.IH) auto
  then show ?case
    using Cons.hyps(1) Cons.prems(1) p k by (simp add: s file_reads_def Let_def)
qed

lemma reopen_inv:
  assumes inv: "\<forall>a. worker_inv crc b a R D (idx, pages, 0, False) w" and n: "idx < 1000000"
    and name: "ww_dir_name w = to_decimal oid"
  shows "\<exists>w'. create_worker crc no_failures max_size oid (ww_dir w) = Done w' \<and>
    (\<forall>a. worker_inv crc b a R R (idx, pages, 0, False) w') \<and> ww_dir_name w' = to_decimal oid \<and>
    ww_max_segment_size w' = max_size"
proof -
  let ?db = "to_decimal oid"
  obtain closed pw Rc Dc where c: "worker_at crc 0 closed idx pw w" "frames.log_inv crc 0 Rc Dc pages 0 False pw"
    using worker_invE [OF inv [rule_format]] by metis
  obtain P where P: "file_reads crc 0 (pw_file pw) P" using log_inv_on_disk(1) [OF c(2)] by blast
  let ?segs = "seg_files closed @ [(idx, pw_file pw)]"
  have ok: "indices_ok (map fst ?segs)" by (rule worker_at_indices(2) [OF c(1) n])
  have dir: "ww_dir w = segment_files ?db ?segs" using c(1) name by (simp add: worker_at_def)
  have fl: "\<forall>(i, f) \<in> set ?segs. file_of (ww_dir w) (segment_filename ?db i) = f"
    using file_of_segment_files [OF ok] unfolding dir by auto
  let ?w = "\<lparr>ww_dir = ww_dir w, ww_dir_name = ?db, ww_max_segment_size = max_size, ww_id = 0,
    ww_last_crc = 0, ww_segment_index = 0, ww_writer = None\<rparr>"
  obtain i x where s: "recover_scan crc ?db (ww_dir w) (map (segment_filename ?db) (map fst ?segs)) ((0, 0), 0) = Done ((i, x), idx)"
    using recover_scan_files [OF worker_at_reads [OF c(1) P] fl ok, of 0 "(0, 0)"] by fastforce
  let ?w1 = "?w\<lparr>ww_id := i, ww_last_crc := x, ww_segment_index := idx\<rparr>"
  have "discover_segments ?db (ww_dir w) = map (segment_filename ?db) (map fst ?segs)"
    using discover_segment_files(1) [OF ok, of ?db] by (simp only: dir)
  then have "recover_from_disk crc ?w = Done ?w1"
    using s by (simp add: recover_from_disk_def)
  then have created: "create_worker crc no_failures max_size oid (ww_dir w) = Done (open_segment no_failures ?w1)"
    by (simp add: create_worker_def ensure_writer_def)
  have "worker_inv crc b a R R (idx, pages, 0, False) (open_segment no_failures ?w1)" for a
  proof -
    obtain closed pw Rc Dc where c: "worker_at crc a closed idx pw w" "subseq (seg_recs closed @ Rc) R"
      "b \<le> a \<longrightarrow> kept a R = kept a (seg_recs closed @ Rc) \<and> prefix (kept a D) (kept a (seg_recs closed) @ Dc)"
      "frames.log_inv crc a Rc Dc pages 0 False pw" "writer_ends Rc pw"
      by (rule worker_invE [OF inv [rule_format, of a]])
    let ?pw = "open_writer (\<lambda>_. None) (name_bytes ?db) idx (pw_file pw)"
    let ?w2 = "?w1\<lparr>ww_writer := Some (segment_filename ?db idx, pw)\<rparr>"
    have at: "worker_at crc a closed idx pw ?w2" using c(1) name by (simp add: worker_at_def)
    have "open_segment no_failures ?w1 = store_writer (segment_filename ?db idx) ?pw ?w2"
      using worker_at_file [OF at n] by (simp add: open_segment_def store_writer_def no_failures_apply Let_def)
    moreover have "worker_at crc a closed idx ?pw (store_writer (segment_filename ?db idx) ?pw ?w2)"
      using worker_at_store [OF at n, of ?pw] by simp
    ultimately have "worker_at crc a closed idx ?pw (open_segment no_failures ?w1)" by simp
    then show ?thesis
      by (rule worker_invI [OF _ c(2) _ log_inv_reopen [OF c(4)] writer_ends_reopen [OF c(4,5)]]) (use c(3) in simp)
  qed
  then show ?thesis using created by (simp add: open_segment_def Let_def store_writer_def)
qed

section \<open>Reading from a later position\<close>

text \<open>A reader that starts at a later position returns the same records without the older ones.\<close>

definition newer :: "nat \<Rightarrow> record_t list \<Rightarrow> record_t list" where
  "newer c rs = filter (\<lambda>r. c < rec_id r) rs"

definition newer_state :: "nat \<Rightarrow> reader_state \<Rightarrow> reader_state" where
  "newer_state c s = s\<lparr>rs_records := newer c (rs_records s)\<rparr>"

lemma newer_append [simp]: "newer c (rs @ rs') = newer c rs @ newer c rs'"
  by (simp add: newer_def)

lemma newer_keep_record [simp]: "a \<le> c \<Longrightarrow> newer c (keep_record a r) = keep_record c r"
  by (auto simp: newer_def keep_record_def)

lemma newer_kept: "a \<le> c \<Longrightarrow> newer c (kept a rs) = kept c rs"
  by (induction rs) (simp_all add: kept_def newer_def filter_concat keep_record_def)

lemma newer_state_fields [simp]:
  "rs_records (newer_state c s) = newer c (rs_records s)" "rs_span (newer_state c s) = rs_span s"
  "rs_in_span (newer_state c s) = rs_in_span s"
  by (simp_all add: newer_state_def)

lemma parse_records_newer:
  "a \<le> c \<Longrightarrow> parse_records crc c data = then_do (parse_records crc a data) (\<lambda>(rs, rest). Done (newer c rs, rest))"
proof (induction crc a data rule: parse_records.induct)
  case (1 crc a data)
  let ?total = "wrap32 (rd 4 0 data + 8)"
  show ?case
  proof (cases "length data < 4 \<or> rd 4 0 data = 0 \<or> ?total > length data \<or> ?total = 0")
    case True
    then show ?thesis by (auto simp: parse_records.simps [of crc _ data] newer_def Let_def)
  next
    case False
    then have "parse_records crc c (drop ?total data) =
        then_do (parse_records crc a (drop ?total data)) (\<lambda>(rs, rest). Done (newer c rs, rest))"
      if "decode_record crc (take ?total data) = Done r" for r
      using 1 that by (simp add: Let_def)
    then show ?thesis using False 1(2)
      by (cases "decode_record crc (take ?total data)"; cases "parse_records crc a (drop ?total data)")
        (auto simp: parse_records.simps [of crc _ data] Let_def)
  qed
qed

lemma page_step_newer:
  assumes "a \<le> c"
  shows "page_step crc c flags data (newer_state c s) = then_do (page_step crc a flags data s) (\<lambda>s. Done (newer_state c s))"
proof -
  have f: "finish_span crc c data (newer_state c s) = then_do (finish_span crc a data s) (\<lambda>s. Done (newer_state c s))" for s
    by (cases "decode_record crc (take (wrap32 (rd 4 0 (rs_span s @ take (min (span_needed (rs_span s) (length data)) (length data)) data) + 8))
          (rs_span s @ take (min (span_needed (rs_span s) (length data)) (length data)) data))";
        cases "parse_records crc a (drop (min (span_needed (rs_span s) (length data)) (length data)) data)")
      (auto simp: finish_span_def parse_records_newer [OF assms] newer_state_def newer_keep_record [OF assms] Let_def)
  have p: "plain_page crc c k data (newer_state c s) = then_do (plain_page crc a k data s) (\<lambda>s. Done (newer_state c s))" for s k
    by (cases "parse_records crc a data")
      (auto simp: plain_page_def parse_records_newer [OF assms] newer_state_def Let_def)
  have r: "(newer_state c s)\<lparr>rs_in_span := y\<rparr> = newer_state c (s\<lparr>rs_in_span := y\<rparr>)"
    "(newer_state c s)\<lparr>rs_span := x\<rparr> = newer_state c (s\<lparr>rs_span := x\<rparr>)" for s x y
    by (simp_all add: newer_state_def)
  show ?thesis by (simp add: page_step_def f p r Let_def)
qed

lemma set_subseq: "subseq xs ys \<Longrightarrow> set xs \<subseteq> set ys"
  by (induction rule: list_emb.induct) auto

lemma kept_newer: "r \<in> set (kept a rs) \<Longrightarrow> r \<in> set rs \<and> a < rec_id r"
  by (auto simp: kept_def keep_record_def split: if_splits)

lemma subseq_kept: "subseq rs rs' \<Longrightarrow> subseq (kept a rs) (kept a rs')"
  by (induction rule: list_emb.induct) (auto simp: kept_def keep_record_def)

lemma read_pages_newer:
  assumes "a \<le> c"
  shows "read_pages crc c file pis (newer_state c s) = then_do (read_pages crc a file pis s) (\<lambda>s. Done (newer_state c s))"
proof (induction pis arbitrary: s)
  case (Cons pi pis)
  show ?case
  proof (cases "read_page file pi")
    case (Some page)
    let ?data = "bslice PAGE_HEADER_SIZE (hdr_data_size (header_of_bytes page)) page"
    show ?thesis using Some Cons.IH
      by (cases "page_step crc a (hdr_flags (header_of_bytes page)) ?data s")
        (auto simp: page_step_newer [OF assms] Let_def)
  qed simp
qed simp

lemma read_all_records_newer:
  assumes "a \<le> c"
  shows "read_all_records crc file c = then_do (read_all_records crc file a) (\<lambda>rs. Done (newer c rs))"
proof -
  have e: "newer_state c empty_reader = empty_reader" by (simp add: newer_state_def newer_def empty_reader_def)
  let ?pis = "[1..<page_count file + 1]"
  show ?thesis
    using read_pages_newer [OF assms, of crc "file" ?pis empty_reader]
    by (cases "read_pages crc a file ?pis empty_reader") (simp_all add: read_all_records_def e)
qed

lemma read_chain_newer:
  assumes "a \<le> c"
  shows "read_chain crc c dir names = then_do (read_chain crc a dir names) (\<lambda>rs. Done (newer c rs))"
proof (induction names)
  case (Cons name names)
  then show ?case
    by (cases "read_all_records crc (file_of dir name) a"; cases "read_chain crc a dir names")
      (auto simp: read_all_records_newer [OF assms])
qed (simp add: newer_def)

lemma worker_inv_reads_subseq:
  assumes "worker_inv crc b a R D l w" "fst l < 1000000"
    "read_chain crc a (ww_dir w) (sort (filter (has_prefix ''wal_'') (map fst (ww_dir w)))) = Done P"
  shows "subseq P (kept a R)"
proof -
  obtain idx pages used spans where l: "l = (idx, pages, used, spans)" by (cases l)
  obtain closed pw Rc Dc where c: "worker_at crc a closed idx pw w" "subseq (seg_recs closed @ Rc) R"
    "frames.log_inv crc a Rc Dc pages used spans pw"
    using worker_invE [OF assms(1) [unfolded l]] by metis
  obtain P' where P': "file_reads crc a (pw_file pw) P'" "prefix P' (kept a Rc)"
    using log_inv_on_disk(1) [OF c(3)] unfolding kept_def by blast
  have "P = kept a (seg_recs closed) @ P'" using worker_at_read_all(2) [OF c(1) _ P'(1)] assms(2,3) l by simp
  moreover have "subseq (kept a (seg_recs closed) @ P') (kept a (seg_recs closed @ Rc))"
    using P'(2) by (auto intro: list_emb_append_mono prefix_imp_subseq)
  moreover have "subseq (kept a (seg_recs closed @ Rc)) (kept a R)" by (rule subseq_kept [OF c(2)])
  ultimately show ?thesis using subseq_order.trans by metis
qed

text \<open>What a reader finds that starts at any position, also before the truncated part: a part of what was
  logged, and behind the truncated part everything up to some point that is not before the durable records.\<close>

lemma worker_reads:
  assumes inv: "\<forall>a. worker_inv crc b a R D l w" and n: "fst l < 1000000"
  shows "\<exists>P. read_chain crc a (ww_dir w) (sort (filter (has_prefix ''wal_'') (map fst (ww_dir w)))) = Done P \<and>
    subseq P (kept a R) \<and> prefix (kept (max a b) D) (newer b P) \<and> prefix (newer b P) (kept (max a b) R)"
proof -
  let ?names = "sort (filter (has_prefix ''wal_'') (map fst (ww_dir w)))"
  obtain P where P: "read_chain crc a (ww_dir w) ?names = Done P" using worker_inv_reads [OF inv [rule_format] n] by blast
  have sub: "subseq P (kept a R)" by (rule worker_inv_reads_subseq [OF inv [rule_format] n P])
  have "read_chain crc (max a b) (ww_dir w) ?names = Done (newer (max a b) P)"
    using read_chain_newer [of a "max a b" crc "ww_dir w" ?names] P by simp
  then have "prefix (kept (max a b) D) (newer (max a b) P)" "prefix (newer (max a b) P) (kept (max a b) R)"
    using worker_inv_reads [OF inv [rule_format, of "max a b"] n] by auto
  moreover have "\<forall>r \<in> set P. a < rec_id r" using set_subseq [OF sub] kept_newer by blast
  then have "newer (max a b) P = newer b P" unfolding newer_def by (intro filter_cong) auto
  ultimately show ?thesis using P sub by metis
qed

end
