(* ===== verification/Wal_Recovery.thy ===== *)
theory Wal_Recovery
  imports Wal_Segments "HOL-Library.Multiset"
begin

text \<open>
  What a crash leaves of the log of a database. The worker is driven by the messages of its
  \<open>behavior\<close>; the theorems follow a run from an empty directory over any number of segments, and state
  what the startup reader (\<open>services/wal/wal_reader.cpp\<close>) finds in the directory at any point of it.
\<close>

section \<open>The messages of the worker\<close>

datatype wal_message =
    Msg_Insert nat data_chunk nat nat nat nat
  | Msg_Delete nat "nat list" nat nat nat
  | Msg_Update nat "nat list" data_chunk nat nat nat
  | Msg_Add_Column nat data_chunk nat nat nat
  | Msg_Commit nat wal_sync_mode nat nat
  | Msg_Load nat
  | Msg_Truncate nat
  | Msg_Current_Id

datatype wal_reply = Reply_Id nat | Reply_Records "record_t list" | Reply_Void

definition reply_id :: "(wal_worker \<times> nat) outcome \<Rightarrow> (wal_worker \<times> wal_reply) outcome" where
  "reply_id m = then_do m (\<lambda>(w, i). Done (w, Reply_Id i))"

fun behavior ::
  "(byte list \<Rightarrow> 32 word) \<Rightarrow> (string \<Rightarrow> io_env) \<Rightarrow> wal_message \<Rightarrow> wal_worker \<Rightarrow> (wal_worker \<times> wal_reply) outcome" where
  "behavior crc io (Msg_Insert table_oid chunk row_start row_count txn_id wal_id) w =
     reply_id (write_physical_insert crc io table_oid chunk row_start row_count txn_id wal_id w)"
| "behavior crc io (Msg_Delete table_oid row_ids cnt txn_id wal_id) w =
     reply_id (write_physical_delete crc io table_oid row_ids cnt txn_id wal_id w)"
| "behavior crc io (Msg_Update table_oid row_ids new_data cnt txn_id wal_id) w =
     reply_id (write_physical_update crc io table_oid row_ids new_data cnt txn_id wal_id w)"
| "behavior crc io (Msg_Add_Column table_oid schema_chunk column_count txn_id wal_id) w =
     reply_id (write_physical_add_column crc io table_oid schema_chunk column_count txn_id wal_id w)"
| "behavior crc io (Msg_Commit txn_id sync_mode wal_id commit_id) w =
     reply_id (Done (worker_commit_txn crc io txn_id sync_mode wal_id commit_id w))"
| "behavior crc io (Msg_Load after_wal_id) w =
     then_do (load crc io after_wal_id w) (\<lambda>(w, rs). Done (w, Reply_Records rs))"
| "behavior crc io (Msg_Truncate checkpoint_wal_id) w =
     Done (worker_truncate_before checkpoint_wal_id w, Reply_Void)"
| "behavior crc io Msg_Current_Id w = Done (w, Reply_Id (ww_id w))"

fun run_worker ::
  "(byte list \<Rightarrow> 32 word) \<Rightarrow> (string \<Rightarrow> io_env) \<Rightarrow> wal_message list \<Rightarrow> wal_worker \<Rightarrow> wal_worker outcome" where
  "run_worker crc io [] w = Done w"
| "run_worker crc io (m # ms) w = then_do (behavior crc io m w) (\<lambda>(w, reply). run_worker crc io ms w)"

lemma run_worker_append:
  "run_worker crc io (ms @ ms') w = then_do (run_worker crc io ms w) (run_worker crc io ms')"
proof (induction ms arbitrary: w)
  case (Cons m ms)
  show ?case by (cases "behavior crc io m w") (auto simp: Cons.IH)
qed simp

section \<open>Runs of the worker\<close>

text \<open>The transaction, the id and the entry of a logging message.\<close>

fun msg_entry :: "wal_message \<Rightarrow> (nat \<times> nat \<times> log_entry) option" where
  "msg_entry (Msg_Insert oid chunk start n txn_id wal_id) = Some (txn_id, wal_id, Insert_Entry oid chunk start n)"
| "msg_entry (Msg_Delete oid ids cnt txn_id wal_id) = Some (txn_id, wal_id, Delete_Entry oid ids)"
| "msg_entry (Msg_Update oid ids chunk cnt txn_id wal_id) = Some (txn_id, wal_id, Update_Entry oid ids chunk)"
| "msg_entry (Msg_Add_Column oid chunk n txn_id wal_id) = Some (txn_id, wal_id, Add_Column_Entry oid chunk n)"
| "msg_entry (Msg_Commit txn_id sync_mode wal_id commit_id) = Some (txn_id, wal_id, Commit_Entry commit_id)"
| "msg_entry _ = None"

fun msg_wf :: "wal_message \<Rightarrow> bool" where
  "msg_wf (Msg_Delete oid ids cnt txn_id wal_id) \<longleftrightarrow>
     cnt = length ids \<and> entry_wf (Delete_Entry oid ids) \<and> wal_id \<le> UINT64_MAX \<and> txn_id \<le> UINT64_MAX"
| "msg_wf (Msg_Update oid ids chunk cnt txn_id wal_id) \<longleftrightarrow>
     cnt = length ids \<and> entry_wf (Update_Entry oid ids chunk) \<and> wal_id \<le> UINT64_MAX \<and> txn_id \<le> UINT64_MAX"
| "msg_wf m \<longleftrightarrow> (case msg_entry m of None \<Rightarrow> True
     | Some (txn_id, wal_id, e) \<Rightarrow> entry_wf e \<and> wal_id \<le> UINT64_MAX \<and> txn_id \<le> UINT64_MAX)"

text \<open>In mode OFF a COMMIT is not written. The messages that flush.\<close>

fun msg_off :: "wal_message \<Rightarrow> bool" where
  "msg_off (Msg_Commit txn_id sync_mode wal_id commit_id) \<longleftrightarrow> sync_mode = SYNC_OFF"
| "msg_off _ \<longleftrightarrow> False"

fun msg_flushes :: "wal_message \<Rightarrow> bool" where
  "msg_flushes (Msg_Commit txn_id sync_mode wal_id commit_id) \<longleftrightarrow> sync_mode \<noteq> SYNC_OFF"
| "msg_flushes (Msg_Load after_wal_id) \<longleftrightarrow> True"
| "msg_flushes _ \<longleftrightarrow> False"

text \<open>The ids up to which segments may have been removed.\<close>

fun truncated :: "wal_message \<Rightarrow> nat \<Rightarrow> nat" where
  "truncated (Msg_Truncate checkpoint_wal_id) b = max b checkpoint_wal_id"
| "truncated _ b = b"

definition truncated_to :: "wal_message list \<Rightarrow> nat" where
  "truncated_to ms = fold truncated ms 0"

text \<open>The checksum that the next record refers to, and the records written by a sequence of messages.\<close>

definition next_crc :: "(byte list \<Rightarrow> 32 word) \<Rightarrow> 32 word \<Rightarrow> wal_message \<Rightarrow> 32 word" where
  "next_crc crc c m =
     (case msg_entry m of None \<Rightarrow> c | Some (txn_id, wal_id, e) \<Rightarrow> crc (entry_body c wal_id txn_id e))"

definition msg_records :: "(byte list \<Rightarrow> 32 word) \<Rightarrow> 32 word \<Rightarrow> wal_message \<Rightarrow> record_t list" where
  "msg_records crc c m =
     (case msg_entry m of None \<Rightarrow> []
      | Some (txn_id, wal_id, e) \<Rightarrow> if msg_off m then [] else [logged_record crc c wal_id txn_id e])"

fun messages_records :: "(byte list \<Rightarrow> 32 word) \<Rightarrow> 32 word \<Rightarrow> wal_message list \<Rightarrow> record_t list" where
  "messages_records crc c [] = []"
| "messages_records crc c (m # ms) = msg_records crc c m @ messages_records crc (next_crc crc c m) ms"

definition msg_ids :: "wal_message \<Rightarrow> nat list" where
  "msg_ids m = (case msg_entry m of None \<Rightarrow> [] | Some (txn_id, wal_id, e) \<Rightarrow> if msg_off m then [] else [wal_id])"

definition logged_ids :: "wal_message list \<Rightarrow> nat list" where
  "logged_ids ms = concat (map msg_ids ms)"

lemma logged_ids_append: "logged_ids (ms @ ns) = logged_ids ms @ logged_ids ns"
  by (simp add: logged_ids_def)

lemma rec_ids_messages: "map rec_id (messages_records crc c ms) = logged_ids ms"
  by (induction ms arbitrary: c) (auto simp: logged_ids_def msg_ids_def msg_records_def split: option.splits)

definition layout_message :: "nat \<Rightarrow> wal_message \<Rightarrow> wal_layout \<Rightarrow> wal_layout option" where
  "layout_message max_size m l =
     map_option (if msg_flushes m then layout_flush else id)
       (case msg_entry m of None \<Rightarrow> Some l
        | Some (txn_id, wal_id, e) \<Rightarrow>
            if msg_off m then Some l else layout_append (record_size e) (layout_rotate max_size l))"

fun layout_run :: "nat \<Rightarrow> wal_message list \<Rightarrow> wal_layout \<Rightarrow> wal_layout option" where
  "layout_run max_size [] l = Some l"
| "layout_run max_size (m # ms) l =
     (case layout_message max_size m l of None \<Rightarrow> None | Some l' \<Rightarrow> layout_run max_size ms l')"

lemma store_writer_fields [simp]:
  "ww_dir_name (store_writer name pw w) = ww_dir_name w"
  "ww_max_segment_size (store_writer name pw w) = ww_max_segment_size w"
  "ww_last_crc (store_writer name pw w) = ww_last_crc w" "ww_id (store_writer name pw w) = ww_id w"
  by (simp_all add: store_writer_def)

lemma ensure_writer_fields [simp]:
  "ww_max_segment_size (ensure_writer crc io w) = ww_max_segment_size w"
  "ww_last_crc (ensure_writer crc io w) = ww_last_crc w" "ww_dir_name (ensure_writer crc io w) = ww_dir_name w"
  by (simp_all add: ensure_writer_def open_segment_def Let_def split: option.split prod.split)

lemma append_to_segment_fields [simp]:
  "ww_max_segment_size (append_to_segment crc io f wal_id w) = ww_max_segment_size w"
  "ww_last_crc (append_to_segment crc io f wal_id w) = ww_last_crc w" "ww_dir_name (append_to_segment crc io f wal_id w) = ww_dir_name w"
  by (simp_all add: append_to_segment_def Let_def split: option.split prod.split)

lemma flush_segment_fields [simp]:
  "ww_max_segment_size (flush_segment crc io w) = ww_max_segment_size w"
  "ww_last_crc (flush_segment crc io w) = ww_last_crc w" "ww_dir_name (flush_segment crc io w) = ww_dir_name w"
  by (simp_all add: flush_segment_def split: option.split prod.split)

lemma layout_segments: "layout_message max_size m l = Some l' \<Longrightarrow> fst l' \<le> fst l + 1"
  by (auto simp: layout_message_def layout_append_def layout_rotate_def layout_flush_def
      split: option.splits if_splits prod.splits)

text \<open>What a handler does to the segment when the entry can be encoded.\<close>

definition log_entry_to :: "(byte list \<Rightarrow> 32 word) \<Rightarrow> nat \<Rightarrow> nat \<Rightarrow> log_entry \<Rightarrow> wal_worker \<Rightarrow> wal_worker" where
  "log_entry_to crc txn_id wal_id e w =
     append_to_segment crc no_failures (framed crc (entry_body (ww_last_crc w) wal_id txn_id e)) wal_id
       (w\<lparr>ww_id := wal_id, ww_last_crc := crc (entry_body (ww_last_crc w) wal_id txn_id e)\<rparr>)"

lemma log_entry_to_inv:
  assumes "worker_inv crc b a R D l w" "fst l < 999999"
    "entry_wf e" "wal_id \<le> UINT64_MAX" "txn_id \<le> UINT64_MAX"
    "layout_append (record_size e) (layout_rotate (ww_max_segment_size w) l) = Some l'"
  shows "worker_inv crc b a (R @ [logged_record crc (ww_last_crc w) wal_id txn_id e]) D l' (log_entry_to crc txn_id wal_id e w)"
  unfolding log_entry_to_def
  by (rule append_to_segment_inv [OF worker_inv_cong [OF assms(1)] assms(2) is_frame_entry [OF assms(3-5)] _ assms(4) rec_id_logged_record])
    (use assms(6) in \<open>simp_all add: length_entry_frame del: length_framed\<close>)

lemma behavior_logs:
  assumes "msg_wf m" "msg_entry m = Some (txn_id, wal_id, e)" "\<not> msg_off m"
  shows "behavior crc no_failures m w =
    Done ((if msg_flushes m then flush_segment crc no_failures else id) (log_entry_to crc txn_id wal_id e w), Reply_Id wal_id)"
proof -
  have wf: "entry_wf e" using assms(1,2) by (cases m) auto
  have enc: "encode_entry crc [] (ww_last_crc w) wal_id txn_id e =
      Done (framed crc (entry_body (ww_last_crc w) wal_id txn_id e), crc (entry_body (ww_last_crc w) wal_id txn_id e))"
    using encode_entry_eq [OF wf, of crc "[]"] by simp
  show ?thesis
    using assms enc
    by (cases m) (auto simp: encode_entry_def reply_id_def write_physical_insert_def write_physical_delete_def
        write_physical_update_def write_physical_add_column_def worker_commit_txn_def log_encoded_def
        log_entry_to_def Let_def)
qed

text \<open>The invariant for every starting id of a reader.\<close>

definition worker_ok ::
  "(byte list \<Rightarrow> 32 word) \<Rightarrow> nat \<Rightarrow> record_t list \<Rightarrow> record_t list \<Rightarrow> wal_layout \<Rightarrow> wal_worker \<Rightarrow> bool" where
  "worker_ok crc b R D l w \<longleftrightarrow> (\<forall>a. worker_inv crc b a R D l w)"

lemma load_done:
  assumes "worker_ok crc b R D l w" "fst l < 999999"
  shows "\<exists>rs. load crc no_failures after_id w = Done (flush_segment crc no_failures w, rs)"
proof -
  have i: "worker_inv crc b after_id R R (layout_flush l) (flush_segment crc no_failures w)"
    using assms by (intro flush_segment_inv) (auto simp: worker_ok_def)
  have "fst (layout_flush l) < 1000000" using assms(2) by (simp add: layout_flush_def case_prod_unfold)
  then show ?thesis using worker_inv_reads [OF i] by (auto simp: load_def Let_def)
qed

lemma behavior_ok:
  assumes inv: "worker_ok crc b R D l w" and n: "fst l < 999998" and wf: "msg_wf m" and ids: "sorted (map rec_id R)"
    and l: "layout_message (ww_max_segment_size w) m l = Some l'"
  shows "\<exists>w' reply. behavior crc no_failures m w = Done (w', reply) \<and>
    worker_ok crc (truncated m b) (R @ msg_records crc (ww_last_crc w) m)
      (if msg_flushes m then R @ msg_records crc (ww_last_crc w) m else D) l' w' \<and>
    ww_max_segment_size w' = ww_max_segment_size w \<and> ww_last_crc w' = next_crc crc (ww_last_crc w) m \<and>
    ww_dir_name w' = ww_dir_name w"
proof (cases "msg_entry m")
  case None
  then consider (load) a where "m = Msg_Load a" | (current) "m = Msg_Current_Id" | (truncate) c where "m = Msg_Truncate c"
    by (cases m) auto
  then show ?thesis
  proof cases
    case load
    have "fst l < 999999" using n by simp
    then obtain rs where r: "load crc no_failures a w = Done (flush_segment crc no_failures w, rs)"
      using load_done [OF inv] by blast
    have "worker_ok crc b R R (layout_flush l) (flush_segment crc no_failures w)"
      using inv n unfolding worker_ok_def by (intro allI flush_segment_inv) auto
    moreover have "l' = layout_flush l" using l load by (simp add: layout_message_def)
    ultimately show ?thesis using load r by (simp add: msg_records_def next_crc_def)
  next
    case current
    then show ?thesis using inv l by (simp add: msg_records_def next_crc_def layout_message_def)
  next
    case truncate
    have "worker_ok crc (max b c) R D l (worker_truncate_before c w)"
      using inv n ids unfolding worker_ok_def by (intro allI truncate_inv) auto
    then show ?thesis
      using truncate l by (simp add: msg_records_def next_crc_def layout_message_def)
  qed
next
  case (Some entry)
  obtain txn_id wal_id e where e: "msg_entry m = Some (txn_id, wal_id, e)" using Some by (cases entry) auto
  have tr: "truncated m b = b" using e by (cases m) auto
  have ewf: "entry_wf e" "wal_id \<le> UINT64_MAX" "txn_id \<le> UINT64_MAX" using wf e by (cases m; auto)+
  show ?thesis
  proof (cases "msg_off m")
    case True
    then obtain cid where m: "m = Msg_Commit txn_id SYNC_OFF wal_id cid" "e = Commit_Entry cid"
      using e by (cases m) auto
    have "worker_ok crc b R D l (w\<lparr>ww_id := wal_id, ww_last_crc := c\<rparr>)" for c
      using inv by (auto simp: worker_ok_def intro: worker_inv_cong)
    then show ?thesis
      using m l tr by (simp add: reply_id_def worker_commit_txn_def Let_def encode_commit_def msg_records_def next_crc_def
          layout_message_def)
  next
    case False
    let ?w = "log_entry_to crc txn_id wal_id e w" and ?r = "logged_record crc (ww_last_crc w) wal_id txn_id e"
    obtain l1 where l1: "layout_append (record_size e) (layout_rotate (ww_max_segment_size w) l) = Some l1"
      "l' = (if msg_flushes m then layout_flush l1 else l1)"
      using l e False by (auto simp: layout_message_def)
    have i: "worker_inv crc b a (R @ [?r]) D l1 ?w" for a
      using inv n ewf l1(1) by (intro log_entry_to_inv) (auto simp: worker_ok_def)
    have "fst l1 \<le> fst l + 1"
      using l1(1) by (auto simp: layout_append_def layout_rotate_def split: prod.splits if_splits)
    then have "fst l1 < 1000000" using n by simp
    then have f: "worker_inv crc b a (R @ [?r]) (R @ [?r]) (layout_flush l1) (flush_segment crc no_failures ?w)" for a
      by (rule flush_segment_inv [OF i])
    have bh: "behavior crc no_failures m w = Done ((if msg_flushes m then flush_segment crc no_failures else id) ?w, Reply_Id wal_id)"
      by (rule behavior_logs [OF wf e False])
    have "ww_last_crc ?w = next_crc crc (ww_last_crc w) m" "ww_max_segment_size ?w = ww_max_segment_size w"
      "ww_dir_name ?w = ww_dir_name w"
      by (simp_all add: log_entry_to_def next_crc_def e)
    then show ?thesis
      unfolding bh tr using i f l1(2) False e by (auto simp: worker_ok_def msg_records_def)
  qed
qed

definition durable_messages :: "wal_message list \<Rightarrow> wal_message list" where
  "durable_messages ms = rev (dropWhile (\<lambda>m. \<not> msg_flushes m) (rev ms))"

lemma messages_records_append:
  "messages_records crc c (ms @ ms') = messages_records crc c ms @ messages_records crc (foldl (next_crc crc) c ms) ms'"
  by (induction ms arbitrary: c) simp_all

lemma durable_messages_Cons:
  "durable_messages (m # ms) =
     (if list_ex msg_flushes ms then m # durable_messages ms else if msg_flushes m then [m] else [])"
proof (cases "list_ex msg_flushes ms")
  case True
  then have "dropWhile (\<lambda>m. \<not> msg_flushes m) (rev ms @ [m]) = dropWhile (\<lambda>m. \<not> msg_flushes m) (rev ms) @ [m]"
    by (auto simp: list_ex_iff intro: dropWhile_append1)
  then show ?thesis using True by (simp add: durable_messages_def)
next
  case False
  then have "dropWhile (\<lambda>m. \<not> msg_flushes m) (rev ms @ [m]) = dropWhile (\<lambda>m. \<not> msg_flushes m) [m]"
    by (intro dropWhile_append2) (simp add: list_ex_iff)
  then show ?thesis using False by (simp add: durable_messages_def)
qed

lemma run_worker_ok:
  assumes "worker_ok crc b R D l w" "fst l + length ms < 999999" "list_all msg_wf ms"
    "sorted (map rec_id R @ logged_ids ms)"
    "layout_run (ww_max_segment_size w) ms l = Some l'"
  shows "\<exists>w'. run_worker crc no_failures ms w = Done w' \<and> fst l' \<le> fst l + length ms \<and>
    ww_dir_name w' = ww_dir_name w \<and> ww_max_segment_size w' = ww_max_segment_size w \<and> worker_ok crc (fold truncated ms b) (R @ messages_records crc (ww_last_crc w) ms)
      (if list_ex msg_flushes ms then R @ messages_records crc (ww_last_crc w) (durable_messages ms) else D) l' w'"
  using assms
proof (induction ms arbitrary: b R D l w)
  case Nil
  then show ?case by simp
next
  case (Cons m ms)
  let ?R = "R @ msg_records crc (ww_last_crc w) m"
  obtain l1 where l1: "layout_message (ww_max_segment_size w) m l = Some l1"
    "layout_run (ww_max_segment_size w) ms l1 = Some l'"
    using Cons.prems(5) by (auto split: option.splits)
  have n: "fst l < 999998" "fst l1 + length ms < 999999"
    using Cons.prems(2) layout_segments [OF l1(1)] by simp_all
  have wf: "msg_wf m" "list_all msg_wf ms" using Cons.prems(3) by simp_all
  have ids: "sorted (map rec_id R)" "sorted (map rec_id ?R @ logged_ids ms)"
    using Cons.prems(4) rec_ids_messages [of crc "ww_last_crc w" "[m]"] by (simp_all add: logged_ids_def sorted_append)
  obtain w1 reply where w1: "behavior crc no_failures m w = Done (w1, reply)"
    "worker_ok crc (truncated m b) ?R (if msg_flushes m then ?R else D) l1 w1"
    "ww_max_segment_size w1 = ww_max_segment_size w" "ww_last_crc w1 = next_crc crc (ww_last_crc w) m"
    "ww_dir_name w1 = ww_dir_name w"
    using behavior_ok [OF Cons.prems(1) n(1) wf(1) ids(1) l1(1)] by blast
  have "layout_run (ww_max_segment_size w1) ms l1 = Some l'" using l1(2) w1(3) by simp
  from Cons.IH [OF w1(2) n(2) wf(2) ids(2) this] show ?case
    using w1(1,3,4,5) layout_segments [OF l1(1)] by (auto simp: durable_messages_Cons split: if_splits)
qed

lemma create_worker_ok:
  "\<exists>w. create_worker crc no_failures max_size oid [] = Done w \<and> worker_ok crc 0 [] [] (0, 0, 0, False) w \<and>
     ww_max_segment_size w = max_size \<and> ww_last_crc w = 0 \<and> ww_dir_name w = to_decimal oid"
proof -
  let ?w = "\<lparr>ww_dir = [], ww_dir_name = to_decimal oid, ww_max_segment_size = max_size, ww_id = 0,
    ww_last_crc = 0, ww_segment_index = 0, ww_writer = None\<rparr>"
  have "create_worker crc no_failures max_size oid [] = Done (open_segment no_failures ?w)"
    by (simp add: create_worker_def recover_from_disk_def discover_segments_def ensure_writer_def)
  moreover have "worker_inv crc 0 a [] [] (0, 0, 0, False) (open_segment no_failures ?w)" for a
    by (rule open_segment_inv [where closed = "[]"]) simp_all
  ultimately show ?thesis by (simp add: worker_ok_def open_segment_def Let_def)
qed

lemma run_recovers:
  assumes "list_all msg_wf ms" "layout_run max_size ms (0, 0, 0, False) = Some l" "length ms < 999999"
    "sorted (logged_ids ms)"
  shows "\<exists>w P. then_do (create_worker crc no_failures max_size oid []) (run_worker crc no_failures ms) = Done w \<and>
    read_database_segments crc a (ww_dir w) = Done (committed_filter P, committed_txns P) \<and>
    subseq P (kept a (messages_records crc 0 ms)) \<and>
    prefix (kept (max a (truncated_to ms)) (messages_records crc 0 (durable_messages ms))) (newer (truncated_to ms) P) \<and>
    prefix (newer (truncated_to ms) P) (kept (max a (truncated_to ms)) (messages_records crc 0 ms))"
proof -
  obtain w0 where w0: "create_worker crc no_failures max_size oid [] = Done w0" "worker_ok crc 0 [] [] (0, 0, 0, False) w0"
    "ww_max_segment_size w0 = max_size" "ww_last_crc w0 = 0"
    using create_worker_ok by blast
  let ?D = "if list_ex msg_flushes ms then messages_records crc 0 (durable_messages ms) else []"
  obtain w where w: "run_worker crc no_failures ms w0 = Done w" "fst l \<le> length ms"
    "worker_ok crc (truncated_to ms) (messages_records crc 0 ms) ?D l w"
    using run_worker_ok [OF w0(2), of ms l] assms unfolding w0(3,4) append_Nil truncated_to_def by auto
  have "durable_messages ms = []" if "\<not> list_ex msg_flushes ms"
    using that by (simp add: durable_messages_def list_ex_iff)
  then have d: "?D = messages_records crc 0 (durable_messages ms)" by simp
  have "fst l < 1000000" using w(2) assms(3) by linarith
  from worker_reads [OF w(3) [unfolded worker_ok_def d] this, of a] obtain P where
    "read_chain crc a (ww_dir w) (sort (filter (has_prefix ''wal_'') (map fst (ww_dir w)))) = Done P"
    "subseq P (kept a (messages_records crc 0 ms))"
    "prefix (kept (max a (truncated_to ms)) (messages_records crc 0 (durable_messages ms))) (newer (truncated_to ms) P)"
    "prefix (newer (truncated_to ms) P) (kept (max a (truncated_to ms)) (messages_records crc 0 ms))" by blast
  then show ?thesis
    using w0(1) w(1) by (intro exI [of _ w] exI [of _ P]) (simp add: read_database_segments_def)
qed

section \<open>Restarts\<close>

text \<open>A database that is opened, logs messages, and crashes, again and again.\<close>

fun run_lives ::
  "(byte list \<Rightarrow> 32 word) \<Rightarrow> nat \<Rightarrow> nat \<Rightarrow> wal_message list list \<Rightarrow> directory \<Rightarrow> directory outcome" where
  "run_lives crc max_size oid [] dir = Done dir"
| "run_lives crc max_size oid (ms # mss) dir =
     then_do (create_worker crc no_failures max_size oid dir) (\<lambda>w.
     then_do (run_worker crc no_failures ms w) (\<lambda>w. run_lives crc max_size oid mss (ww_dir w)))"

fun layout_lives :: "nat \<Rightarrow> wal_message list list \<Rightarrow> wal_layout \<Rightarrow> wal_layout option" where
  "layout_lives max_size [] l = Some l"
| "layout_lives max_size (ms # mss) l =
     (case layout_run max_size ms l of None \<Rightarrow> None | Some l' \<Rightarrow> layout_lives max_size mss l')"

definition life_wf :: "wal_message list \<Rightarrow> bool" where
  "life_wf ms \<longleftrightarrow> list_all msg_wf ms \<and> ms \<noteq> [] \<and> msg_flushes (last ms)"

definition lives_records :: "(byte list \<Rightarrow> 32 word) \<Rightarrow> 32 word list \<Rightarrow> wal_message list list \<Rightarrow> record_t list" where
  "lives_records crc cs mss = concat (map2 (messages_records crc) cs mss)"

lemma layout_run_snoc:
  "layout_run max_size (ms @ [m]) l =
     (case layout_run max_size ms l of None \<Rightarrow> None | Some l' \<Rightarrow> layout_message max_size m l')"
  by (induction ms arbitrary: l) (simp_all split: option.splits)

lemma life_flushed:
  assumes "life_wf ms" "layout_run max_size ms l = Some (segs, pages, used, spans)"
  shows "used = 0 \<and> \<not> spans" "list_ex msg_flushes ms" "durable_messages ms = ms"
proof -
  obtain ms' m where m: "ms = ms' @ [m]" "msg_flushes m" using assms(1) by (cases ms rule: rev_cases) (auto simp: life_wf_def)
  then show "list_ex msg_flushes ms" "durable_messages ms = ms" by (simp_all add: durable_messages_def)
  show "used = 0 \<and> \<not> spans"
    using assms(2) m by (auto simp: layout_run_snoc layout_message_def layout_flush_def split: option.splits prod.splits)
qed

lemma life_ok:
  assumes "worker_ok crc b R D l w" "fst l + length ms < 999999" "life_wf ms" "sorted (map rec_id R @ logged_ids ms)"
    "layout_run (ww_max_segment_size w) ms l = Some l'"
  shows "\<exists>w' pages. run_worker crc no_failures ms w = Done w' \<and> l' = (fst l', pages, 0, False) \<and>
    fst l' \<le> fst l + length ms \<and> ww_dir_name w' = ww_dir_name w \<and>
    worker_ok crc (fold truncated ms b) (R @ messages_records crc (ww_last_crc w) ms)
      (R @ messages_records crc (ww_last_crc w) ms) l' w'"
proof -
  obtain segs pages used spans where l': "l' = (segs, pages, used, spans)" by (cases l')
  have wf: "list_all msg_wf ms" using assms(3) by (simp add: life_wf_def)
  show ?thesis
    using run_worker_ok [OF assms(1,2) wf assms(4,5)] life_flushed [OF assms(3) assms(5) [unfolded l']] l' by auto
qed

lemma lives_ok:
  assumes "worker_ok crc b R D (segs, pages, 0, False) w" "ww_dir_name w = to_decimal oid"
    "segs + length (concat mss) < 999999" "list_all life_wf mss" "sorted (map rec_id R @ logged_ids (concat mss))"
    "layout_lives max_size mss (segs, pages, 0, False) = Some l"
  shows "\<exists>w' cs. run_lives crc max_size oid mss (ww_dir w) = Done (ww_dir w') \<and> length cs = length mss \<and>
    worker_ok crc (fold truncated (concat mss) b) (R @ lives_records crc cs mss) (if mss = [] then D else R @ lives_records crc cs mss) l w' \<and>
    fst l \<le> segs + length (concat mss)"
  using assms
proof (induction mss arbitrary: b R D segs pages w)
  case Nil
  then show ?case by (auto simp: lives_records_def)
next
  case (Cons ms mss)
  obtain w0 where w0: "create_worker crc no_failures max_size oid (ww_dir w) = Done w0"
    "worker_ok crc b R R (segs, pages, 0, False) w0" "ww_dir_name w0 = to_decimal oid" "ww_max_segment_size w0 = max_size"
    using reopen_inv [OF Cons.prems(1) [unfolded worker_ok_def] _ Cons.prems(2), of max_size] Cons.prems(3)
    unfolding worker_ok_def by auto
  obtain l1 where l1: "layout_run max_size ms (segs, pages, 0, False) = Some l1" "layout_lives max_size mss l1 = Some l"
    using Cons.prems(6) by (auto split: option.splits)
  let ?R = "R @ messages_records crc (ww_last_crc w0) ms"
  have ids: "sorted (map rec_id R @ logged_ids ms)" "sorted (map rec_id ?R @ logged_ids (concat mss))"
    using Cons.prems(5) by (simp_all add: rec_ids_messages logged_ids_append sorted_append ball_Un)
  obtain w1 pages1 where w1: "run_worker crc no_failures ms w0 = Done w1" "l1 = (fst l1, pages1, 0, False)"
    "fst l1 \<le> segs + length ms" "ww_dir_name w1 = to_decimal oid" "worker_ok crc (fold truncated ms b) ?R ?R l1 w1"
    using life_ok [OF w0(2), of ms l1] Cons.prems(3,4) l1(1) w0(3,4) ids(1) by auto
  obtain w2 cs where w2: "run_lives crc max_size oid mss (ww_dir w1) = Done (ww_dir w2)" "length cs = length mss"
    "worker_ok crc (fold truncated (concat (ms # mss)) b) (?R @ lives_records crc cs mss)
      (if mss = [] then ?R else ?R @ lives_records crc cs mss) l w2"
    "fst l \<le> fst l1 + length (concat mss)"
    using Cons.IH [of "fold truncated ms b" ?R ?R "fst l1" pages1 w1] w1(2-5) Cons.prems(3,4) l1(2) ids(2) by auto
  have "(if mss = [] then ?R else ?R @ lives_records crc cs mss) = ?R @ lives_records crc cs mss"
    using w2(2) by (simp add: lives_records_def)
  then show ?case
    using w0(1) w1(1,3) w2 by (intro exI [of _ w2] exI [of _ "ww_last_crc w0 # cs"]) (simp add: lives_records_def)
qed

lemma lives_recover:
  assumes "mss \<noteq> []" "list_all life_wf mss" "layout_lives max_size mss (0, 0, 0, False) = Some l"
    "length (concat mss) < 999999" "sorted (logged_ids (concat mss))"
  shows "\<exists>dir cs. run_lives crc max_size oid mss [] = Done dir \<and> length cs = length mss \<and> hd cs = 0 \<and>
    (\<forall>a. \<exists>P. read_database_segments crc a dir = Done (committed_filter P, committed_txns P) \<and>
      subseq P (kept a (lives_records crc cs mss)) \<and>
      newer (truncated_to (concat mss)) P = kept (max a (truncated_to (concat mss))) (lives_records crc cs mss))"
proof -
  obtain ms mss' where m: "mss = ms # mss'" using assms(1) by (cases mss) auto
  obtain w0 where w0: "create_worker crc no_failures max_size oid [] = Done w0" "worker_ok crc 0 [] [] (0, 0, 0, False) w0"
    "ww_max_segment_size w0 = max_size" "ww_last_crc w0 = 0" "ww_dir_name w0 = to_decimal oid"
    using create_worker_ok by blast
  obtain l1 where l1: "layout_run max_size ms (0, 0, 0, False) = Some l1" "layout_lives max_size mss' l1 = Some l"
    using assms(3) m by (auto split: option.splits)
  let ?R = "messages_records crc 0 ms"
  have ids: "sorted (map rec_id [] @ logged_ids ms)" "sorted (map rec_id ?R @ logged_ids (concat mss'))"
    using assms(5) m by (simp_all add: rec_ids_messages logged_ids_def sorted_append)
  obtain w1 pages1 where w1: "run_worker crc no_failures ms w0 = Done w1" "l1 = (fst l1, pages1, 0, False)"
    "fst l1 \<le> length ms" "ww_dir_name w1 = to_decimal oid" "worker_ok crc (fold truncated ms 0) ?R ?R l1 w1"
    using life_ok [OF w0(2), of ms l1] assms(2,4) m l1(1) w0(3-5) ids(1) by auto
  obtain w2 cs where w2: "run_lives crc max_size oid mss' (ww_dir w1) = Done (ww_dir w2)" "length cs = length mss'"
    "worker_ok crc (truncated_to (concat mss)) (?R @ lives_records crc cs mss')
      (if mss' = [] then ?R else ?R @ lives_records crc cs mss') l w2"
    "fst l \<le> fst l1 + length (concat mss')"
    using lives_ok [of crc "fold truncated ms 0" ?R ?R "fst l1" pages1 w1 oid mss' max_size l] w1(2-5) assms(2,4) m l1(2) ids(2)
    by (auto simp: truncated_to_def)
  let ?all = "lives_records crc (0 # cs) mss"
  let ?b = "truncated_to (concat mss)"
  have "worker_ok crc ?b ?all ?all l w2"
    using w2(2,3) by (cases "mss' = []") (simp_all add: lives_records_def m)
  then have inv: "\<forall>a. worker_inv crc ?b a ?all ?all l w2" by (simp add: worker_ok_def)
  have n: "fst l < 1000000" using w2(4) w1(3) assms(4) m by simp
  have "\<exists>P. read_database_segments crc a (ww_dir w2) = Done (committed_filter P, committed_txns P) \<and>
      subseq P (kept a ?all) \<and> newer ?b P = kept (max a ?b) ?all" for a
    using worker_reads [OF inv n, of a] prefix_order.antisym by (fastforce simp: read_database_segments_def)
  then show ?thesis using w0(1) w1(1) w2(1,2) m by (intro exI [of _ "ww_dir w2"] exI [of _ "0 # cs"]) simp
qed

lemma lives_recover_all:
  assumes "mss \<noteq> []" "list_all life_wf mss" "layout_lives max_size mss (0, 0, 0, False) = Some l"
    "length (concat mss) < 999999" "sorted (logged_ids (concat mss))" "truncated_to (concat mss) \<le> a"
  shows "\<exists>dir cs. run_lives crc max_size oid mss [] = Done dir \<and> length cs = length mss \<and> hd cs = 0 \<and>
    read_database_segments crc a dir =
      Done (committed_filter (kept a (lives_records crc cs mss)), committed_txns (kept a (lives_records crc cs mss)))"
proof -
  let ?b = "truncated_to (concat mss)"
  obtain dir cs P where r: "run_lives crc max_size oid mss [] = Done dir" "length cs = length mss" "hd cs = 0"
    "read_database_segments crc a dir = Done (committed_filter P, committed_txns P)"
    "subseq P (kept a (lives_records crc cs mss))" "newer ?b P = kept (max a ?b) (lives_records crc cs mss)"
    using lives_recover [OF assms(1-5)] by blast
  have "newer ?b P = P" unfolding newer_def
    using set_subseq [OF r(5)] kept_newer assms(6) by (intro filter_True) fastforce
  then have "P = kept a (lives_records crc cs mss)" using r(6) assms(6) by (simp add: max_def)
  then show ?thesis using r(1-4) by blast
qed

section \<open>Properties of recovery\<close>

lemma keep_logged_record [simp]:
  "keep_record a (logged_record crc c wal_id txn_id e) = (if a < wal_id then [logged_record crc c wal_id txn_id e] else [])"
  by (simp add: keep_record_def)

lemma kept_msg_records: "kept a (msg_records crc c m) = filter (\<lambda>r. a < rec_id r) (msg_records crc c m)"
  by (auto simp: msg_records_def kept_def split: option.split)

lemma kept_messages_records:
  "kept a (messages_records crc c ms) = filter (\<lambda>r. a < rec_id r) (messages_records crc c ms)"
  by (induction ms arbitrary: c) (simp_all add: kept_msg_records)

lemma kept_lives_records: "kept a (lives_records crc cs mss) = filter (\<lambda>r. a < rec_id r) (lives_records crc cs mss)"
proof (induction mss arbitrary: cs)
  case (Cons ms mss)
  then show ?case by (cases cs) (simp_all add: lives_records_def kept_messages_records)
qed (simp add: lives_records_def)

lemma rec_transaction_id_logged_record [simp]: "rec_transaction_id (logged_record crc c wal_id txn_id e) = txn_id"
  by (cases e) (simp_all add: logged_record_def Let_def entry_header_def fresh_record_def)

lemma is_commit_marker_logged_record [simp]:
  "is_commit_marker (logged_record crc c wal_id txn_id e) \<longleftrightarrow> (\<exists>cid. e = Commit_Entry cid)"
  by (cases e) (simp_all add: logged_record_def Let_def is_commit_marker_def PHYSICAL_INSERT_def
      PHYSICAL_DELETE_def PHYSICAL_UPDATE_def PHYSICAL_ADD_COLUMN_def COMMIT_def)

text \<open>C5. Recovery after a crash, for a log that starts in an empty directory and runs any sequence of logging and
  truncation messages, over any number of segments. Suppose that no write fails, that the messages are fewer than
  999999 and well-formed, that the ids of the records never decrease, and that the records fall into pages in a
  way the reader can follow. From whatever position it starts, the startup reader reads a subsequence of the
  records written behind that position. Only behind the highest truncated id is it a prefix of what was written
  there, and this prefix reaches at least to the last COMMIT that was acknowledged as flushed. Of the records read
  it returns those of the transactions with a COMMIT among them, and those of no transaction.\<close>

theorem crash_recovers_prefix:
  assumes "list_all msg_wf ms" "layout_run max_size ms (0, 0, 0, False) \<noteq> None" "length ms < 999999"
    and "sorted (logged_ids ms)"
  shows "\<exists>w P. then_do (create_worker crc no_failures max_size oid []) (run_worker crc no_failures ms) = Done w \<and>
    read_database_segments crc after_id (ww_dir w) = Done (committed_filter P, committed_txns P) \<and>
    subseq P (filter (\<lambda>r. after_id < rec_id r) (messages_records crc 0 ms)) \<and>
    prefix (filter (\<lambda>r. max after_id (truncated_to ms) < rec_id r) (messages_records crc 0 (durable_messages ms)))
      (filter (\<lambda>r. truncated_to ms < rec_id r) P) \<and>
    prefix (filter (\<lambda>r. truncated_to ms < rec_id r) P)
      (filter (\<lambda>r. max after_id (truncated_to ms) < rec_id r) (messages_records crc 0 ms))"
  using run_recovers [OF assms(1) _ assms(3,4)] assms(2) unfolding kept_messages_records newer_def by blast

lemma messages_record_of_commit:
  assumes "r \<in> set (messages_records crc c ms)" "is_commit_marker r"
  shows "\<exists>sync_mode wal_id commit_id. Msg_Commit (rec_transaction_id r) sync_mode wal_id commit_id \<in> set ms \<and> sync_mode \<noteq> SYNC_OFF"
  using assms(1)
proof (induction ms arbitrary: c)
  case (Cons m ms)
  show ?case
  proof (cases "r \<in> set (msg_records crc c m)")
    case True
    then show ?thesis using assms(2)
      by (cases m) (auto simp: msg_records_def split: if_splits)
  next
    case False
    then show ?thesis using Cons.IH [of "next_crc crc c m"] Cons.prems by auto
  qed
qed simp

lemma is_valid_messages_records: "r \<in> set (messages_records crc c ms) \<Longrightarrow> is_valid r"
  by (induction ms arbitrary: c) (auto simp: msg_records_def split: option.splits if_splits)

lemma durable_messages_commit:
  assumes "sync_mode \<noteq> SYNC_OFF"
  shows "\<exists>rest. durable_messages (pre @ Msg_Commit txn_id sync_mode wal_id commit_id # post) =
    pre @ Msg_Commit txn_id sync_mode wal_id commit_id # rest"
proof (induction pre)
  case Nil
  then show ?case using assms by (auto simp: durable_messages_Cons)
next
  case (Cons m pre)
  then show ?case using assms by (auto simp: durable_messages_Cons)
qed

text \<open>C4. Durability and atomicity, for a log that starts in an empty directory. Suppose that no write fails, that
  the messages are fewer than 999999 and well-formed (string and fixed-width columns, sizes within the fields of
  a record), that the ids of the records never decrease, and that the records fall into pages in a way the reader
  can follow (no page ends one spanning record and starts another, and a spanning record starts with its size
  field in one piece). When COMMIT of a transaction was answered in
  mode NORMAL or FULL, and its id lies behind every truncated id and behind the position the reader starts from,
  then after a crash at any later point the startup reader reports the transaction as committed and returns every
  record logged for it before that COMMIT, except those at or before the truncated id or that position. Every
  record the reader returns has transaction id 0 (it belongs to no transaction) or belongs to a transaction whose
  COMMIT was logged.\<close>

theorem committed_transactions_survive:
  assumes ms: "ms = pre @ Msg_Commit txn_id sync_mode wal_id commit_id # post" "sync_mode \<noteq> SYNC_OFF"
    and "list_all msg_wf ms" "layout_run max_size ms (0, 0, 0, False) \<noteq> None" "length ms < 999999"
    and "sorted (logged_ids ms)" "truncated_to ms < wal_id" "after_id < wal_id"
  shows "\<exists>w rs committed. then_do (create_worker crc no_failures max_size oid []) (run_worker crc no_failures ms) = Done w \<and>
    read_committed_records crc after_id [(db_name, ww_dir w)] = Done (rs, committed) \<and> txn_id \<in> set committed \<and>
    {r \<in> set (messages_records crc 0 pre). rec_transaction_id r = txn_id \<and> after_id < rec_id r \<and> truncated_to ms < rec_id r}
      \<subseteq> set rs \<and>
    (\<forall>r \<in> set rs. rec_transaction_id r = 0 \<or>
      (\<exists>sync_mode wal_id commit_id. Msg_Commit (rec_transaction_id r) sync_mode wal_id commit_id \<in> set ms \<and> sync_mode \<noteq> SYNC_OFF))"
proof -
  let ?cm = "Msg_Commit txn_id sync_mode wal_id commit_id" and ?keep = "filter (\<lambda>r. max after_id (truncated_to ms) < rec_id r)"
  obtain w P where w: "then_do (create_worker crc no_failures max_size oid []) (run_worker crc no_failures ms) = Done w"
    "read_database_segments crc after_id (ww_dir w) = Done (committed_filter P, committed_txns P)"
    "subseq P (kept after_id (messages_records crc 0 ms))"
    "prefix (?keep (messages_records crc 0 (durable_messages ms))) (newer (truncated_to ms) P)"
    using run_recovers [OF assms(3) _ assms(5,6)] assms(4) unfolding kept_messages_records by blast
  obtain rest where rest: "durable_messages ms = pre @ ?cm # rest" using durable_messages_commit ms by blast
  let ?c = "foldl (next_crc crc) 0 pre"
  let ?r = "logged_record crc ?c wal_id txn_id (Commit_Entry commit_id)"
  have "set (?keep (messages_records crc 0 pre)) \<union> {?r} \<subseteq> set (newer (truncated_to ms) P)"
    using set_mono_prefix [OF w(4)] ms(2) assms(7,8) by (auto simp: rest messages_records_append msg_records_def)
  then have sub: "set (?keep (messages_records crc 0 pre)) \<subseteq> set P" "?r \<in> set P" by (auto simp: newer_def)
  have t: "txn_id \<in> set (committed_txns P)"
    unfolding committed_txns_def using sub(2) by (auto intro!: image_eqI [of _ _ ?r])
  have logged: "r \<in> set (messages_records crc 0 ms)" if "r \<in> set P" for r
    using set_subseq [OF w(3)] kept_newer that by blast
  have "\<exists>sync_mode wal_id commit_id. Msg_Commit t sync_mode wal_id commit_id \<in> set ms \<and> sync_mode \<noteq> SYNC_OFF"
    if "t \<in> set (committed_txns P)" for t
    using that logged messages_record_of_commit [of _ crc 0 ms] by (fastforce simp: committed_txns_def)
  moreover have "{r \<in> set (messages_records crc 0 pre). rec_transaction_id r = txn_id \<and> after_id < rec_id r \<and>
      truncated_to ms < rec_id r} \<subseteq> set (committed_filter P)"
    using sub(1) t is_valid_messages_records by (auto simp: committed_filter_def)
  ultimately show ?thesis
    using w(1,2) t by (intro exI [of _ w] exI [of _ "sort_key rec_id (committed_filter P)"] exI [of _ "committed_txns P"])
      (auto simp: read_committed_records_def committed_filter_def)
qed

text \<open>A transaction deletes two rows and commits, which fills the only page of the first segment; a second one
  deletes a row in the next segment, the first segment is truncated, and the second transaction commits; a third
  one deletes a row and does not commit.\<close>

definition sample_messages :: "wal_message list" where
  "sample_messages =
     [Msg_Delete 20000 [1, 2] 2 7 1, Msg_Commit 7 SYNC_FULL 2 5, Msg_Delete 20000 [3] 1 8 3, Msg_Truncate 2,
      Msg_Commit 8 SYNC_FULL 4 6, Msg_Delete 20000 [4] 1 9 5]"

lemma sample_messages_run:
  "list_all msg_wf sample_messages" "layout_run 8192 sample_messages (0, 0, 0, False) \<noteq> None"
  "length sample_messages < 999999" "sorted (logged_ids sample_messages)" "truncated_to sample_messages = 2"
  by (simp_all add: sample_messages_def entry_wf_def layout_message_def layout_append_def layout_rotate_def
      layout_flush_def page_consts logged_ids_def msg_ids_def truncated_to_def)

theorem crash_recovers_prefix_witness:
  "\<exists>w P. then_do (create_worker sum_crc no_failures 8192 3 []) (run_worker sum_crc no_failures sample_messages) = Done w \<and>
    read_database_segments sum_crc 0 (ww_dir w) = Done (committed_filter P, committed_txns P) \<and>
    prefix (filter (\<lambda>r. 2 < rec_id r) (messages_records sum_crc 0 (take 5 sample_messages))) (filter (\<lambda>r. 2 < rec_id r) P) \<and>
    prefix (filter (\<lambda>r. 2 < rec_id r) P) (filter (\<lambda>r. 2 < rec_id r) (messages_records sum_crc 0 sample_messages))"
proof -
  have d: "durable_messages sample_messages = take 5 sample_messages"
    by (simp add: sample_messages_def durable_messages_def)
  have m: "max 0 2 = (2 :: nat)" by simp
  show ?thesis
    using crash_recovers_prefix [OF sample_messages_run(1-4), of sum_crc 3 0] unfolding d sample_messages_run(5) m by blast
qed

theorem committed_transactions_survive_witness:
  "\<exists>w rs committed. then_do (create_worker sum_crc no_failures 8192 3 []) (run_worker sum_crc no_failures sample_messages) = Done w \<and>
    read_committed_records sum_crc 0 [(''main'', ww_dir w)] = Done (rs, committed) \<and> 8 \<in> set committed \<and>
    {r \<in> set (messages_records sum_crc 0 (take 4 sample_messages)). rec_transaction_id r = 8 \<and> 0 < rec_id r \<and> 2 < rec_id r}
      \<subseteq> set rs \<and>
    (\<forall>r \<in> set rs. rec_transaction_id r = 0 \<or>
      (\<exists>sync_mode wal_id commit_id. Msg_Commit (rec_transaction_id r) sync_mode wal_id commit_id \<in> set sample_messages \<and>
        sync_mode \<noteq> SYNC_OFF))"
proof -
  have "sample_messages = take 4 sample_messages @ Msg_Commit 8 SYNC_FULL 4 6 # [Msg_Delete 20000 [4] 1 9 5]"
    by (simp add: sample_messages_def)
  moreover have "SYNC_FULL \<noteq> SYNC_OFF" "truncated_to sample_messages < 4" "0 < (4 :: nat)"
    by (simp_all add: sample_messages_run(5))
  ultimately have "\<exists>w rs committed. then_do (create_worker sum_crc no_failures 8192 3 []) (run_worker sum_crc no_failures sample_messages) = Done w \<and>
    read_committed_records sum_crc 0 [(''main'', ww_dir w)] = Done (rs, committed) \<and> 8 \<in> set committed \<and>
    {r \<in> set (messages_records sum_crc 0 (take 4 sample_messages)). rec_transaction_id r = 8 \<and> 0 < rec_id r \<and>
      truncated_to sample_messages < rec_id r} \<subseteq> set rs \<and>
    (\<forall>r \<in> set rs. rec_transaction_id r = 0 \<or>
      (\<exists>sync_mode wal_id commit_id. Msg_Commit (rec_transaction_id r) sync_mode wal_id commit_id \<in> set sample_messages \<and>
        sync_mode \<noteq> SYNC_OFF))"
    by (intro committed_transactions_survive [OF _ _ sample_messages_run(1-4)])
  then show ?thesis unfolding sample_messages_run(5) .
qed

text \<open>C6. Any number of crashes, from an empty directory. Suppose that no write fails, that every life of the
  database ends right after an acknowledged flush, that the messages of all lives are fewer than 999999 and
  well-formed, that the ids of the records never decrease over all lives, and that the records fall into pages in a
  way the reader can follow. Then the log of each life is appended behind that of the lives before it (also in the
  same segment). A reader that starts at any position reads a subsequence of the records of all lives behind that
  position, and it reads all of those that lie behind the highest truncated id.\<close>

theorem restarts_keep_log:
  assumes "mss \<noteq> []" "list_all life_wf mss" "layout_lives max_size mss (0, 0, 0, False) \<noteq> None"
    and "length (concat mss) < 999999" "sorted (logged_ids (concat mss))"
  shows "\<exists>dir cs P. run_lives crc max_size oid mss [] = Done dir \<and> length cs = length mss \<and> hd cs = 0 \<and>
    read_database_segments crc after_id dir = Done (committed_filter P, committed_txns P) \<and>
    subseq P (filter (\<lambda>r. after_id < rec_id r) (lives_records crc cs mss)) \<and>
    filter (\<lambda>r. truncated_to (concat mss) < rec_id r) P =
      filter (\<lambda>r. max after_id (truncated_to (concat mss)) < rec_id r) (lives_records crc cs mss)"
proof -
  obtain l where "layout_lives max_size mss (0, 0, 0, False) = Some l" using assms(3) by blast
  from lives_recover [OF assms(1,2) this assms(4,5), of crc oid] show ?thesis
    unfolding kept_lives_records newer_def by blast
qed

definition sample_lives :: "nat \<Rightarrow> wal_message list list" where
  "sample_lives txn_id =
     [[Msg_Delete 20000 [1] 1 txn_id 1, Msg_Commit (txn_id + 1) SYNC_FULL 2 5],
      [Msg_Delete 20000 [7] 1 txn_id 3, Msg_Commit txn_id SYNC_FULL 4 6]]"

lemma sample_lives_run:
  assumes "txn_id < UINT64_MAX"
  shows "sample_lives txn_id \<noteq> []" "list_all life_wf (sample_lives txn_id)"
    "layout_lives 65536 (sample_lives txn_id) (0, 0, 0, False) = Some (0, 2, 0, False)"
    "length (concat (sample_lives txn_id)) < 999999" "sorted (logged_ids (concat (sample_lives txn_id)))"
    "truncated_to (concat (sample_lives txn_id)) = 0"
  using assms by (simp_all add: sample_lives_def life_wf_def entry_wf_def layout_message_def layout_append_def
      layout_rotate_def layout_flush_def page_consts logged_ids_def msg_ids_def truncated_to_def)

theorem restarts_keep_log_witness:
  "\<exists>dir cs P. run_lives sum_crc 65536 3 (sample_lives 7) [] = Done dir \<and> length cs = 2 \<and> hd cs = 0 \<and>
    read_database_segments sum_crc 0 dir = Done (committed_filter P, committed_txns P) \<and>
    filter (\<lambda>r. 0 < rec_id r) P = filter (\<lambda>r. 0 < rec_id r) (lives_records sum_crc cs (sample_lives 7))"
proof -
  have "length (sample_lives 7) = 2" by (simp add: sample_lives_def)
  moreover have "layout_lives 65536 (sample_lives 7) (0, 0, 0, False) \<noteq> None" using sample_lives_run(3) [of 7] by simp
  ultimately show ?thesis
    using restarts_keep_log [OF sample_lives_run(1,2) [of 7] _ sample_lives_run(4,5) [of 7], of 65536 sum_crc 3 0]
      sample_lives_run(6) [of 7] by auto
qed

lemma sort_map_mono:
  assumes "\<And>i j. i \<in> set xs \<Longrightarrow> j \<in> set xs \<Longrightarrow> i < j \<Longrightarrow> f i < f j"
  shows "sort (map f xs) = map f (sort xs :: nat list)"
proof (rule properties_for_sort)
  show "mset (map f (sort xs)) = mset (map f xs)" by simp
  have "f i \<le> f j" if "i \<in> set xs" "j \<in> set xs" "i \<le> j" for i j
    using assms [OF that(1,2)] that(3) by (cases "i = j") (auto intro: less_imp_le)
  then show "sorted (map f (sort xs))"
    by (intro sorted_map_mono) (auto simp: mono_on_def)
qed

text \<open>C29. Segments are found in the order in which they were written, whatever order the directory lists them
  in, and their indices are parsed back, as long as the indices have at most six digits; the name of segment
  1000000 sorts before that of segment 999999.\<close>

theorem segments_found_in_order:
  assumes "list_all (\<lambda>i. i < 1000000) idxs" "map fst dir = map (segment_filename db) idxs"
  shows "discover_segments db dir = map (segment_filename db) (sort idxs) \<and>
    map (\<lambda>name. parse_segment_index name db) (discover_segments db dir) = sort idxs \<and>
    segment_filename db 1000000 < segment_filename db 999999"
proof -
  have b: "i < 1000000" if "i \<in> set idxs" for i using assms(1) that by (simp add: list_all_iff)
  have d: "discover_segments db dir = map (segment_filename db) (sort idxs)"
    using sort_map_mono [of idxs "segment_filename db"] segment_filename_less b
    by (simp add: discover_segments_def assms(2) filter_map comp_def)
  have "parse_segment_index (segment_filename db i) db = i" if "i \<in> set (sort idxs)" for i
    using b [of i] that by (intro parse_segment_filename) simp
  then have p: "map (\<lambda>name. parse_segment_index name db) (discover_segments db dir) = sort idxs"
    unfolding d map_map by (intro map_idI) simp
  have "char_of (48 :: nat) = CHR ''0''" "char_of (49 :: nat) = CHR ''1''" "char_of (57 :: nat) = CHR ''9''" by code_simp+
  then have "to_decimal 1000000 = ''1000000''" "to_decimal 999999 = ''999999''" by (simp_all add: to_decimal.simps)
  then have "segment_filename db 1000000 < segment_filename db 999999"
    by (simp add: segment_filename_def append_less_iff less_char_def)
  with d p show ?thesis by blast
qed

theorem segments_found_in_order_witness:
  "discover_segments ''3'' [(''wal_3_000012'', []), (''wal_3_000002'', [])] = [''wal_3_000002'', ''wal_3_000012'']"
proof -
  have n: "segment_filename ''3'' 12 = ''wal_3_000012''" "segment_filename ''3'' 2 = ''wal_3_000002''"
    by code_simp+
  have "list_all (\<lambda>i. i < 1000000) [12, 2 :: nat]"
    "map fst [(''wal_3_000012'', []), (''wal_3_000002'', [])] = map (segment_filename ''3'') [12, 2]"
    by (simp_all add: n)
  from segments_found_in_order [OF this] show ?thesis by (simp add: n)
qed

text \<open>C31. A COMMIT is acknowledged although nothing could be written: the results of the writes are not looked
  at, so on a device that accepts no byte the worker answers a synchronous COMMIT with its id, and the log
  holds nothing of it.\<close>

theorem commit_acknowledged_unwritten:
  "\<exists>w w'. create_worker crc (\<lambda>_ _. Some 0) (Suc n) oid [] = Done w \<and>
    behavior crc (\<lambda>_ _. Some 0) (Msg_Commit txn_id SYNC_FULL wal_id commit_id) w = Done (w', Reply_Id wal_id) \<and>
    read_committed_records crc 0 [(db_name, ww_dir w')] = Done ([], [])"
proof -
  let ?io = "\<lambda>_ _. Some 0 :: nat option" and ?name = "segment_filename (to_decimal oid) 0"
  let ?pw = "open_writer (\<lambda>_. Some 0) (name_bytes (to_decimal oid)) 0 []"
  let ?w = "\<lparr>ww_dir = [(?name, [])], ww_dir_name = to_decimal oid, ww_max_segment_size = Suc n, ww_id = 0,
    ww_last_crc = 0, ww_segment_index = 0, ww_writer = Some (?name, ?pw)\<rparr>"
  have pw: "pw_file ?pw = []" "pw_file_size ?pw = 0" "page_space ?pw = PAGE_DATA_SIZE"
    by (simp_all add: open_writer_def write_file_header_def file_write_def start_new_page_def bsplice_def page_space_def Let_def)
  have c: "create_worker crc ?io (Suc n) oid [] = Done ?w"
    using pw(1) by (simp add: create_worker_def recover_from_disk_def discover_segments_def ensure_writer_def open_segment_def
        store_writer_def file_of_def Let_def)
  obtain bytes c' where e: "encode_commit crc [] 0 wal_id txn_id commit_id = (bytes, c')" "length bytes = 37"
    using length_entry_frame [of crc 0 wal_id txn_id "Commit_Entry commit_id"]
    by (simp add: encode_commit_def Let_def commit_body_def)
  let ?pw1 = "fst (append_record crc (\<lambda>_. Some 0) bytes wal_id ?pw)"
  have a: "pw_file ?pw1 = []" "pw_file_size ?pw1 = 0"
    using e(2) pw by (auto simp: append_record_def append_loop.simps append_fits_def page_space_def PAGE_DATA_SIZE_def
        PAGE_SIZE_def PAGE_HEADER_SIZE_def Let_def)
  have f: "pw_file (fst (flush crc (\<lambda>_. Some 0) ?pw1)) = []"
    using a by (simp add: flush_def flush_page_def file_write_def bsplice_def Let_def)
  obtain w' where b: "behavior crc ?io (Msg_Commit txn_id SYNC_FULL wal_id commit_id) ?w = Done (w', Reply_Id wal_id)"
    "ww_dir w' = [(?name, [])]"
    using e(1) a(1) f by (simp add: reply_id_def worker_commit_txn_def append_to_segment_def ensure_writer_def file_of_def
        flush_segment_def store_writer_def Let_def)
  have "read_committed_records crc 0 [(db_name, ww_dir w')] = Done ([], [])"
    by (simp add: b(2) read_committed_records_def read_database_segments_def read_all_records_def file_of_def
        page_count_def verify_chain_def committed_filter_def committed_txns_def empty_reader_def)
  with c b(1) show ?thesis by blast
qed

end
