(* ===== verification/Wal_Manager.thy ===== *)
theory Wal_Manager
  imports Wal_Recovery
begin

text \<open>
  The log manager, \<open>services/wal/manager_wal_replicate.cpp\<close>: it numbers the records of all databases,
  forwards each message to the worker of the database, merges their records, decides when to checkpoint,
  and truncates the logs behind a checkpoint, but never behind the start of an index build in progress.

  The replies of the other managers (the disk manager's checkpoint and the dispatcher's watermark) are
  arguments. A manager holds its workers in the order they were created; directories below the log path
  without a worker are kept aside.
\<close>

section \<open>State\<close>

record wal_config =
  cfg_on :: bool
  cfg_path_empty :: bool
  cfg_max_segment_size :: nat
  cfg_auto_checkpoint_threshold :: nat

record wal_manager =
  wm_config :: wal_config
  wm_enabled :: bool
  wm_global_id :: nat
  wm_bytes_since_checkpoint :: nat
  wm_checkpoint_in_flight :: bool
  wm_workers :: "(nat \<times> wal_worker) list"
  wm_active_builds :: "nat list"
  wm_other_dirs :: "(string \<times> directory) list"

datatype wal_self_message = Run_Auto_Checkpoint

section \<open>Workers and ids\<close>

definition get_or_create_worker ::
  "(byte list \<Rightarrow> 32 word) \<Rightarrow> (string \<Rightarrow> io_env) \<Rightarrow> nat \<Rightarrow> directory \<Rightarrow> wal_manager \<Rightarrow> (wal_worker \<times> wal_manager) outcome" where
  "get_or_create_worker crc io database_oid dir m =
     (case map_of (wm_workers m) database_oid of
        Some w \<Rightarrow> Done (w, m)
      | None \<Rightarrow>
          then_do (create_worker crc io (cfg_max_segment_size (wm_config m)) database_oid dir) (\<lambda>w.
            Done (w, m\<lparr>wm_workers := wm_workers m @ [(database_oid, w)]\<rparr>)))"

definition next_wal_id :: "wal_manager \<Rightarrow> nat \<times> wal_manager" where
  "next_wal_id m = (let i = wrap64 (wm_global_id m + 1) in (i, m\<lparr>wm_global_id := i\<rparr>))"

definition set_worker :: "nat \<Rightarrow> wal_worker \<Rightarrow> wal_manager \<Rightarrow> wal_manager" where
  "set_worker database_oid w m = m\<lparr>wm_workers := AList.update database_oid w (wm_workers m)\<rparr>"

text \<open>The constructor: the databases are the numeric directory names; every regular file in them is read to
  find the highest id.\<close>

fun scan_files :: "(byte list \<Rightarrow> 32 word) \<Rightarrow> directory \<Rightarrow> nat \<Rightarrow> nat outcome" where
  "scan_files crc [] max_id = Done max_id"
| "scan_files crc ((name, file) # files) max_id =
     then_do (read_all_records crc file 0) (\<lambda>rs.
       scan_files crc files (foldl (\<lambda>i r. if is_valid r \<and> rec_id r > i then rec_id r else i) max_id rs))"

definition dir_of :: "(string \<times> directory) list \<Rightarrow> string \<Rightarrow> directory" where
  "dir_of dbs name = (case map_of dbs name of None \<Rightarrow> [] | Some dir \<Rightarrow> dir)"

fun recover_databases ::
  "(byte list \<Rightarrow> 32 word) \<Rightarrow> (string \<Rightarrow> io_env) \<Rightarrow> (string \<times> directory) list \<Rightarrow> (string \<times> directory) list \<Rightarrow> nat \<Rightarrow>
   wal_manager \<Rightarrow> (nat \<times> wal_manager) outcome" where
  "recover_databases crc io all [] max_id m = Done (max_id, m)"
| "recover_databases crc io all ((db_dir_name, dir) # dbs) max_id m =
     (case stoul db_dir_name of
        None \<Rightarrow> recover_databases crc io all dbs max_id m
      | Some v \<Rightarrow>
          let db_oid = wrap32 v
          in then_do (scan_files crc dir max_id) (\<lambda>max_id.
             then_do (get_or_create_worker crc io db_oid (dir_of all (to_decimal db_oid)) m) (\<lambda>(w, m).
               recover_databases crc io all dbs max_id m)))"

definition create_manager ::
  "(byte list \<Rightarrow> 32 word) \<Rightarrow> (string \<Rightarrow> io_env) \<Rightarrow> wal_config \<Rightarrow> (string \<times> directory) list \<Rightarrow> wal_manager outcome" where
  "create_manager crc io config dbs =
     (let m = \<lparr>wm_config = config, wm_enabled = cfg_on config, wm_global_id = 0, wm_bytes_since_checkpoint = 0,
               wm_checkpoint_in_flight = False, wm_workers = [], wm_active_builds = [], wm_other_dirs = []\<rparr>
      in if wm_enabled m \<and> \<not> cfg_path_empty config
         then then_do (recover_databases crc io dbs dbs 0 m) (\<lambda>(max_id, m).
                Done (m\<lparr>wm_global_id := max_id,
                        wm_other_dirs := filter (\<lambda>(name, dir). name \<notin> to_decimal ` fst ` set (wm_workers m)) dbs\<rparr>))
         else Done (m\<lparr>wm_other_dirs := dbs\<rparr>))"

section \<open>Writing\<close>

text \<open>What the write handlers share: the worker, the next id, and the worker's answer.\<close>

definition forward ::
  "(byte list \<Rightarrow> 32 word) \<Rightarrow> (string \<Rightarrow> io_env) \<Rightarrow> nat \<Rightarrow> (nat \<Rightarrow> wal_worker \<Rightarrow> (wal_worker \<times> nat) outcome) \<Rightarrow> wal_manager \<Rightarrow>
   (wal_manager \<times> nat) outcome" where
  "forward crc io database_oid send m =
     (if \<not> wm_enabled m then Done (m, 0)
      else then_do (get_or_create_worker crc io database_oid (dir_of (wm_other_dirs m) (to_decimal database_oid)) m) (\<lambda>(w, m).
             let (wal_id, m) = next_wal_id m
             in then_do (send wal_id w) (\<lambda>(w, result). Done (set_worker database_oid w m, result))))"

definition mgr_write_physical_insert ::
  "(byte list \<Rightarrow> 32 word) \<Rightarrow> (string \<Rightarrow> io_env) \<Rightarrow> nat \<Rightarrow> data_chunk \<Rightarrow> nat \<Rightarrow> nat \<Rightarrow> nat \<Rightarrow> nat \<Rightarrow> wal_manager \<Rightarrow>
   (wal_manager \<times> nat) outcome" where
  "mgr_write_physical_insert crc io table_oid chunk row_start row_count txn_id database_oid =
     forward crc io database_oid (write_physical_insert crc io table_oid chunk row_start row_count txn_id)"

definition mgr_write_physical_delete ::
  "(byte list \<Rightarrow> 32 word) \<Rightarrow> (string \<Rightarrow> io_env) \<Rightarrow> nat \<Rightarrow> nat list \<Rightarrow> nat \<Rightarrow> nat \<Rightarrow> nat \<Rightarrow> wal_manager \<Rightarrow>
   (wal_manager \<times> nat) outcome" where
  "mgr_write_physical_delete crc io table_oid row_ids cnt txn_id database_oid =
     forward crc io database_oid (write_physical_delete crc io table_oid row_ids cnt txn_id)"

definition mgr_write_physical_update ::
  "(byte list \<Rightarrow> 32 word) \<Rightarrow> (string \<Rightarrow> io_env) \<Rightarrow> nat \<Rightarrow> nat list \<Rightarrow> data_chunk \<Rightarrow> nat \<Rightarrow> nat \<Rightarrow> nat \<Rightarrow> wal_manager \<Rightarrow>
   (wal_manager \<times> nat) outcome" where
  "mgr_write_physical_update crc io table_oid row_ids new_data cnt txn_id database_oid =
     forward crc io database_oid (write_physical_update crc io table_oid row_ids new_data cnt txn_id)"

definition mgr_write_physical_add_column ::
  "(byte list \<Rightarrow> 32 word) \<Rightarrow> (string \<Rightarrow> io_env) \<Rightarrow> nat \<Rightarrow> data_chunk \<Rightarrow> nat \<Rightarrow> nat \<Rightarrow> nat \<Rightarrow> wal_manager \<Rightarrow>
   (wal_manager \<times> nat) outcome" where
  "mgr_write_physical_add_column crc io table_oid schema_chunk column_count txn_id database_oid =
     forward crc io database_oid (write_physical_add_column crc io table_oid schema_chunk column_count txn_id)"

definition total_wal_bytes :: "wal_manager \<Rightarrow> nat" where
  "total_wal_bytes m =
     (if \<not> wm_enabled m \<or> cfg_path_empty (wm_config m) then 0
      else sum_list (map (\<lambda>(name, file). length file)
             (concat (map (ww_dir \<circ> snd) (wm_workers m)) @ concat (map snd (wm_other_dirs m)))))"

definition needs_auto_checkpoint :: "wal_manager \<Rightarrow> bool" where
  "needs_auto_checkpoint m \<longleftrightarrow> cfg_on (wm_config m) \<and> cfg_auto_checkpoint_threshold (wm_config m) > 0 \<and>
     wm_bytes_since_checkpoint m \<ge> cfg_auto_checkpoint_threshold (wm_config m)"

definition reset_auto_checkpoint_bytes :: "wal_manager \<Rightarrow> wal_manager" where
  "reset_auto_checkpoint_bytes m = m\<lparr>wm_bytes_since_checkpoint := 0\<rparr>"

definition mgr_commit_txn ::
  "(byte list \<Rightarrow> 32 word) \<Rightarrow> (string \<Rightarrow> io_env) \<Rightarrow> nat \<Rightarrow> wal_sync_mode \<Rightarrow> nat \<Rightarrow> nat \<Rightarrow> wal_manager \<Rightarrow>
   (wal_manager \<times> nat \<times> wal_self_message list) outcome" where
  "mgr_commit_txn crc io txn_id sync_mode database_oid commit_id m =
     (if \<not> wm_enabled m then Done (m, 0, [])
      else then_do (forward crc io database_oid
                     (\<lambda>wal_id w. Done (worker_commit_txn crc io txn_id sync_mode wal_id commit_id w)) m) (\<lambda>(m, result).
             let m = m\<lparr>wm_bytes_since_checkpoint := total_wal_bytes m\<rparr>
             in if needs_auto_checkpoint m \<and> \<not> wm_checkpoint_in_flight m
                then Done (reset_auto_checkpoint_bytes (m\<lparr>wm_checkpoint_in_flight := True\<rparr>), result, [Run_Auto_Checkpoint])
                else Done (m, result, [])))"

section \<open>Reading\<close>

fun load_workers ::
  "(byte list \<Rightarrow> 32 word) \<Rightarrow> (string \<Rightarrow> io_env) \<Rightarrow> nat \<Rightarrow> (nat \<times> wal_worker) list \<Rightarrow>
   ((nat \<times> wal_worker) list \<times> record_t list) outcome" where
  "load_workers crc io wal_id [] = Done ([], [])"
| "load_workers crc io wal_id ((db_oid, w) # ws) =
     then_do (load crc io wal_id w) (\<lambda>(w, records).
     then_do (load_workers crc io wal_id ws) (\<lambda>(ws, rest). Done ((db_oid, w) # ws, records @ rest)))"

definition mgr_load ::
  "(byte list \<Rightarrow> 32 word) \<Rightarrow> (string \<Rightarrow> io_env) \<Rightarrow> nat \<Rightarrow> wal_manager \<Rightarrow> (wal_manager \<times> record_t list) outcome" where
  "mgr_load crc io wal_id m =
     (if \<not> wm_enabled m then Done (m, [])
      else then_do (load_workers crc io wal_id (wm_workers m)) (\<lambda>(ws, merged).
             Done (m\<lparr>wm_workers := ws\<rparr>, sort_key rec_id merged)))"

definition mgr_current_wal_id :: "wal_manager \<Rightarrow> nat" where
  "mgr_current_wal_id m =
     (if \<not> wm_enabled m then 0
      else foldl (\<lambda>max_id (db_oid, w). if ww_id w > max_id then ww_id w else max_id) 0 (wm_workers m))"

section \<open>Retention and checkpoints\<close>

definition register_active_build :: "nat \<Rightarrow> wal_manager \<Rightarrow> wal_manager" where
  "register_active_build build_start_wal_position m =
     m\<lparr>wm_active_builds := set_insert build_start_wal_position (wm_active_builds m)\<rparr>"

text \<open>Removing a position that is not registered aborts the process.\<close>

definition unregister_active_build :: "nat \<Rightarrow> wal_manager \<Rightarrow> wal_manager outcome" where
  "unregister_active_build build_start_wal_position m =
     (if build_start_wal_position \<in> set (wm_active_builds m)
      then Done (m\<lparr>wm_active_builds := set_erase build_start_wal_position (wm_active_builds m)\<rparr>)
      else Thrown)"

definition clamp_checkpoint :: "nat list \<Rightarrow> nat \<Rightarrow> nat" where
  "clamp_checkpoint builds checkpoint_wal_id =
     (if builds \<noteq> [] \<and> hd builds < checkpoint_wal_id then hd builds else checkpoint_wal_id)"

definition mgr_truncate_before :: "nat \<Rightarrow> wal_manager \<Rightarrow> wal_manager" where
  "mgr_truncate_before checkpoint_wal_id m =
     (if \<not> wm_enabled m then m
      else m\<lparr>wm_workers := map (\<lambda>(db_oid, w).
               (db_oid, worker_truncate_before (clamp_checkpoint (wm_active_builds m) checkpoint_wal_id) w)) (wm_workers m)\<rparr>)"

text \<open>The checkpoint runs in two parts, with other messages in between: it sends the current id to the disk
  manager, and works with the answer when it arrives; \<open>None\<close> when there is no disk manager. The flush of the
  indexes does not touch the log.\<close>

definition auto_checkpoint_request :: "wal_manager \<Rightarrow> nat" where
  "auto_checkpoint_request m = wm_global_id m"

definition auto_checkpoint_reply :: "nat option \<Rightarrow> wal_manager \<Rightarrow> wal_manager" where
  "auto_checkpoint_reply checkpoint m =
     (case checkpoint of
        None \<Rightarrow> m\<lparr>wm_checkpoint_in_flight := False\<rparr>
      | Some checkpoint_wal_id \<Rightarrow>
          let m = (if checkpoint_wal_id > 0 then mgr_truncate_before checkpoint_wal_id m else m)
          in m\<lparr>wm_checkpoint_in_flight := False\<rparr>)"

section \<open>The mailbox\<close>

text \<open>The message \<open>Mgr_Checkpoint_Done\<close> is the second part of \<open>run_auto_checkpoint\<close>, with the disk manager's answer.\<close>

datatype mgr_message =
    Mgr_Load nat
  | Mgr_Commit nat wal_sync_mode nat nat
  | Mgr_Truncate nat
  | Mgr_Current_Id
  | Mgr_Checkpoint_Done "nat option"
  | Mgr_Insert nat data_chunk nat nat nat nat
  | Mgr_Delete nat "nat list" nat nat nat
  | Mgr_Update nat "nat list" data_chunk nat nat nat
  | Mgr_Add_Column nat data_chunk nat nat nat
  | Mgr_Register nat
  | Mgr_Unregister nat

definition reply_write ::
  "(wal_manager \<times> nat) outcome \<Rightarrow> (wal_manager \<times> wal_reply \<times> wal_self_message list) outcome" where
  "reply_write r = then_do r (\<lambda>(m, wal_id). Done (m, Reply_Id wal_id, []))"

fun mgr_behavior ::
  "(byte list \<Rightarrow> 32 word) \<Rightarrow> (string \<Rightarrow> io_env) \<Rightarrow> mgr_message \<Rightarrow> wal_manager \<Rightarrow>
   (wal_manager \<times> wal_reply \<times> wal_self_message list) outcome" where
  "mgr_behavior crc io (Mgr_Load wal_id) m =
     then_do (mgr_load crc io wal_id m) (\<lambda>(m, rs). Done (m, Reply_Records rs, []))"
| "mgr_behavior crc io (Mgr_Commit txn_id sync_mode database_oid commit_id) m =
     then_do (mgr_commit_txn crc io txn_id sync_mode database_oid commit_id m) (\<lambda>(m, wal_id, sent). Done (m, Reply_Id wal_id, sent))"
| "mgr_behavior crc io (Mgr_Truncate checkpoint_wal_id) m = Done (mgr_truncate_before checkpoint_wal_id m, Reply_Void, [])"
| "mgr_behavior crc io Mgr_Current_Id m = Done (m, Reply_Id (mgr_current_wal_id m), [])"
| "mgr_behavior crc io (Mgr_Checkpoint_Done checkpoint) m = Done (auto_checkpoint_reply checkpoint m, Reply_Void, [])"
| "mgr_behavior crc io (Mgr_Insert table_oid chunk row_start row_count txn_id database_oid) m =
     reply_write (mgr_write_physical_insert crc io table_oid chunk row_start row_count txn_id database_oid m)"
| "mgr_behavior crc io (Mgr_Delete table_oid row_ids cnt txn_id database_oid) m =
     reply_write (mgr_write_physical_delete crc io table_oid row_ids cnt txn_id database_oid m)"
| "mgr_behavior crc io (Mgr_Update table_oid row_ids new_data cnt txn_id database_oid) m =
     reply_write (mgr_write_physical_update crc io table_oid row_ids new_data cnt txn_id database_oid m)"
| "mgr_behavior crc io (Mgr_Add_Column table_oid schema_chunk column_count txn_id database_oid) m =
     reply_write (mgr_write_physical_add_column crc io table_oid schema_chunk column_count txn_id database_oid m)"
| "mgr_behavior crc io (Mgr_Register build_start_wal_position) m =
     Done (register_active_build build_start_wal_position m, Reply_Void, [])"
| "mgr_behavior crc io (Mgr_Unregister build_start_wal_position) m =
     then_do (unregister_active_build build_start_wal_position m) (\<lambda>m. Done (m, Reply_Void, []))"

fun run_manager ::
  "(byte list \<Rightarrow> 32 word) \<Rightarrow> (string \<Rightarrow> io_env) \<Rightarrow> mgr_message list \<Rightarrow> wal_manager \<Rightarrow> wal_manager outcome" where
  "run_manager crc io [] m = Done m"
| "run_manager crc io (ev # evs) m = then_do (mgr_behavior crc io ev m) (\<lambda>(m, reply, sent). run_manager crc io evs m)"

section \<open>The manager as a family of logs\<close>

text \<open>What the manager is to its clients: one counter, the positions of the builds in progress, and for each
  database with a log the messages its worker has received.\<close>

record log_family =
  lf_last_id :: nat
  lf_builds :: "nat list"
  lf_logs :: "nat \<Rightarrow> wal_message list option"

definition family_init :: log_family where
  "family_init = \<lparr>lf_last_id = 0, lf_builds = [], lf_logs = (\<lambda>_. None)\<rparr>"

definition family_write :: "nat \<Rightarrow> (nat \<Rightarrow> wal_message) \<Rightarrow> log_family \<Rightarrow> log_family" where
  "family_write oid msg s =
     (let i = wrap64 (lf_last_id s + 1);
          old = (case lf_logs s oid of None \<Rightarrow> [] | Some ms \<Rightarrow> ms)
      in s\<lparr>lf_last_id := i, lf_logs := (lf_logs s)(oid := Some (old @ [msg i]))\<rparr>)"

definition family_tell :: "wal_message \<Rightarrow> log_family \<Rightarrow> log_family" where
  "family_tell msg s = s\<lparr>lf_logs := (\<lambda>oid. map_option (\<lambda>ms. ms @ [msg]) (lf_logs s oid))\<rparr>"

definition family_truncate :: "nat \<Rightarrow> log_family \<Rightarrow> log_family" where
  "family_truncate c s = family_tell (Msg_Truncate (clamp_checkpoint (lf_builds s) c)) s"

fun family_step :: "mgr_message \<Rightarrow> log_family \<Rightarrow> log_family option" where
  "family_step (Mgr_Load a) s = Some (family_tell (Msg_Load a) s)"
| "family_step (Mgr_Commit txn_id sync_mode oid commit_id) s =
     Some (family_write oid (\<lambda>i. Msg_Commit txn_id sync_mode i commit_id) s)"
| "family_step (Mgr_Truncate c) s = Some (family_truncate c s)"
| "family_step Mgr_Current_Id s = Some s"
| "family_step (Mgr_Checkpoint_Done None) s = Some s"
| "family_step (Mgr_Checkpoint_Done (Some c)) s = Some (if c > 0 then family_truncate c s else s)"
| "family_step (Mgr_Insert table_oid chunk row_start row_count txn_id oid) s =
     Some (family_write oid (Msg_Insert table_oid chunk row_start row_count txn_id) s)"
| "family_step (Mgr_Delete table_oid row_ids cnt txn_id oid) s =
     Some (family_write oid (Msg_Delete table_oid row_ids cnt txn_id) s)"
| "family_step (Mgr_Update table_oid row_ids new_data cnt txn_id oid) s =
     Some (family_write oid (Msg_Update table_oid row_ids new_data cnt txn_id) s)"
| "family_step (Mgr_Add_Column table_oid schema_chunk column_count txn_id oid) s =
     Some (family_write oid (Msg_Add_Column table_oid schema_chunk column_count txn_id) s)"
| "family_step (Mgr_Register p) s = Some (s\<lparr>lf_builds := set_insert p (lf_builds s)\<rparr>)"
| "family_step (Mgr_Unregister p) s =
     (if p \<in> set (lf_builds s) then Some (s\<lparr>lf_builds := set_erase p (lf_builds s)\<rparr>) else None)"

fun family_run :: "mgr_message list \<Rightarrow> log_family \<Rightarrow> log_family option" where
  "family_run [] s = Some s"
| "family_run (ev # evs) s = (case family_step ev s of None \<Rightarrow> None | Some s' \<Rightarrow> family_run evs s')"

text \<open>The worker of a database is what a log of its own would be after the messages of that database.\<close>

definition own_log ::
  "(byte list \<Rightarrow> 32 word) \<Rightarrow> (string \<Rightarrow> io_env) \<Rightarrow> nat \<Rightarrow> nat \<Rightarrow> wal_message list \<Rightarrow> wal_worker outcome" where
  "own_log crc io max_size oid ms = then_do (create_worker crc io max_size oid []) (run_worker crc io ms)"

definition manages ::
  "(byte list \<Rightarrow> 32 word) \<Rightarrow> (string \<Rightarrow> io_env) \<Rightarrow> nat \<Rightarrow> log_family \<Rightarrow> wal_manager \<Rightarrow> bool" where
  "manages crc io max_size s m \<longleftrightarrow> wm_enabled m \<and> cfg_max_segment_size (wm_config m) = max_size \<and> wm_global_id m = lf_last_id s \<and> wm_active_builds m = lf_builds s \<and>
     distinct (map fst (wm_workers m)) \<and> (\<forall>oid. dir_of (wm_other_dirs m) (to_decimal oid) = []) \<and>
     (\<forall>oid. map_option Done (map_of (wm_workers m) oid) =
        map_option (own_log crc io (cfg_max_segment_size (wm_config m)) oid) (lf_logs s oid))"

lemma own_log_snoc:
  assumes "own_log crc io max_size oid ms = Done w"
  shows "own_log crc io max_size oid (ms @ [m]) = then_do (behavior crc io m w) (\<lambda>(w, reply). Done w)"
proof -
  obtain w0 where w0: "create_worker crc io max_size oid [] = Done w0"
    using assms by (cases "create_worker crc io max_size oid []") (auto simp: own_log_def)
  then have r: "run_worker crc io ms w0 = Done w" using assms by (simp add: own_log_def)
  show ?thesis by (simp add: own_log_def w0 r run_worker_append)
qed

lemma manages_cong:
  assumes "wm_enabled m' = wm_enabled m" "wm_config m' = wm_config m" "wm_global_id m' = wm_global_id m"
    "wm_active_builds m' = wm_active_builds m" "wm_workers m' = wm_workers m" "wm_other_dirs m' = wm_other_dirs m"
  shows "manages crc io max_size s m' = manages crc io max_size s m"
  using assms by (simp add: manages_def)

lemma manages_counters [simp]:
  "manages crc io max_size s (m\<lparr>wm_bytes_since_checkpoint := n\<rparr>) = manages crc io max_size s m"
  "manages crc io max_size s (m\<lparr>wm_checkpoint_in_flight := b\<rparr>) = manages crc io max_size s m"
  by (simp_all add: manages_def)

text \<open>Every worker is sent the same message.\<close>

lemma map_of_map_snd: "map_of (map (\<lambda>(k, v). (k, f v)) xs) k = map_option f (map_of xs k)"
  by (induction xs) auto

lemma manages_tell:
  assumes m: "manages crc io max_size s m"
    and ws: "list_all2 (\<lambda>(oid, w) (oid', w'). oid' = oid \<and> (\<exists>reply. behavior crc io msg w = Done (w', reply))) (wm_workers m) ws"
  shows "manages crc io max_size (family_tell msg s) (m\<lparr>wm_workers := ws\<rparr>)"
proof -
  have fst: "map fst ws = map fst (wm_workers m)" using ws by (induction rule: list_all2_induct) auto
  have told: "rel_option (\<lambda>w w'. \<exists>reply. behavior crc io msg w = Done (w', reply)) (map_of (wm_workers m) oid) (map_of ws oid)" for oid
    using ws by (induction rule: list_all2_induct) auto
  have "map_option Done (map_of ws oid) =
      map_option (own_log crc io (cfg_max_segment_size (wm_config m)) oid) (lf_logs (family_tell msg s) oid)" for oid
  proof -
    have e: "map_option Done (map_of (wm_workers m) oid) =
        map_option (own_log crc io (cfg_max_segment_size (wm_config m)) oid) (lf_logs s oid)"
      using m by (simp add: manages_def)
    show ?thesis
    proof (cases "lf_logs s oid")
      case None
      then show ?thesis using e told [of oid] by (auto simp: family_tell_def)
    next
      case (Some ms)
      then obtain w where w: "map_of (wm_workers m) oid = Some w" "own_log crc io (cfg_max_segment_size (wm_config m)) oid ms = Done w"
        using e by auto
      obtain w' reply where w': "map_of ws oid = Some w'" "behavior crc io msg w = Done (w', reply)"
        using told [of oid] w(1) by (cases "map_of ws oid") auto
      then show ?thesis using Some own_log_snoc [OF w(2), of msg] by (simp add: family_tell_def)
    qed
  qed
  then show ?thesis using m fst by (simp add: manages_def family_tell_def)
qed

lemma load_workers_tell:
  "load_workers crc io a xs = Done (ws, rs) \<Longrightarrow>
     list_all2 (\<lambda>(oid, w) (oid', w'). oid' = oid \<and> (\<exists>reply. behavior crc io (Msg_Load a) w = Done (w', reply))) xs ws"
proof (induction xs arbitrary: ws rs)
  case (Cons x xs)
  obtain oid w where x: "x = (oid, w)" by fastforce
  then show ?case using Cons
    by (cases "load crc io a w"; cases "load_workers crc io a xs") auto
qed simp

lemma manages_truncate:
  assumes "manages crc io max_size s m"
  shows "manages crc io max_size (family_truncate c s) (mgr_truncate_before c m)"
proof -
  let ?c = "clamp_checkpoint (wm_active_builds m) c"
  let ?ws = "map (\<lambda>(oid, w). (oid, worker_truncate_before ?c w)) (wm_workers m)"
  have "list_all2 (\<lambda>(oid, w) (oid', w'). oid' = oid \<and> (\<exists>reply. behavior crc io (Msg_Truncate ?c) w = Done (w', reply)))
      (wm_workers m) ?ws"
    by (simp add: list_all2_map2 list_all2_same case_prod_unfold)
  moreover have "mgr_truncate_before c m = m\<lparr>wm_workers := ?ws\<rparr>" "wm_active_builds m = lf_builds s"
    using assms by (simp_all add: manages_def mgr_truncate_before_def)
  ultimately show ?thesis using manages_tell [OF assms] by (simp add: family_truncate_def)
qed

lemma manages_forward:
  assumes m: "manages crc io max_size s m" and send: "\<And>wal_id w. reply_id (send wal_id w) = behavior crc io (msg wal_id) w"
    and f: "forward crc io oid send m = Done (m', result)"
  shows "manages crc io max_size (family_write oid msg s) m'"
proof -
  let ?i = "wrap64 (lf_last_id s + 1)" and ?max = "cfg_max_segment_size (wm_config m)"
  let ?old = "case lf_logs s oid of None \<Rightarrow> [] | Some ms \<Rightarrow> ms"
  have en: "wm_enabled m" "wm_global_id m = lf_last_id s" "dir_of (wm_other_dirs m) (to_decimal oid) = []"
    using m by (simp_all add: manages_def)
  have logs: "map_option Done (map_of (wm_workers m) oid) = map_option (own_log crc io ?max oid) (lf_logs s oid)" for oid
    using m by (simp add: manages_def)
  obtain w ws where w: "get_or_create_worker crc io oid [] m = Done (w, m\<lparr>wm_workers := ws\<rparr>)" "own_log crc io ?max oid ?old = Done w"
    "ws = (if map_of (wm_workers m) oid = None then wm_workers m @ [(oid, w)] else wm_workers m)"
  proof (cases "map_of (wm_workers m) oid")
    case None
    then have n: "lf_logs s oid = None" using logs [of oid] by simp
    obtain w where c: "create_worker crc io ?max oid [] = Done w"
      using f en None by (cases "create_worker crc io ?max oid []") (auto simp: forward_def get_or_create_worker_def)
    then show ?thesis using that [of w "wm_workers m @ [(oid, w)]"] None n by (simp add: get_or_create_worker_def own_log_def)
  next
    case (Some w)
    then obtain ms where "lf_logs s oid = Some ms" "own_log crc io ?max oid ms = Done w"
      using logs [of oid] by (cases "lf_logs s oid") auto
    then show ?thesis using that [of w "wm_workers m"] Some by (simp add: get_or_create_worker_def)
  qed
  obtain w' where w': "send ?i w = Done (w', result)" "m' = m\<lparr>wm_global_id := ?i, wm_workers := AList.update oid w' ws\<rparr>"
    using f en w(1) by (cases "send ?i w") (auto simp: forward_def next_wal_id_def set_worker_def Let_def)
  have "own_log crc io ?max oid (?old @ [msg ?i]) = Done w'"
    using own_log_snoc [OF w(2), of "msg ?i"] send [of ?i w, symmetric] w'(1) by (simp add: reply_id_def)
  moreover have "map_of ws oid' = map_of (wm_workers m) oid'" if "oid' \<noteq> oid" for oid'
    using that by (auto simp: w(3) map_add_def split: option.split)
  ultimately have "map_option Done (map_of (AList.update oid w' ws) oid') =
      map_option (own_log crc io ?max oid') (lf_logs (family_write oid msg s) oid')" for oid'
    using logs [of oid'] by (auto simp: update_conv' family_write_def Let_def)
  moreover have "distinct (map fst (AList.update oid w' ws))"
    using m w(3) by (auto simp: manages_def map_of_eq_None_iff intro!: distinct_update)
  ultimately show ?thesis using m unfolding w'(2) by (simp add: manages_def family_write_def Let_def)
qed

lemma behavior_sends:
  "reply_id (write_physical_insert crc io table_oid chunk row_start row_count txn_id wal_id w) =
     behavior crc io (Msg_Insert table_oid chunk row_start row_count txn_id wal_id) w"
  "reply_id (write_physical_delete crc io table_oid row_ids cnt txn_id wal_id w) =
     behavior crc io (Msg_Delete table_oid row_ids cnt txn_id wal_id) w"
  "reply_id (write_physical_update crc io table_oid row_ids chunk cnt txn_id wal_id w) =
     behavior crc io (Msg_Update table_oid row_ids chunk cnt txn_id wal_id) w"
  "reply_id (write_physical_add_column crc io table_oid chunk column_count txn_id wal_id w) =
     behavior crc io (Msg_Add_Column table_oid chunk column_count txn_id wal_id) w"
  "reply_id (Done (worker_commit_txn crc io txn_id sync_mode wal_id commit_id w)) =
     behavior crc io (Msg_Commit txn_id sync_mode wal_id commit_id) w"
  by simp_all

lemma reply_write_Done:
  "reply_write r = Done (m, reply, sent) \<Longrightarrow> \<exists>i. r = Done (m, i)"
  by (cases r) (auto simp: reply_write_def)

lemma manages_step:
  assumes m: "manages crc io max_size s m" and b: "mgr_behavior crc io ev m = Done (m', reply, sent)"
  shows "\<exists>s'. family_step ev s = Some s' \<and> manages crc io max_size s' m'"
proof (cases ev)
  case (Mgr_Load a)
  then obtain ws rs where "load_workers crc io a (wm_workers m) = Done (ws, rs)" "m' = m\<lparr>wm_workers := ws\<rparr>"
    using b m by (cases "load_workers crc io a (wm_workers m)") (auto simp: mgr_load_def manages_def)
  then show ?thesis using Mgr_Load manages_tell [OF m load_workers_tell] by simp
next
  case (Mgr_Commit txn_id sync_mode oid commit_id)
  let ?send = "\<lambda>wal_id w. Done (worker_commit_txn crc io txn_id sync_mode wal_id commit_id w)"
  have en: "wm_enabled m" using m by (simp add: manages_def)
  obtain m1 i where f: "forward crc io oid ?send m = Done (m1, i)"
    using b en Mgr_Commit by (cases "forward crc io oid ?send m") (auto simp: mgr_commit_txn_def)
  have "manages crc io max_size (family_write oid (\<lambda>i. Msg_Commit txn_id sync_mode i commit_id) s) m1"
    by (rule manages_forward [OF m behavior_sends(5) f])
  moreover have "manages crc io max_size s' m' = manages crc io max_size s' m1" for s'
    using b en Mgr_Commit f by (auto simp: mgr_commit_txn_def reset_auto_checkpoint_bytes_def Let_def split: if_splits)
  ultimately show ?thesis using Mgr_Commit by simp
next
  case (Mgr_Checkpoint_Done checkpoint)
  then show ?thesis using b m manages_truncate [OF m]
    by (cases checkpoint) (auto simp: auto_checkpoint_reply_def Let_def)
next
  case (Mgr_Insert table_oid chunk row_start row_count txn_id oid)
  then show ?thesis using manages_forward [OF m behavior_sends(1)] b
    by (auto simp: mgr_write_physical_insert_def dest!: reply_write_Done)
next
  case (Mgr_Delete table_oid row_ids cnt txn_id oid)
  then show ?thesis using manages_forward [OF m behavior_sends(2)] b
    by (auto simp: mgr_write_physical_delete_def dest!: reply_write_Done)
next
  case (Mgr_Update table_oid row_ids chunk cnt txn_id oid)
  then show ?thesis using manages_forward [OF m behavior_sends(3)] b
    by (auto simp: mgr_write_physical_update_def dest!: reply_write_Done)
next
  case (Mgr_Add_Column table_oid chunk column_count txn_id oid)
  then show ?thesis using manages_forward [OF m behavior_sends(4)] b
    by (auto simp: mgr_write_physical_add_column_def dest!: reply_write_Done)
next
  case (Mgr_Truncate c)
  then show ?thesis using b manages_truncate [OF m, of c] by auto
next
  case Mgr_Current_Id
  then show ?thesis using b m by simp
next
  case (Mgr_Register p)
  then show ?thesis using b m by (auto simp: register_active_build_def manages_def)
next
  case (Mgr_Unregister p)
  then show ?thesis using b m by (auto simp: unregister_active_build_def manages_def split: if_splits)
qed

lemma run_manages:
  assumes "manages crc io max_size s m" "run_manager crc io evs m = Done m'"
  shows "\<exists>s'. family_run evs s = Some s' \<and> manages crc io max_size s' m'"
  using assms
proof (induction evs arbitrary: s m)
  case (Cons ev evs)
  obtain m1 reply sent where m1: "mgr_behavior crc io ev m = Done (m1, reply, sent)" "run_manager crc io evs m1 = Done m'"
    using Cons.prems(2) by (cases "mgr_behavior crc io ev m") auto
  obtain s1 where "family_step ev s = Some s1" "manages crc io max_size s1 m1" using manages_step [OF Cons.prems(1) m1(1)] by blast
  then show ?case using Cons.IH [OF _ m1(2)] by simp
qed simp

lemma create_manager_manages:
  assumes "cfg_on config"
  shows "\<exists>m. create_manager crc io config [] = Done m \<and> manages crc io (cfg_max_segment_size config) family_init m"
  using assms by (simp add: create_manager_def manages_def family_init_def dir_of_def Let_def)

section \<open>Identifiers and retention\<close>

text \<open>The ids in each log ascend, no two logs share one, and none is above the counter.\<close>

definition ids_of :: "log_family \<Rightarrow> nat \<Rightarrow> nat list" where
  "ids_of s oid = (case lf_logs s oid of None \<Rightarrow> [] | Some ms \<Rightarrow> logged_ids ms)"

definition family_ids :: "log_family \<Rightarrow> bool" where
  "family_ids s \<longleftrightarrow> (\<forall>oid. sorted_wrt (<) (ids_of s oid) \<and> (\<forall>i \<in> set (ids_of s oid). i \<le> lf_last_id s)) \<and>
     (\<forall>oid oid'. oid \<noteq> oid' \<longrightarrow> set (ids_of s oid) \<inter> set (ids_of s oid') = {})"

lemma family_ids_init: "family_ids family_init"
  by (simp add: family_ids_def family_init_def ids_of_def)

lemma ids_of_tell: "msg_entry msg = None \<Longrightarrow> ids_of (family_tell msg s) = ids_of s"
  by (rule ext) (auto simp: ids_of_def family_tell_def logged_ids_def msg_ids_def split: option.split)

lemma ids_of_write:
  "ids_of (family_write oid msg s) oid' =
    (if oid' = oid then ids_of s oid @ msg_ids (msg (wrap64 (lf_last_id s + 1))) else ids_of s oid')"
  by (auto simp: ids_of_def family_write_def logged_ids_def Let_def split: option.split)

lemma at_most_one: "distinct xs \<Longrightarrow> set xs \<subseteq> {i} \<Longrightarrow> xs = [] \<or> xs = [i]"
  by (cases xs; cases "tl xs") auto

lemma family_ids_write:
  assumes "family_ids s" "lf_last_id s < UINT64_MAX" "\<And>i. set (msg_ids (msg i)) \<subseteq> {i}" "\<And>i. distinct (msg_ids (msg i))"
  shows "family_ids (family_write oid msg s) \<and> lf_last_id (family_write oid msg s) = Suc (lf_last_id s)"
proof -
  let ?i = "Suc (lf_last_id s)"
  have i: "wrap64 (lf_last_id s + 1) = ?i" using assms(2) by (simp add: wrap64_def)
  then have n: "lf_last_id (family_write oid msg s) = ?i" by (simp add: family_write_def Let_def)
  have le: "j \<le> lf_last_id s" if "j \<in> set (ids_of s oid)" for j oid using assms(1) that by (auto simp: family_ids_def)
  have new: "?i \<notin> set (ids_of s oid)" for oid using le by fastforce
  have m: "msg_ids (msg ?i) = [] \<or> msg_ids (msg ?i) = [?i]"
    using at_most_one [OF assms(4,3)] .
  have ids: "ids_of (family_write oid msg s) oid' = (if oid' = oid then ids_of s oid @ msg_ids (msg ?i) else ids_of s oid')" for oid'
    unfolding ids_of_write i ..
  have asc: "sorted_wrt (<) (ids_of s oid)" for oid using assms(1) by (simp add: family_ids_def)
  have one: "oid = oid'" if "j \<in> set (ids_of s oid)" "j \<in> set (ids_of s oid')" for j oid oid'
    using assms(1) that unfolding family_ids_def by blast
  show ?thesis
    using m new asc unfolding family_ids_def n ids
    by (auto simp: sorted_wrt_append less_Suc_eq_le dest: le one intro: le_SucI)
qed

lemma family_step_elim:
  assumes "family_step ev s = Some s'"
  obtains (log) oid msg where "s' = family_write oid msg s" "\<And>i. \<exists>txn_id e. msg_entry (msg i) = Some (txn_id, i, e)"
  | (truncate) c where "s' = family_truncate c s" "ev = Mgr_Truncate c \<or> ev = Mgr_Checkpoint_Done (Some c)"
  | (load) a where "s' = family_tell (Msg_Load a) s"
  | (builds) bs where "s' = s\<lparr>lf_builds := bs\<rparr>"
      "bs = lf_builds s \<or> (\<exists>p. bs = set_insert p (lf_builds s)) \<or> (\<exists>p. ev = Mgr_Unregister p \<and> bs = set_erase p (lf_builds s))"
proof (cases ev)
  case (Mgr_Checkpoint_Done checkpoint)
  then show thesis using assms truncate builds [of "lf_builds s"] by (cases checkpoint) (auto split: if_splits)
next
  case (Mgr_Load a)
  then show thesis using assms load [of a] by simp
next
  case (Mgr_Truncate c)
  then show thesis using assms truncate [of c] by simp
next
  case Mgr_Current_Id
  then show thesis using assms builds [of "lf_builds s"] by simp
next
  case (Mgr_Register p)
  then show thesis using assms builds [of "set_insert p (lf_builds s)"] by auto
next
  case (Mgr_Unregister p)
  then show thesis using assms builds [of "set_erase p (lf_builds s)"] by (auto split: if_splits)
qed (use assms log in auto)

lemma msg_ids_of_entry:
  assumes "\<exists>txn_id e. msg_entry m = Some (txn_id, i, e)"
  shows "set (msg_ids m) \<subseteq> {i}" "distinct (msg_ids m)"
  using assms by (auto simp: msg_ids_def split: if_splits)

lemma family_ids_step:
  assumes "family_ids s" "family_step ev s = Some s'" "lf_last_id s < UINT64_MAX"
  shows "family_ids s' \<and> lf_last_id s' \<le> Suc (lf_last_id s)"
proof -
  have tell: "family_ids (family_tell msg s) \<and> lf_last_id (family_tell msg s) = lf_last_id s" if "msg_entry msg = None" for msg
    using assms(1) ids_of_tell [OF that, of s] by (simp add: family_ids_def family_tell_def)
  from assms(2) show ?thesis
  proof (cases rule: family_step_elim)
    case (log oid msg)
    then show ?thesis using family_ids_write [OF assms(1,3) msg_ids_of_entry [OF log(2)], of oid] by simp
  next
    case (builds bs)
    then show ?thesis using assms(1) by (simp add: family_ids_def ids_of_def)
  qed (simp_all add: tell family_truncate_def)
qed

lemma family_ids_run:
  assumes "family_run evs s = Some s'" "family_ids s" "lf_last_id s + length evs \<le> UINT64_MAX"
  shows "family_ids s'"
  using assms
proof (induction evs arbitrary: s)
  case (Cons ev evs)
  then obtain s1 where s1: "family_step ev s = Some s1" "family_run evs s1 = Some s'" by (auto split: option.splits)
  then show ?case using Cons.IH [OF s1(2)] family_ids_step [OF Cons.prems(2) s1(1)] Cons.prems(3) by simp
qed simp

text \<open>Messages are added behind the earlier ones.\<close>

definition logs_grow :: "log_family \<Rightarrow> log_family \<Rightarrow> bool" where
  "logs_grow s s' \<longleftrightarrow> (\<forall>oid ms. lf_logs s oid = Some ms \<longrightarrow> (\<exists>ms'. lf_logs s' oid = Some (ms @ ms')))"

lemma logs_grow_step: "family_step ev s = Some s' \<Longrightarrow> logs_grow s s'"
  by (erule family_step_elim)
    (auto simp: logs_grow_def family_write_def family_truncate_def family_tell_def Let_def)

definition family_ok :: "nat \<Rightarrow> log_family \<Rightarrow> bool" where
  "family_ok max_size s \<longleftrightarrow> (\<forall>oid ms. lf_logs s oid = Some ms \<longrightarrow>
     list_all msg_wf ms \<and> layout_run max_size ms (0, 0, 0, False) \<noteq> None \<and> length ms < 999999)"

lemma layout_run_append: "layout_run max_size (ms @ ms') l \<noteq> None \<Longrightarrow> layout_run max_size ms l \<noteq> None"
  by (induction ms arbitrary: l) (auto split: option.splits)

lemma family_ok_grow: "logs_grow s s' \<Longrightarrow> family_ok max_size s' \<Longrightarrow> family_ok max_size s"
  unfolding family_ok_def logs_grow_def
proof (intro allI impI)
  fix oid ms
  assume g: "\<forall>oid ms. lf_logs s oid = Some ms \<longrightarrow> (\<exists>ms'. lf_logs s' oid = Some (ms @ ms'))"
    and ok: "\<forall>oid ms. lf_logs s' oid = Some ms \<longrightarrow>
      list_all msg_wf ms \<and> layout_run max_size ms (0, 0, 0, False) \<noteq> None \<and> length ms < 999999"
    and "lf_logs s oid = Some ms"
  then obtain ms' where "lf_logs s' oid = Some (ms @ ms')" by blast
  then have all: "list_all msg_wf (ms @ ms')" "layout_run max_size (ms @ ms') (0, 0, 0, False) \<noteq> None" "length (ms @ ms') < 999999"
    using ok by blast+
  from all(1,3) have "list_all msg_wf ms" "length ms < 999999" by simp_all
  with layout_run_append [OF all(2)]
  show "list_all msg_wf ms \<and> layout_run max_size ms (0, 0, 0, False) \<noteq> None \<and> length ms < 999999" by blast
qed

lemma logs_grow_trans: "logs_grow s t \<Longrightarrow> logs_grow t u \<Longrightarrow> logs_grow s u"
  unfolding logs_grow_def
proof (intro allI impI)
  fix oid ms
  assume 1: "\<forall>oid ms. lf_logs s oid = Some ms \<longrightarrow> (\<exists>ms'. lf_logs t oid = Some (ms @ ms'))"
    and 2: "\<forall>oid ms. lf_logs t oid = Some ms \<longrightarrow> (\<exists>ms'. lf_logs u oid = Some (ms @ ms'))"
    and "lf_logs s oid = Some ms"
  then obtain ms1 where "lf_logs t oid = Some (ms @ ms1)" by blast
  with 2 obtain ms2 where "lf_logs u oid = Some ((ms @ ms1) @ ms2)" by blast
  then show "\<exists>ms'. lf_logs u oid = Some (ms @ ms')" by (intro exI [of _ "ms1 @ ms2"]) simp
qed

lemma logs_grow_run: "family_run evs s = Some s' \<Longrightarrow> logs_grow s s'"
proof (induction evs arbitrary: s)
  case (Cons ev evs)
  then obtain s1 where "family_step ev s = Some s1" "family_run evs s1 = Some s'" by (auto split: option.splits)
  then have "logs_grow s s1" "logs_grow s1 s'" using Cons.IH logs_grow_step by blast+
  then show ?case by (rule logs_grow_trans)
qed (simp add: logs_grow_def)

text \<open>A log whose messages are well formed and can be laid out answers every message.\<close>

lemma own_log_ok:
  assumes "list_all msg_wf ms" "layout_run max_size ms (0, 0, 0, False) \<noteq> None" "length ms < 999999"
    "sorted (logged_ids ms)"
  shows "\<exists>w D l. own_log crc no_failures max_size oid ms = Done w \<and> fst l < 999999 \<and>
    worker_ok crc (truncated_to ms) (messages_records crc 0 ms) D l w"
proof -
  obtain l where l: "layout_run max_size ms (0, 0, 0, False) = Some l" using assms(2) by blast
  obtain w0 where w0: "create_worker crc no_failures max_size oid [] = Done w0" "worker_ok crc 0 [] [] (0, 0, 0, False) w0"
    "ww_max_segment_size w0 = max_size" "ww_last_crc w0 = 0"
    using create_worker_ok by blast
  let ?D = "if list_ex msg_flushes ms then messages_records crc 0 (durable_messages ms) else []"
  obtain w where "run_worker crc no_failures ms w0 = Done w" "fst l \<le> length ms"
    "worker_ok crc (truncated_to ms) (messages_records crc 0 ms) ?D l w"
    using run_worker_ok [OF w0(2), of ms l] assms l unfolding w0(3,4) append_Nil truncated_to_def by auto
  then show ?thesis using w0(1) assms(3) by (intro exI [of _ w] exI [of _ ?D] exI [of _ l]) (simp add: own_log_def)
qed

definition family_good :: "nat \<Rightarrow> log_family \<Rightarrow> bool" where
  "family_good max_size s \<longleftrightarrow> family_ok max_size s \<and> family_ids s"

lemma family_good_log:
  assumes "family_good max_size s" "lf_logs s oid = Some ms"
  shows "\<exists>w D l. own_log crc no_failures max_size oid ms = Done w \<and> fst l < 999999 \<and>
    worker_ok crc (truncated_to ms) (messages_records crc 0 ms) D l w" "sorted (logged_ids ms)"
proof -
  have "sorted_wrt (<) (ids_of s oid)" using assms(1) by (simp add: family_good_def family_ids_def)
  then show s: "sorted (logged_ids ms)" using assms(2) by (simp add: ids_of_def strict_sorted_imp_sorted)
  show "\<exists>w D l. own_log crc no_failures max_size oid ms = Done w \<and> fst l < 999999 \<and>
    worker_ok crc (truncated_to ms) (messages_records crc 0 ms) D l w"
    using assms s by (intro own_log_ok) (auto simp: family_good_def family_ok_def)
qed

lemma own_log_answers:
  assumes "own_log crc io max_size oid ms = Done w" "own_log crc io max_size oid (ms @ [m]) = Done w'"
  shows "\<exists>reply. behavior crc io m w = Done (w', reply)"
  using own_log_snoc [OF assms(1), of m] assms(2) by (cases "behavior crc io m w") auto

lemma manages_worker:
  assumes "manages crc io max_size s m" "map_of (wm_workers m) oid = Some w"
  shows "\<exists>ms. lf_logs s oid = Some ms \<and> own_log crc io max_size oid ms = Done w"
proof -
  have "map_option Done (map_of (wm_workers m) oid) =
      map_option (own_log crc io (cfg_max_segment_size (wm_config m)) oid) (lf_logs s oid)"
    using assms(1) by (simp add: manages_def)
  moreover have "cfg_max_segment_size (wm_config m) = max_size" using assms(1) by (simp add: manages_def)
  ultimately show ?thesis using assms(2) by (cases "lf_logs s oid") auto
qed

lemma forward_total:
  assumes m: "manages crc no_failures max_size s m" and good: "family_good max_size (family_write oid msg s)"
    and send: "\<And>wal_id w. reply_id (send wal_id w) = behavior crc no_failures (msg wal_id) w"
  shows "\<exists>m' i. forward crc no_failures oid send m = Done (m', i)"
proof -
  let ?i = "wrap64 (lf_last_id s + 1)" 
  let ?old = "case lf_logs s oid of None \<Rightarrow> [] | Some ms \<Rightarrow> ms"
  have en: "wm_enabled m" "wm_global_id m = lf_last_id s" "dir_of (wm_other_dirs m) (to_decimal oid) = []"
    "cfg_max_segment_size (wm_config m) = max_size"
    using m by (simp_all add: manages_def)
  have logs: "map_option Done (map_of (wm_workers m) oid) = map_option (own_log crc no_failures max_size oid) (lf_logs s oid)"
    using m en(4) by (simp add: manages_def)
  obtain w m1 where w: "get_or_create_worker crc no_failures oid [] m = Done (w, m1)" "own_log crc no_failures max_size oid ?old = Done w"
    "wm_global_id m1 = lf_last_id s"
  proof (cases "map_of (wm_workers m) oid")
    case None
    then have n: "lf_logs s oid = None" using logs by simp
    obtain w where "create_worker crc no_failures max_size oid [] = Done w" using create_worker_ok by blast
    then show ?thesis using that [of w] None n en(2,4) by (simp add: get_or_create_worker_def own_log_def)
  next
    case (Some w)
    then show ?thesis using that [of w m] manages_worker [OF m Some] en(2) by (auto simp: get_or_create_worker_def)
  qed
  have "lf_logs (family_write oid msg s) oid = Some (?old @ [msg ?i])" by (simp add: family_write_def Let_def)
  then obtain w' reply where "behavior crc no_failures (msg ?i) w = Done (w', reply)"
    using family_good_log(1) [OF good] own_log_answers [OF w(2)] by blast
  then obtain r where "send ?i w = Done r" using send [of ?i w] by (cases "send ?i w") (auto simp: reply_id_def)
  then show ?thesis using en(1-3) w(1,3) by (cases r) (simp add: forward_def next_wal_id_def Let_def)
qed

lemma load_workers_total:
  assumes "\<forall>(oid, w) \<in> set xs. \<exists>r. load crc io a w = Done r"
  shows "\<exists>r. load_workers crc io a xs = Done r"
  using assms
proof (induction xs)
  case (Cons x xs)
  obtain oid w where x: "x = (oid, w)" by fastforce
  obtain r r' where "load crc io a w = Done r" "load_workers crc io a xs = Done r'" using Cons x by auto
  then show ?case using x by (cases r; cases r') simp
qed simp

lemma step_total:
  assumes m: "manages crc no_failures max_size s m" and st: "family_step ev s = Some s'"
    and good: "family_good max_size s'"
  shows "\<exists>m' reply sent. mgr_behavior crc no_failures ev m = Done (m', reply, sent)"
proof (cases ev)
  case (Mgr_Load a)
  have s': "s' = family_tell (Msg_Load a) s" using st Mgr_Load by simp
  have "\<exists>r. load crc no_failures a w = Done r" if "(oid, w) \<in> set (wm_workers m)" for oid w
  proof -
    have "map_of (wm_workers m) oid = Some w" using that m by (simp add: manages_def)
    then obtain ms where ms: "lf_logs s oid = Some ms" "own_log crc no_failures max_size oid ms = Done w"
      using manages_worker [OF m] by blast
    then have "lf_logs s' oid = Some (ms @ [Msg_Load a])" by (simp add: s' family_tell_def)
    then obtain w' reply where "behavior crc no_failures (Msg_Load a) w = Done (w', reply)"
      using family_good_log(1) [OF good] own_log_answers [OF ms(2)] by blast
    then show ?thesis by (cases "load crc no_failures a w") auto
  qed
  then have "\<forall>(oid, w) \<in> set (wm_workers m). \<exists>r. load crc no_failures a w = Done r" by blast
  from load_workers_total [OF this] obtain r where "load_workers crc no_failures a (wm_workers m) = Done r" by blast
  then show ?thesis using Mgr_Load m by (cases r) (simp add: mgr_load_def manages_def)
next
  case (Mgr_Commit txn_id sync_mode oid commit_id)
  then have "family_good max_size (family_write oid (\<lambda>i. Msg_Commit txn_id sync_mode i commit_id) s)" using good st by auto
  from forward_total [OF m this behavior_sends(5)] obtain m1 i where "forward crc no_failures oid
      (\<lambda>wal_id w. Done (worker_commit_txn crc no_failures txn_id sync_mode wal_id commit_id w)) m = Done (m1, i)" by blast
  then show ?thesis using Mgr_Commit m
    by (auto simp: mgr_commit_txn_def manages_def Let_def)
next
  case (Mgr_Insert table_oid chunk row_start row_count txn_id oid)
  then show ?thesis 
    using forward_total [where send = "write_physical_insert crc no_failures table_oid chunk row_start row_count txn_id" and
        msg = "Msg_Insert table_oid chunk row_start row_count txn_id", OF m _ behavior_sends(1), of oid] good st
    by (auto simp: mgr_write_physical_insert_def reply_write_def)
next
  case (Mgr_Delete table_oid row_ids cnt txn_id oid)
  then show ?thesis 
    using forward_total [where send = "write_physical_delete crc no_failures table_oid row_ids cnt txn_id" and
        msg = "Msg_Delete table_oid row_ids cnt txn_id", OF m _ behavior_sends(2), of oid] good st
    by (auto simp: mgr_write_physical_delete_def reply_write_def)
next
  case (Mgr_Update table_oid row_ids chunk cnt txn_id oid)
  then show ?thesis 
    using forward_total [where send = "write_physical_update crc no_failures table_oid row_ids chunk cnt txn_id" and
        msg = "Msg_Update table_oid row_ids chunk cnt txn_id", OF m _ behavior_sends(3), of oid] good st
    by (auto simp: mgr_write_physical_update_def reply_write_def)
next
  case (Mgr_Add_Column table_oid chunk column_count txn_id oid)
  then show ?thesis 
    using forward_total [where send = "write_physical_add_column crc no_failures table_oid chunk column_count txn_id" and
        msg = "Msg_Add_Column table_oid chunk column_count txn_id", OF m _ behavior_sends(4), of oid] good st
    by (auto simp: mgr_write_physical_add_column_def reply_write_def)
next
  case (Mgr_Unregister p)
  then show ?thesis using st m by (auto simp: unregister_active_build_def manages_def split: if_splits)
qed simp_all

text \<open>A family whose logs are good at the end was good all along.\<close>

lemma run_total:
  assumes "manages crc no_failures max_size s m" "family_run evs s = Some s'" "family_ids s"
    and "lf_last_id s + length evs \<le> UINT64_MAX" "family_ok max_size s'"
  shows "\<exists>m'. run_manager crc no_failures evs m = Done m' \<and> manages crc no_failures max_size s' m'"
  using assms
proof (induction evs arbitrary: s m)
  case (Cons ev evs)
  obtain s1 where s1: "family_step ev s = Some s1" "family_run evs s1 = Some s'"
    using Cons.prems(2) by (auto split: option.splits)
  have ids: "family_ids s1" "lf_last_id s1 \<le> Suc (lf_last_id s)"
    using family_ids_step [OF Cons.prems(3) s1(1)] Cons.prems(4) by simp_all
  have "family_good max_size s1"
    using ids(1) family_ok_grow [OF logs_grow_run [OF s1(2)] Cons.prems(5)] by (simp add: family_good_def)
  then obtain m1 reply sent where m1: "mgr_behavior crc no_failures ev m = Done (m1, reply, sent)"
    using step_total [OF Cons.prems(1) s1(1)] by blast
  then have "manages crc no_failures max_size s1 m1" using manages_step [OF Cons.prems(1)] s1(1) by fastforce
  then show ?case using Cons.IH [OF _ s1(2) ids(1)] ids(2) Cons.prems(4,5) m1 by simp
qed simp

section \<open>Loading the merged log\<close>

lemma load_exact:
  assumes "worker_ok crc b R D l w" "fst l < 999999" "b \<le> a"
  shows "load crc no_failures a w = Done (flush_segment crc no_failures w, sort_key rec_id (committed_filter (kept a R)))"
proof -
  have i: "worker_inv crc b a R R (layout_flush l) (flush_segment crc no_failures w)"
    using assms by (intro flush_segment_inv) (auto simp: worker_ok_def)
  have "fst (layout_flush l) < 1000000" using assms(2) by (simp add: layout_flush_def case_prod_unfold)
  then show ?thesis
    using worker_inv_reads [OF i] assms(3) prefix_order.antisym by (fastforce simp: load_def Let_def)
qed

text \<open>What a load from position \<open>a\<close> returns for one database.\<close>

definition loaded :: "(byte list \<Rightarrow> 32 word) \<Rightarrow> nat \<Rightarrow> wal_message list \<Rightarrow> record_t list" where
  "loaded crc a ms = committed_filter (filter (\<lambda>r. a < rec_id r) (messages_records crc 0 ms))"

lemma load_own_log:
  assumes "family_good max_size s" "lf_logs s oid = Some ms" "own_log crc no_failures max_size oid ms = Done w" "truncated_to ms \<le> a"
  shows "\<exists>w'. load crc no_failures a w = Done (w', sort_key rec_id (loaded crc a ms))"
proof -
  obtain D l where "fst l < 999999" "worker_ok crc (truncated_to ms) (messages_records crc 0 ms) D l w"
    using family_good_log(1) [OF assms(1,2), of crc] assms(3) by auto
  then show ?thesis using load_exact [OF _ _ assms(4)] by (auto simp: loaded_def kept_messages_records)
qed

lemma load_workers_exact:
  assumes "\<forall>(oid, w) \<in> set xs. \<exists>w'. load crc io a w = Done (w', f oid)"
  shows "\<exists>ws. load_workers crc io a xs = Done (ws, concat (map (\<lambda>p. f (fst p)) xs))"
  using assms
proof (induction xs)
  case (Cons x xs)
  obtain oid w where x: "x = (oid, w)" by fastforce
  obtain w' ws where "load crc io a w = Done (w', f oid)" "load_workers crc io a xs = Done (ws, concat (map (\<lambda>p. f (fst p)) xs))"
    using Cons x by auto
  then show ?case using x by simp
qed simp

text \<open>No segment above position \<open>p\<close> has been removed.\<close>

definition retains :: "nat \<Rightarrow> log_family \<Rightarrow> bool" where
  "retains p s \<longleftrightarrow> (\<forall>oid ms. lf_logs s oid = Some ms \<longrightarrow> truncated_to ms \<le> p)"

lemma truncated_to_snoc: "truncated_to (ms @ [m]) = truncated m (truncated_to ms)"
  by (simp add: truncated_to_def)

lemma truncated_entry: "msg_entry m \<noteq> None \<Longrightarrow> truncated m b = b"
  by (cases m) auto

lemma clamp_le: "clamp_checkpoint builds c \<le> c"
  by (simp add: clamp_checkpoint_def)

lemma clamp_build: "sorted builds \<Longrightarrow> p \<in> set builds \<Longrightarrow> clamp_checkpoint builds c \<le> p"
  by (cases builds) (auto simp: clamp_checkpoint_def)

lemma retains_tell: "retains p s \<Longrightarrow> truncated msg 0 \<le> p \<Longrightarrow> retains p (family_tell msg s)"
  by (cases msg) (auto simp: retains_def family_tell_def truncated_to_snoc)

lemma retains_write:
  assumes "retains p s" "\<And>i. \<exists>txn_id e. msg_entry (msg i) = Some (txn_id, i, e)"
  shows "retains p (family_write oid msg s)"
proof -
  have "truncated (msg i) b = b" for i b using assms(2) [of i] by (intro truncated_entry) auto
  then show ?thesis using assms(1)
    by (auto simp: retains_def family_write_def truncated_to_snoc Let_def truncated_to_def split: option.splits)
qed

lemma retains_step:
  assumes "retains p s" "family_step ev s = Some s'"
    and "\<And>c. ev = Mgr_Truncate c \<or> ev = Mgr_Checkpoint_Done (Some c) \<Longrightarrow> clamp_checkpoint (lf_builds s) c \<le> p"
  shows "retains p s'"
  using assms(2)
proof (cases rule: family_step_elim)
  case (log oid msg)
  then show ?thesis using retains_write [OF assms(1)] by simp
next
  case (truncate c)
  then show ?thesis using assms(3) by (auto simp: family_truncate_def intro!: retains_tell [OF assms(1)])
next
  case (load a)
  then show ?thesis by (auto intro!: retains_tell [OF assms(1)])
next
  case (builds bs)
  then show ?thesis using assms(1) by (simp add: retains_def)
qed

lemma retains_run:
  assumes "family_run evs s = Some s'" "retains p s"
    and "\<forall>c. Mgr_Truncate c \<in> set evs \<or> Mgr_Checkpoint_Done (Some c) \<in> set evs \<longrightarrow> c \<le> p"
  shows "retains p s'"
  using assms
proof (induction evs arbitrary: s)
  case (Cons ev evs)
  then obtain s1 where s1: "family_step ev s = Some s1" "family_run evs s1 = Some s'" by (auto split: option.splits)
  have "clamp_checkpoint (lf_builds s) c \<le> p" if "ev = Mgr_Truncate c \<or> ev = Mgr_Checkpoint_Done (Some c)" for c
    using Cons.prems(3) that clamp_le order_trans by (metis list.set_intros(1))
  then show ?case using Cons.IH [OF s1(2) retains_step [OF Cons.prems(2) s1(1)]] Cons.prems(3) by auto
qed simp

lemma builds_step:
  assumes "family_step ev s = Some s'" "sorted (lf_builds s)" "p \<in> set (lf_builds s)" "ev \<noteq> Mgr_Unregister p"
  shows "sorted (lf_builds s') \<and> p \<in> set (lf_builds s')"
  using assms
  by (cases rule: family_step_elim)
    (auto simp: family_write_def family_truncate_def family_tell_def Let_def)

lemma sorted_builds_run:
  assumes "family_run evs s = Some s'" "sorted (lf_builds s)"
  shows "sorted (lf_builds s')"
  using assms
proof (induction evs arbitrary: s)
  case (Cons ev evs)
  then obtain s1 where s1: "family_step ev s = Some s1" "family_run evs s1 = Some s'" by (auto split: option.splits)
  from s1(1) Cons.prems(2) have "sorted (lf_builds s1)"
    by (cases rule: family_step_elim) (auto simp: family_write_def family_truncate_def family_tell_def Let_def)
  then show ?case using Cons.IH [OF s1(2)] by simp
qed simp

lemma retains_build:
  assumes "family_run evs s = Some s'" "retains p s" "sorted (lf_builds s)" "p \<in> set (lf_builds s)" "Mgr_Unregister p \<notin> set evs"
  shows "retains p s'"
  using assms
proof (induction evs arbitrary: s)
  case (Cons ev evs)
  then obtain s1 where s1: "family_step ev s = Some s1" "family_run evs s1 = Some s'" by (auto split: option.splits)
  have "retains p s1" by (rule retains_step [OF Cons.prems(2) s1(1)]) (rule clamp_build [OF Cons.prems(3,4)])
  then show ?case using Cons.IH [OF s1(2)] builds_step [OF s1(1) Cons.prems(3,4)] Cons.prems(5) by auto
qed simp

lemma family_run_append:
  "family_run (evs @ evs') s = (case family_run evs s of None \<Rightarrow> None | Some s' \<Rightarrow> family_run evs' s')"
  by (induction evs arbitrary: s) (auto split: option.split)

lemma committed_filter_subset: "set (committed_filter rs) \<subseteq> set rs"
  by (auto simp: committed_filter_def)

lemma distinct_concat_keys:
  assumes "distinct ks" "\<forall>k \<in> set ks. distinct (map g (f k))"
    and "\<forall>k \<in> set ks. \<forall>k' \<in> set ks. k \<noteq> k' \<longrightarrow> g ` set (f k) \<inter> g ` set (f k') = {}"
  shows "distinct (map g (concat (map f ks)))"
  using assms
proof (induction ks)
  case (Cons k ks)
  have "g ` set (f k) \<inter> g ` set (f k') = {}" if "k' \<in> set ks" for k'
  proof -
    have "k \<noteq> k'" using Cons.prems(1) that by auto
    then show ?thesis using Cons.prems(3) that by simp
  qed
  then have "g ` set (f k) \<inter> g ` set (concat (map f ks)) = {}" by fastforce
  then show ?case using Cons by auto
qed simp

lemma loaded_ids:
  assumes "sorted_wrt (<) (logged_ids ms)"
  shows "rec_id ` set (loaded crc a ms) \<subseteq> set (logged_ids ms)" "distinct (map rec_id (loaded crc a ms))"
proof -
  have ids: "map rec_id (messages_records crc 0 ms) = logged_ids ms" by (rule rec_ids_messages)
  then have "rec_id ` set (messages_records crc 0 ms) = set (logged_ids ms)" by (metis list.set_map)
  then show "rec_id ` set (loaded crc a ms) \<subseteq> set (logged_ids ms)" by (auto simp: loaded_def committed_filter_def)
  have "distinct (map rec_id (messages_records crc 0 ms))" using assms ids by (simp add: strict_sorted_iff)
  then show "distinct (map rec_id (loaded crc a ms))" by (simp add: loaded_def committed_filter_def distinct_map_filter)
qed

lemma mgr_load_exact:
  assumes m: "manages crc no_failures max_size s m" and good: "family_good max_size s" and ret: "retains a s"
  shows "\<exists>m' rs. mgr_load crc no_failures a m = Done (m', rs) \<and> sorted_wrt (<) (map rec_id rs) \<and>
    set rs = (\<Union>oid. set (case lf_logs s oid of None \<Rightarrow> [] | Some ms \<Rightarrow> loaded crc a ms))"
proof -
  define g where "g oid = loaded crc a (the (lf_logs s oid))" for oid
  let ?f = "\<lambda>oid. sort_key rec_id (g oid)" and ?ks = "map fst (wm_workers m)"
  have dist: "distinct ?ks" using m by (simp add: manages_def)
  have log: "lf_logs s oid = Some (the (lf_logs s oid))" if "oid \<in> set ?ks" for oid
  proof -
    have "map_of (wm_workers m) oid \<noteq> None" using that by (simp add: map_of_eq_None_iff)
    then show ?thesis using manages_worker [OF m] by fastforce
  qed
  have none: "lf_logs s oid = None" if "oid \<notin> set ?ks" for oid
  proof -
    have "map_of (wm_workers m) oid = None" using that by (simp add: map_of_eq_None_iff)
    then show ?thesis using m by (auto simp: manages_def dest: spec [of _ oid])
  qed
  have "\<exists>w'. load crc no_failures a w = Done (w', ?f oid)" if "(oid, w) \<in> set (wm_workers m)" for oid w
  proof -
    have "map_of (wm_workers m) oid = Some w" using that dist by simp
    then obtain ms where ms: "lf_logs s oid = Some ms" "own_log crc no_failures max_size oid ms = Done w"
      using manages_worker [OF m] by blast
    then show ?thesis using load_own_log [OF good ms] ret by (simp add: retains_def g_def)
  qed
  then have all: "\<forall>(oid, w) \<in> set (wm_workers m). \<exists>w'. load crc no_failures a w = Done (w', ?f oid)" by blast
  let ?merged = "concat (map ?f ?ks)"
  obtain ws where "load_workers crc no_failures a (wm_workers m) = Done (ws, ?merged)"
    using load_workers_exact [OF all] by (auto simp: comp_def)
  then have l: "mgr_load crc no_failures a m = Done (m\<lparr>wm_workers := ws\<rparr>, sort_key rec_id ?merged)"
    using m by (simp add: mgr_load_def manages_def)
  have asc: "sorted_wrt (<) (ids_of s oid)" "oid \<noteq> oid' \<Longrightarrow> set (ids_of s oid) \<inter> set (ids_of s oid') = {}" for oid oid'
    using good by (simp_all add: family_good_def family_ids_def)
  have ids: "rec_id ` set (g oid) \<subseteq> set (ids_of s oid)" "distinct (map rec_id (g oid))" if k: "oid \<in> set ?ks" for oid
  proof -
    obtain ms where ms: "lf_logs s oid = Some ms" using log [OF k] by blast
    then show "rec_id ` set (g oid) \<subseteq> set (ids_of s oid)" "distinct (map rec_id (g oid))"
      using loaded_ids [of ms crc a] asc(1) [of oid] by (simp_all add: g_def ids_of_def)
  qed
  have "distinct (map rec_id ?merged)"
  proof (intro distinct_concat_keys [OF dist] ballI impI)
    fix oid assume "oid \<in> set ?ks"
    then show "distinct (map rec_id (?f oid))" using ids(2) by (metis mset_map mset_sort mset_eq_imp_distinct_iff)
  next
    fix oid oid' assume "oid \<in> set ?ks" "oid' \<in> set ?ks" "oid \<noteq> oid'"
    then show "rec_id ` set (?f oid) \<inter> rec_id ` set (?f oid') = {}"
      using ids(1) [of oid] ids(1) [of oid'] asc(2) [of oid oid'] by auto
  qed
  then have "distinct (map rec_id (sort_key rec_id ?merged))" by (metis mset_map mset_sort mset_eq_imp_distinct_iff)
  then have "sorted_wrt (<) (map rec_id (sort_key rec_id ?merged))" by (simp add: strict_sorted_iff)
  moreover have "set (case lf_logs s oid of None \<Rightarrow> [] | Some ms \<Rightarrow> loaded crc a ms) = (if oid \<in> set ?ks then set (g oid) else {})" for oid
  proof (cases "oid \<in> set ?ks")
    case True
    then obtain ms where "lf_logs s oid = Some ms" using log by blast
    then show ?thesis using True by (simp add: g_def)
  next
    case False
    then show ?thesis using none [OF False] by simp
  qed
  then have "set (sort_key rec_id ?merged) = (\<Union>oid. set (case lf_logs s oid of None \<Rightarrow> [] | Some ms \<Rightarrow> loaded crc a ms))"
    by auto
  ultimately show ?thesis using l by blast
qed

section \<open>Properties of the manager\<close>

text \<open>C8. The manager is a family of independent logs: whatever messages it has handled, with whatever failing
  writes, the worker of each database is in the state of a log of its own that received just the messages of
  that database, with the ids of one common counter and every truncation clamped to the oldest index build in
  progress.\<close>

theorem manager_refines_logs:
  assumes "cfg_on config" "then_do (create_manager crc io config []) (run_manager crc io evs) = Done m"
  shows "\<exists>s. family_run evs family_init = Some s \<and> wm_global_id m = lf_last_id s \<and> wm_active_builds m = lf_builds s \<and>
    (\<forall>oid. map_option Done (map_of (wm_workers m) oid) =
      map_option (own_log crc io (cfg_max_segment_size config) oid) (lf_logs s oid))"
proof -
  obtain m0 where m0: "create_manager crc io config [] = Done m0" "manages crc io (cfg_max_segment_size config) family_init m0"
    using create_manager_manages [OF assms(1)] by blast
  then have "run_manager crc io evs m0 = Done m" using assms(2) by simp
  then obtain s where "family_run evs family_init = Some s" "manages crc io (cfg_max_segment_size config) s m"
    using run_manages [OF m0(2)] by blast
  then show ?thesis by (auto simp: manages_def)
qed

definition sample_config :: wal_config where
  "sample_config = \<lparr>cfg_on = True, cfg_path_empty = False, cfg_max_segment_size = 8192, cfg_auto_checkpoint_threshold = 0\<rparr>"

text \<open>A build that has registered its starting position: the segments behind it are kept through every
  checkpoint until it unregisters.\<close>

definition before_build :: "mgr_message list" where
  "before_build = [Mgr_Delete 20000 [1, 2] 2 7 3, Mgr_Commit 7 SYNC_FULL 3 5]"

definition during_build :: "mgr_message list" where
  "during_build = [Mgr_Delete 20000 [3] 1 8 3, Mgr_Commit 8 SYNC_FULL 3 6, Mgr_Delete 20000 [4] 1 9 3,
     Mgr_Checkpoint_Done (Some 4)]"

definition build_log :: "wal_message list" where
  "build_log = [Msg_Delete 20000 [1, 2] 2 7 1, Msg_Commit 7 SYNC_FULL 2 5, Msg_Delete 20000 [3] 1 8 3,
     Msg_Commit 8 SYNC_FULL 4 6, Msg_Delete 20000 [4] 1 9 5, Msg_Truncate 2]"

lemma sample_family_run:
  "family_run (before_build @ Mgr_Register 2 # during_build) family_init =
    Some \<lparr>lf_last_id = 5, lf_builds = [2], lf_logs = [3 \<mapsto> build_log]\<rparr>"
  by (simp add: before_build_def during_build_def build_log_def family_init_def family_write_def family_truncate_def
      family_tell_def clamp_checkpoint_def wrap64_def set_insert_def insort_insert_key_def fun_eq_iff)

lemma build_log_run:
  "list_all msg_wf build_log" "layout_run 8192 build_log (0, 0, 0, False) = Some (2, 0, 61, False)" "length build_log < 999999"
  by (simp_all add: build_log_def entry_wf_def layout_message_def layout_append_def layout_rotate_def layout_flush_def page_consts)

lemma build_log_ok: "family_ok 8192 \<lparr>lf_last_id = 5, lf_builds = [2], lf_logs = [3 \<mapsto> build_log]\<rparr>"
  by (simp add: family_ok_def build_log_run del: not_None_eq)

theorem manager_refines_logs_witness:
  "\<exists>m. then_do (create_manager sum_crc no_failures sample_config [])
      (run_manager sum_crc no_failures (before_build @ Mgr_Register 2 # during_build)) = Done m \<and>
    map_option Done (map_of (wm_workers m) 3) = Some (own_log sum_crc no_failures 8192 3 build_log)"
proof -
  have on: "cfg_on sample_config" by (simp add: sample_config_def)
  obtain m0 where m0: "create_manager sum_crc no_failures sample_config [] = Done m0"
    "manages sum_crc no_failures 8192 family_init m0"
    using create_manager_manages [OF on] by (auto simp: sample_config_def)
  have "lf_last_id family_init + length (before_build @ Mgr_Register 2 # during_build) \<le> UINT64_MAX"
    by (simp add: family_init_def before_build_def during_build_def)
  then obtain m where m: "run_manager sum_crc no_failures (before_build @ Mgr_Register 2 # during_build) m0 = Done m"
    using run_total [OF m0(2) sample_family_run family_ids_init _ build_log_ok] by blast
  have "then_do (create_manager sum_crc no_failures sample_config [])
      (run_manager sum_crc no_failures (before_build @ Mgr_Register 2 # during_build)) = Done m"
    using m0(1) m by simp
  with manager_refines_logs [OF on this] show ?thesis
    by (auto simp: sample_family_run sample_config_def dest: spec [of _ 3])
qed

text \<open>C7. An index build finds every record it needs, in a manager that starts with the log enabled and in an empty
  directory. Suppose that no write fails, that the messages to the log of each database are fewer than 999999 and
  well-formed and its records fall into pages in a way the reader can follow, and that no checkpoint or truncation
  before the registration of the starting position named an id beyond it. As long as the position is not
  unregistered, no later checkpoint and no truncation removes a record behind it: the load from that position
  returns, in strictly ascending order of their ids, exactly the records behind it of transactions committed
  there, of all databases.\<close>

theorem index_build_finds_its_records:
  assumes on: "cfg_on config" and run: "family_run (evs @ Mgr_Register p # evs') family_init = Some s"
    and early: "\<forall>c. Mgr_Truncate c \<in> set evs \<or> Mgr_Checkpoint_Done (Some c) \<in> set evs \<longrightarrow> c \<le> p"
    and held: "Mgr_Unregister p \<notin> set evs'"
    and ok: "family_ok (cfg_max_segment_size config) s" "length evs + length evs' < UINT64_MAX"
  shows "\<exists>m m' rs. then_do (create_manager crc no_failures config [])
      (run_manager crc no_failures (evs @ Mgr_Register p # evs')) = Done m \<and>
    mgr_load crc no_failures p m = Done (m', rs) \<and> sorted_wrt (<) (map rec_id rs) \<and>
    set rs = (\<Union>oid. set (case lf_logs s oid of None \<Rightarrow> [] | Some ms \<Rightarrow> loaded crc p ms))"
proof -
  let ?evs = "evs @ Mgr_Register p # evs'"
  obtain m0 where m0: "create_manager crc no_failures config [] = Done m0"
    "manages crc no_failures (cfg_max_segment_size config) family_init m0"
    using create_manager_manages [OF on] by blast
  have n: "lf_last_id family_init + length ?evs \<le> UINT64_MAX" using ok(2) by (simp add: family_init_def)
  obtain m where m: "run_manager crc no_failures ?evs m0 = Done m" "manages crc no_failures (cfg_max_segment_size config) s m"
    using run_total [OF m0(2) run family_ids_init n ok(1)] by blast
  obtain s1 where s1: "family_run evs family_init = Some s1"
    "family_run evs' (s1\<lparr>lf_builds := set_insert p (lf_builds s1)\<rparr>) = Some s"
    using run by (auto simp: family_run_append split: option.splits)
  have "retains p family_init" by (simp add: retains_def family_init_def)
  then have "retains p (s1\<lparr>lf_builds := set_insert p (lf_builds s1)\<rparr>)"
    using retains_run [OF s1(1) _ early] by (simp add: retains_def)
  moreover have "sorted (lf_builds s1)" using sorted_builds_run [OF s1(1)] by (simp add: family_init_def)
  ultimately have "retains p s" using retains_build [OF s1(2)] held by simp
  moreover have "family_good (cfg_max_segment_size config) s"
    using ok(1) family_ids_run [OF run family_ids_init n] by (simp add: family_good_def)
  ultimately show ?thesis using mgr_load_exact [OF m(2)] m0(1) m(1) by fastforce
qed

theorem index_build_finds_its_records_witness:
  "\<exists>m m' rs. then_do (create_manager sum_crc no_failures sample_config [])
      (run_manager sum_crc no_failures (before_build @ Mgr_Register 2 # during_build)) = Done m \<and>
    mgr_load sum_crc no_failures 2 m = Done (m', rs) \<and> sorted_wrt (<) (map rec_id rs) \<and>
    set rs = set (loaded sum_crc 2 build_log)"
proof -
  have h: "cfg_on sample_config" "Mgr_Unregister 2 \<notin> set during_build"
    "\<forall>c. Mgr_Truncate c \<in> set before_build \<or> Mgr_Checkpoint_Done (Some c) \<in> set before_build \<longrightarrow> c \<le> 2"
    "length before_build + length during_build < UINT64_MAX"
    by (simp_all add: sample_config_def before_build_def during_build_def)
  have ok: "family_ok (cfg_max_segment_size sample_config) \<lparr>lf_last_id = 5, lf_builds = [2], lf_logs = [3 \<mapsto> build_log]\<rparr>"
    using build_log_ok by (simp add: sample_config_def)
  have u: "(\<Union>oid. set (case [3 \<mapsto> build_log] oid of None \<Rightarrow> [] | Some ms \<Rightarrow> loaded sum_crc 2 ms)) =
      set (loaded sum_crc 2 build_log)"
    by (auto split: if_splits option.splits)
  show ?thesis
    using index_build_finds_its_records [OF h(1) sample_family_run h(3,2) ok h(4), of sum_crc]
    by (simp only: log_family.simps u)
qed

text \<open>C30. Two index builds that start at the same position share one entry of the set of positions: when the first
  of them finishes, the position of the second is no longer held, a checkpoint is not clamped to it any more, and
  the end of the second build aborts the process.\<close>

theorem builds_at_same_position_abort:
  "\<exists>m'. run_manager crc io [Mgr_Register p, Mgr_Register p, Mgr_Unregister p] m = Done m' \<and>
    p \<notin> set (wm_active_builds m') \<and> mgr_behavior crc io (Mgr_Unregister p) m' = Thrown"
  by (simp add: register_active_build_def unregister_active_build_def)

end
