(* ===== verification/Spec2Isabelle.thy ===== *)
theory Spec2Isabelle
  imports Dispatcher_Txn Wal_Manager
begin

text \<open>
  Otterbrix: a verification development of the transactional core of the database engine.

  \<^bold>\<open>The program.\<close> Otterbrix is an embedded SQL engine built of actors.  A client statement
  reaches the dispatcher (src/services/dispatcher), which opens a transaction in the transaction
  manager (src/components/table/transaction_manager.cpp), runs the plan, and at COMMIT drains what
  the transaction accumulated, allocates a commit id, has the disk agents stamp the row versions
  (src/components/table/row_version_manager.cpp), has the write-ahead log write the records and the
  COMMIT marker (src/services/wal), and publishes the commit.  At startup the log is read back and
  the records of committed transactions are replayed.  Dropped storages are reclaimed by the disk
  agents when the horizon of the active snapshots has passed the drop (src/services/disk).

  \<^bold>\<open>The theories.\<close>

  \<^item> Otter_Prelude: unsigned integers as natural numbers with their wrap-around written out
    (wrap16, wrap32, wrap64, sub64), bytes and little-endian fields (le, unle, rd, rdp, bslice,
    bsplice), and the result type outcome: Done, Rejected (the code returns an error), Thrown (an
    exception) and Undefined (behaviour the language leaves undefined, as a read out of bounds).
  \<^item> Txn_State: transaction.hpp and transaction.cpp, the accumulated appends, deletes, DDL swaps
    and dropped objects of a transaction, each with its drain operation.  The locale
    txn_accumulator is the contract of such an accumulator.
  \<^item> Txn_Manager: transaction_manager.cpp, the clock, the active transactions, the commits in
    flight, the published horizon, and the watermarks derived from them, with the invariant that
    every operation preserves and the step relation of the manager.
  \<^item> Row_Versions: row_version_manager.cpp, the constant and the vector form of the version
    information, append, delete, commit, revert, cleanup, scan selection, and point lookup.
  \<^item> Mvcc: the two components together.  The locale version_store is what the transaction layer
    needs of the version store; its interpretation is the row version manager.  Shown here:
    snapshot isolation in every interleaving, atomic visibility of a commit, safety of the
    compaction gate and its watermark, undo of an aborted delete, and the cases in which cleanup
    and VACUUM expose rows they must not expose.
  \<^item> Dispatcher_Txn: the transaction messages of dispatcher.cpp and the garbage collection of
    dropped storages in agent_disk.cpp and manager_disk.cpp.  The dispatcher refines the manager;
    the drain at COMMIT is complete; a pending drop survives every sweep; a run of the dispatcher from
    its construction in which a sweep removes the file of a table a transaction still sees, and the
    acknowledgement that stops the sweeps.
  \<^item> Chunk_Binary: data_chunk_binary.cpp, the byte format of data chunks, with its round trip for
    string and fixed-width columns; the data of nested columns is not written, and a chunk with a list
    or struct column cannot be read back.
  \<^item> Wal_Binary: wal_binary.cpp, the encoders and the decoder of log records.
  \<^item> Wal_Page: wal_page.hpp, wal_page.cpp and wal_page_writer.cpp, the page format and the writer
    that spreads records over pages.
  \<^item> Wal_Log: wal_page_reader.cpp and the file that the writer leaves behind.  The locale
    record_frames is what the page layer needs of the record layer (a frame decodes to its record
    and begins with its length); the record codec interprets it.  Shown here: the recovery of every
    logged record in a layout the reader can follow, the record lost when a page ends one
    spanning record and starts another, the stop at a corrupted page, the search for an id.
  \<^item> Wal_Names: the names of segment files, printed and parsed, and their order.
  \<^item> Wal_Worker: wal.cpp and wal_reader.cpp, one database's log of numbered segment files, with
    rotation, recovery, truncation, and the filter that keeps committed transactions.
  \<^item> Wal_Segments: the invariant that ties the segment files of a worker to the records logged, kept
    by append, flush, rotation, truncation and reopening, for any increasing segment indices.
  \<^item> Wal_Recovery: runs of the worker over its messages, across segment rotation, truncation,
    crashes and restarts.  Shown here: what the startup reader finds is a prefix of what was logged and holds
    every acknowledged COMMIT with all its records, behind the truncated id, as long as no write fails
    and the records fall into pages in a layout the reader can follow; the log of each life of the
    database is kept behind that of the lives before; and a COMMIT is acknowledged although its write
    failed.

  \<^item> Wal_Manager: manager_wal_replicate.cpp, the workers of all databases behind one id counter, the
    retention of index builds, truncation and the automatic checkpoint.  Shown here: the manager is a
    family of independent logs, and a build in progress finds every record behind its start.

  The theorem of this theory joins the transaction manager and the log: transaction ids start again
  with each process, so an interrupted transaction can be taken for a committed one.

  \<^bold>\<open>Parameters.\<close> CRC-32C is code of a third-party library: it is the argument crc of every
  definition that uses it, and no theorem assumes more of it than that it is a function.  The
  result of a write is the argument io, keyed by the file and the offset in it: None is a complete
  write, Some k a write torn after k bytes; two writes at one offset of a file have the same result.  The actor runtime is not modelled; a handler is one atomic function on the
  state of its actor, and interleavings are sequences of such steps.

  \<^bold>\<open>Bounds.\<close> Loops over files, pages and bytes are structural recursions on lists of page
  indices or bytes, or carry a termination proof (the binary search over page headers); no
  definition uses fuel.  Ids are below 2^64 and theorems that need it assume it explicitly.

  \<^bold>\<open>Not modelled.\<close> SQL parsing, planning, execution and the expression kernels, the column
  storage and buffer management, the catalog, the indexes, the file system layer, the calendar
  helpers, and the language bindings: they lie outside the transaction and log core.  Locks are
  not modelled: every operation of the managers holds its lock for its whole body.  The truncation
  of all logs is one step of the log manager, although the code tells the workers one after another.
\<close>

section \<open>The transaction manager and the log\<close>

text \<open>C9. Transaction ids start again with every process, and the log of the process before still holds the
  records of its unfinished transactions. When a transaction that was interrupted by a crash and a committed
  transaction after the restart have the same id, the next startup returns the records of the interrupted one
  as committed: here the deletion of row 1, which was never committed and which the startup before did not
  return.\<close>

theorem reused_transaction_id_replays_uncommitted:
  "t_transaction_id (fst (begin_transaction session (restore_commit_clock frontier manager_init))) = TRANSACTION_ID_START \<and>
    (\<exists>dir rs committed. run_lives crc 65536 3 (take 1 (sample_lives TRANSACTION_ID_START)) [] = Done dir \<and>
      read_database_segments crc 0 dir = Done (rs, committed) \<and> TRANSACTION_ID_START \<notin> set committed \<and>
      TRANSACTION_ID_START \<notin> rec_transaction_id ` set rs) \<and>
    (\<exists>dir rs committed. run_lives crc 65536 3 (sample_lives TRANSACTION_ID_START) [] = Done dir \<and>
      read_database_segments crc 0 dir = Done (rs, committed) \<and>
      (\<exists>r \<in> set rs. rec_transaction_id r = TRANSACTION_ID_START \<and> rec_row_ids r = [1]))"
proof -
  define txn where "txn = TRANSACTION_ID_START"
  have t': "t_transaction_id (fst (begin_transaction session (restore_commit_clock frontier manager_init))) = txn"
    by (simp add: txn_def begin_transaction_def manager_init_def restore_commit_clock_def Let_def set_snapshot_def transaction_new_def)
  have b: "txn < UINT64_MAX" "txn \<noteq> 0" by (simp_all add: txn_def TRANSACTION_ID_START_def)
  define ms where "ms = take 1 (sample_lives txn)"
  have ms: "ms \<noteq> []" "list_all life_wf ms" "layout_lives 65536 ms (0, 0, 0, False) = Some (0, 1, 0, False)"
    "length (concat ms) < 999999" "sorted (logged_ids (concat ms))" "length ms = 1" "truncated_to (concat ms) = 0"
    using b(1) by (simp_all add: ms_def sample_lives_def life_wf_def entry_wf_def layout_message_def layout_append_def
        layout_rotate_def layout_flush_def page_consts logged_ids_def msg_ids_def truncated_to_def)
  obtain dir cs where r1: "run_lives crc 65536 3 ms [] = Done dir" "length cs = 1"
    "read_database_segments crc 0 dir =
      Done (committed_filter (kept 0 (lives_records crc cs ms)), committed_txns (kept 0 (lives_records crc cs ms)))"
    using lives_recover_all [OF ms(1-5), of 0 crc 3] ms(6,7) by auto
  have two: "length (sample_lives txn) = 2" by (simp add: sample_lives_def)
  obtain dir' cs' where r2: "run_lives crc 65536 3 (sample_lives txn) [] = Done dir'" "length cs' = 2"
    "read_database_segments crc 0 dir' =
      Done (committed_filter (kept 0 (lives_records crc cs' (sample_lives txn))),
            committed_txns (kept 0 (lives_records crc cs' (sample_lives txn))))"
    using lives_recover_all [OF sample_lives_run(1-5) [OF b(1)], of 0 crc 3] sample_lives_run(6) [OF b(1)] two by auto
  obtain c where c: "cs = [c]" using r1(2) by (auto simp: length_Suc_conv)
  obtain c1 c2 where c': "cs' = [c1, c2]" using r2(2) by (auto simp: length_Suc_conv numeral_2_eq_2)
  let ?R = "kept 0 (lives_records crc cs' (sample_lives txn))"
  let ?r = "logged_record crc c1 1 txn (Delete_Entry 20000 [1])"
  have first: "committed_txns (kept 0 (lives_records crc cs ms)) = [txn + 1]"
    "txn \<notin> rec_transaction_id ` set (committed_filter (kept 0 (lives_records crc cs ms)))"
    using b(2) by (simp_all add: c ms_def sample_lives_def lives_records_def msg_records_def kept_def
        committed_txns_def committed_filter_def)
  have "?r \<in> set ?R" "txn \<in> set (committed_txns ?R)"
    by (simp_all add: c' sample_lives_def lives_records_def msg_records_def kept_def committed_txns_def)
  then have "?r \<in> set (committed_filter ?R)" by (simp add: committed_filter_def)
  moreover have "rec_row_ids ?r = [1]" by (simp add: logged_record_def Let_def)
  ultimately have second: "\<exists>r \<in> set (committed_filter ?R). rec_transaction_id r = txn \<and> rec_row_ids r = [1]"
    by (intro bexI [of _ ?r]) simp_all
  have "txn \<notin> set [txn + 1]" by simp
  then show ?thesis
    unfolding txn_def [symmetric] ms_def [symmetric] using t' r1(1,3) r2(1,3) first second by metis
qed

end
